(* ===== verification/Prelude.thy ===== *)
theory Prelude
  imports Main "HOL-Library.Word" "HOL-Library.Sublist"
begin

text \<open>
  Shared vocabulary of the development: the Go types every component uses (byte
  slices, 64-bit integers, instants, string maps), the error values of the package
  and of the libraries it calls, the inspection of wrapped errors that
  \<^verbatim>\<open>isNotFound\<close> and \<^verbatim>\<open>isPreconditionFailed\<close> perform, and the generic list
  lemmas the components share.
\<close>

section \<open>Go data\<close>

type_synonym byte = "8 word"
type_synonym bytes = "byte list"

text \<open>
  A \<^verbatim>\<open>map[string]string\<close> is an association list: its order is the (unspecified)
  iteration order of the Go map, so a theorem about every list is a theorem about every
  iteration order.
\<close>

type_synonym strmap = "(string \<times> string) list"

text \<open>
  An instant is the number of nanoseconds since the zero \<^verbatim>\<open>time.Time\<close>, so
  \<^verbatim>\<open>IsZero\<close> is equality with 0. \<^verbatim>\<open>Unix\<close> counts seconds since 1970.
\<close>

type_synonym instant = int

definition IsZero :: "instant \<Rightarrow> bool" where
  "IsZero t \<longleftrightarrow> t = 0"

definition Before :: "instant \<Rightarrow> instant \<Rightarrow> bool" where
  "Before t u \<longleftrightarrow> t < u"

definition Unix :: "instant \<Rightarrow> int" where
  "Unix t = t div 1000000000 - 62135596800"

text \<open>Two's complement 64-bit wrap-around of an integer.\<close>

definition wrap64 :: "int \<Rightarrow> int" where
  "wrap64 x = (x + 2 ^ 63) mod 2 ^ 64 - 2 ^ 63"

definition int64 :: "int \<Rightarrow> bool" where
  "int64 x \<longleftrightarrow> - (2 ^ 63) \<le> x \<and> x < 2 ^ 63"

text \<open>Open flags and permission bits, as the \<^verbatim>\<open>os\<close> and \<^verbatim>\<open>io/fs\<close> packages define them on Linux.\<close>

abbreviation (input) O_RDONLY :: int where "O_RDONLY \<equiv> 0"
abbreviation (input) O_WRONLY :: int where "O_WRONLY \<equiv> 1"
abbreviation (input) O_RDWR :: int where "O_RDWR \<equiv> 2"
abbreviation (input) O_CREATE :: int where "O_CREATE \<equiv> 64"
abbreviation (input) O_EXCL :: int where "O_EXCL \<equiv> 128"
abbreviation (input) O_TRUNC :: int where "O_TRUNC \<equiv> 512"
abbreviation (input) O_APPEND :: int where "O_APPEND \<equiv> 1024"

section \<open>Errors\<close>

text \<open>
  The error values: sentinels of \<^verbatim>\<open>io\<close>, \<^verbatim>\<open>io/fs\<close>, \<^verbatim>\<open>context\<close>, go-billy and this
  package; the typed errors of the AWS SDK (\<^verbatim>\<open>types.NotFound\<close>, \<^verbatim>\<open>types.NoSuchKey\<close>,
  an API error carrying a code, and the two wrappers \<^verbatim>\<open>ResponseError\<close>, which carries the
  HTTP status, and \<^verbatim>\<open>OperationError\<close>); and the wrappers \<^verbatim>\<open>fs.PathError\<close> and
  \<^verbatim>\<open>os.LinkError\<close>. A Go run-time panic is a value of its own.
\<close>

datatype goerr =
    EOF | ErrUnexpectedEOF
  | ErrClosed | ErrPermission | ErrInvalid | ErrExist | ErrNotExist
  | ErrCanceled
  | ErrIsDirectory | ErrNotADirectory | ErrDirNotEmpty | ErrTooManySymlinks
  | ErrNoPresignClient
  | ErrBaseDirCannotBeRemoved | ErrBaseDirCannotBeRenamed
  | ErrContentSHA256 string
  | OsError
  | NotFound | NoSuchKey | APIError string
  | ResponseError int goerr
  | OperationError goerr
  | PathError string string goerr
  | LinkError string string string goerr
  | Panic

text \<open>\<^verbatim>\<open>errors.Unwrap\<close>, and the chain \<^verbatim>\<open>errors.As\<close> walks.\<close>

fun err_chain :: "goerr \<Rightarrow> goerr list" where
  "err_chain (ResponseError st e) = ResponseError st e # err_chain e"
| "err_chain (OperationError e) = OperationError e # err_chain e"
| "err_chain (PathError opn p e) = PathError opn p e # err_chain e"
| "err_chain (LinkError opn a b e) = LinkError opn a b e # err_chain e"
| "err_chain e = [e]"

fun http_status :: "goerr \<Rightarrow> int option" where
  "http_status (ResponseError st e) = Some st"
| "http_status _ = None"

text \<open>The \<^verbatim>\<open>ErrorCode\<close> method of the SDK's API errors.\<close>

fun error_code :: "goerr \<Rightarrow> string option" where
  "error_code NotFound = Some ''NotFound''"
| "error_code NoSuchKey = Some ''NoSuchKey''"
| "error_code (APIError c) = Some c"
| "error_code _ = None"

text \<open>The first answer along a chain, which is what \<^verbatim>\<open>errors.As\<close> with a target type finds.\<close>

fun first_some :: "('a \<Rightarrow> 'b option) \<Rightarrow> 'a list \<Rightarrow> 'b option" where
  "first_some f [] = None"
| "first_some f (x # xs) = (case f x of Some y \<Rightarrow> Some y | None \<Rightarrow> first_some f xs)"

definition isNotFound :: "goerr \<Rightarrow> bool" where
  "isNotFound err \<longleftrightarrow>
     (if NotFound \<in> set (err_chain err) \<or> NoSuchKey \<in> set (err_chain err) then True
      else first_some http_status (err_chain err) = Some 404)"

definition isPreconditionFailed :: "goerr \<Rightarrow> bool" where
  "isPreconditionFailed err \<longleftrightarrow>
     (if first_some http_status (err_chain err) = Some 412 then True
      else first_some error_code (err_chain err) = Some ''PreconditionFailed'')"

section \<open>Collections and shared lemmas\<close>

named_theorems path_simps \<open>evaluation of the path and key functions on canonical paths\<close>
named_theorems lru_simps \<open>views of the LRU index after an operation\<close>
named_theorems buf_simps \<open>contents of a write buffer after an operation\<close>
named_theorems store_simps \<open>contents of the object store after a request\<close>

lemma isNotFound_simps [simp]:
  "isNotFound NotFound" "isNotFound NoSuchKey"
  "\<not> isNotFound ErrNotExist" "\<not> isNotFound EOF" "\<not> isNotFound ErrClosed"
  by (simp_all add: isNotFound_def)

lemma isNotFound_PathError [simp]: "isNotFound (PathError opn p e) = isNotFound e"
  by (auto simp: isNotFound_def)

lemma wrap64_id [simp]: "int64 x \<Longrightarrow> wrap64 x = x"
  by (simp add: wrap64_def int64_def)

lemma wrap64_range: "int64 (wrap64 x)"
  by (simp add: wrap64_def int64_def)

lemma map_of_filter_neq: "map_of (filter (\<lambda>p. fst p \<noteq> k) xs) k' = (if k' = k then None else map_of xs k')"
  by (induction xs) auto

lemma fst_set_filter_neq: "fst ` set (filter (\<lambda>p. fst p \<noteq> k) xs) = fst ` set xs - {k}"
  by auto

lemma distinct_map_filter_fst:
  "distinct (map fst xs) \<Longrightarrow> distinct (map fst (filter P xs))"
  by (induction xs) auto

lemma filter_neq_absent: "k \<notin> fst ` set xs \<Longrightarrow> filter (\<lambda>p. fst p \<noteq> k) xs = xs"
  by (induction xs) auto

end
