(* ===== verification/LRU.thy ===== *)
theory LRU
  imports Prelude "HOL-Library.Multiset"
begin

text \<open>
  The byte-budgeted LRU index of \<^verbatim>\<open>lru.go\<close>, which both cache tiers are built on. The
  entry-count LRU of \<^verbatim>\<open>groupcache\<close> below it is not part of this repository: it is a
  record of operations the definitions take as an argument, and the locale
  \<open>groupcache\<close> states its documented behaviour. The lemmas show the budget invariant,
  what every operation returns and evicts, and that no value leaves the index without
  passing through the eviction callback.
\<close>

section \<open>The groupcache LRU, as a parameter\<close>

text \<open>
  \<^verbatim>\<open>lru.Cache\<close> with \<^verbatim>\<open>MaxEntries\<close> 0, over a cache state \<open>'c\<close> and stored values
  \<open>'e\<close>. \<^verbatim>\<open>Remove\<close> and \<^verbatim>\<open>RemoveOldest\<close> return the value handed to the
  \<^verbatim>\<open>OnEvicted\<close> callback, if an entry was removed.
\<close>

record ('c, 'e) lru_Cache =
  lru_New :: 'c
  lru_Get :: "string \<Rightarrow> 'c \<Rightarrow> 'e option \<times> 'c"
  lru_Add :: "string \<Rightarrow> 'e \<Rightarrow> 'c \<Rightarrow> 'c"
  lru_Remove :: "string \<Rightarrow> 'c \<Rightarrow> 'e option \<times> 'c"
  lru_RemoveOldest :: "'c \<Rightarrow> 'e option \<times> 'c"
  lru_Len :: "'c \<Rightarrow> nat"

section \<open>The index\<close>

definition entryOverhead :: int where
  "entryOverhead = 256"

record 'v lruEntry =
  val :: 'v
  cost :: int
  expires :: instant

record 'c lruIndex =
  maxBytes :: int
  ttl :: int
  cache :: 'c
  used :: int

definition newLRUIndex :: "('c, 'v lruEntry) lru_Cache \<Rightarrow> int \<Rightarrow> int \<Rightarrow> 'c lruIndex" where
  "newLRUIndex gc maxBytes0 ttl0 =
     \<lparr>maxBytes = maxBytes0, ttl = ttl0, cache = lru_New gc, used = 0\<rparr>"

text \<open>
  The \<^verbatim>\<open>OnEvicted\<close> closure installed by \<^verbatim>\<open>newLRUIndex\<close>: it takes the entry's cost off
  \<^verbatim>\<open>used\<close> and hands its value to \<^verbatim>\<open>onEvict\<close>. Operations return the list of values
  handed to \<^verbatim>\<open>onEvict\<close>, in call order, for the owner of the index to act on. The
  recycling of entry shells through \<^verbatim>\<open>entryPool\<close> is not observable: \<^verbatim>\<open>put\<close>
  overwrites every field of a recycled shell.
\<close>

definition onEvicted :: "'v lruEntry \<Rightarrow> 'c lruIndex \<Rightarrow> 'v list \<times> 'c lruIndex" where
  "onEvicted e x = ([val e], x\<lparr>used := used x - cost e\<rparr>)"

definition afterRemove :: "'c lruIndex \<Rightarrow> 'v lruEntry option \<times> 'c \<Rightarrow> 'v list \<times> 'c lruIndex" where
  "afterRemove x r =
     (case fst r of
        None \<Rightarrow> ([], x\<lparr>cache := snd r\<rparr>)
      | Some e \<Rightarrow> onEvicted e (x\<lparr>cache := snd r\<rparr>))"

definition lruIndex_delete ::
    "('c, 'v lruEntry) lru_Cache \<Rightarrow> string \<Rightarrow> 'c lruIndex \<Rightarrow> 'v list \<times> 'c lruIndex" where
  "lruIndex_delete gc k x = afterRemove x (lru_Remove gc k (cache x))"

definition lruIndex_get ::
    "('c, 'v lruEntry) lru_Cache \<Rightarrow> instant \<Rightarrow> string \<Rightarrow> 'c lruIndex
       \<Rightarrow> 'v option \<times> 'v list \<times> 'c lruIndex" where
  "lruIndex_get gc now k x =
     (case lru_Get gc k (cache x) of
        (None, c) \<Rightarrow> (None, [], x\<lparr>cache := c\<rparr>)
      | (Some e, c) \<Rightarrow>
          if \<not> IsZero (expires e) \<and> \<not> Before now (expires e)
          then (None, lruIndex_delete gc k (x\<lparr>cache := c\<rparr>))
          else (Some (val e), [], x\<lparr>cache := c\<rparr>))"

text \<open>
  The eviction loop of \<^verbatim>\<open>put\<close>: \<^verbatim>\<open>for x.used > x.maxBytes && x.cache.Len() > 0\<close>. The
  fuel is the number of entries at the start; each round removes one, so the loop has ended
  when the fuel runs out (\<open>evictLoop_stops\<close>).
\<close>

fun evictLoop ::
    "('c, 'v lruEntry) lru_Cache \<Rightarrow> nat \<Rightarrow> 'v list \<Rightarrow> 'c lruIndex \<Rightarrow> 'v list \<times> 'c lruIndex" where
  "evictLoop gc fuel ev x =
     (if used x > maxBytes x \<and> lru_Len gc (cache x) > 0
      then (case fuel of
              0 \<Rightarrow> (ev, x)
            | Suc n \<Rightarrow>
                (case afterRemove x (lru_RemoveOldest gc (cache x)) of
                   (vs, y) \<Rightarrow> evictLoop gc n (ev @ vs) y))
      else (ev, x))"

declare evictLoop.simps [simp del]

definition newEntry :: "instant \<Rightarrow> int \<Rightarrow> 'v \<Rightarrow> int \<Rightarrow> 'v lruEntry" where
  "newEntry now ttl0 v cost0 =
     \<lparr>val = v, cost = cost0, expires = (if ttl0 > 0 then now + ttl0 else 0)\<rparr>"

definition lruIndex_put ::
    "('c, 'v lruEntry) lru_Cache \<Rightarrow> instant \<Rightarrow> string \<Rightarrow> 'v \<Rightarrow> int \<Rightarrow> 'c lruIndex
       \<Rightarrow> 'v list \<times> 'c lruIndex" where
  "lruIndex_put gc now k v cost0 x =
     (case lruIndex_delete gc k x of
        (ev, y) \<Rightarrow>
          if cost0 > maxBytes y then (ev @ [v], y)
          else let z = y\<lparr>cache := lru_Add gc k (newEntry now (ttl y) v cost0) (cache y),
                         used := used y + cost0\<rparr>
               in evictLoop gc (lru_Len gc (cache z)) ev z)"

section \<open>What the index needs of groupcache\<close>

text \<open>
  \<open>view c\<close> lists the entries of a cache from the most to the least recently used. The
  laws are the documented behaviour of \<^verbatim>\<open>groupcache/lru\<close>: \<^verbatim>\<open>Get\<close> refreshes the
  entry it finds, \<^verbatim>\<open>Add\<close> inserts at the front replacing silently, \<^verbatim>\<open>Remove\<close> and
  \<^verbatim>\<open>RemoveOldest\<close> report what they drop, \<^verbatim>\<open>Len\<close> counts.
\<close>

locale groupcache =
  fixes gc :: "('c, 'e) lru_Cache"
    and view :: "'c \<Rightarrow> (string \<times> 'e) list"
  assumes view_New: "view (lru_New gc) = []"
    and Get_result: "fst (lru_Get gc k c) = map_of (view c) k"
    and view_Get: "view (snd (lru_Get gc k c)) =
          (case map_of (view c) k of
             None \<Rightarrow> view c | Some e \<Rightarrow> (k, e) # filter (\<lambda>p. fst p \<noteq> k) (view c))"
    and view_Add: "view (lru_Add gc k e c) = (k, e) # filter (\<lambda>p. fst p \<noteq> k) (view c)"
    and Remove_result: "fst (lru_Remove gc k c) = map_of (view c) k"
    and view_Remove: "view (snd (lru_Remove gc k c)) = filter (\<lambda>p. fst p \<noteq> k) (view c)"
    and RemoveOldest_result: "fst (lru_RemoveOldest gc c) =
          (if view c = [] then None else Some (snd (last (view c))))"
    and view_RemoveOldest: "view (snd (lru_RemoveOldest gc c)) = butlast (view c)"
    and Len_view: "lru_Len gc c = length (view c)"

text \<open>The total cost of a list of entries, and the well-formedness of an index over a view.\<close>

definition costs :: "(string \<times> 'v lruEntry) list \<Rightarrow> int" where
  "costs xs = sum_list (map (\<lambda>p. cost (snd p)) xs)"

definition lru_inv :: "('c \<Rightarrow> (string \<times> 'v lruEntry) list) \<Rightarrow> 'c lruIndex \<Rightarrow> bool" where
  "lru_inv view x \<longleftrightarrow>
     distinct (map fst (view (cache x))) \<and>
     list_all (\<lambda>p. 0 \<le> cost (snd p)) (view (cache x)) \<and>
     used x = costs (view (cache x)) \<and>
     used x \<le> maxBytes x"

definition lru_vals :: "('c \<Rightarrow> (string \<times> 'v lruEntry) list) \<Rightarrow> 'c lruIndex \<Rightarrow> 'v list" where
  "lru_vals view x = map (\<lambda>p. val (snd p)) (view (cache x))"

definition lru_entries :: "('c \<Rightarrow> (string \<times> 'v lruEntry) list) \<Rightarrow> 'c lruIndex \<Rightarrow> (string \<times> 'v) set" where
  "lru_entries view x = (\<lambda>p. (fst p, val (snd p))) ` set (view (cache x))"

lemma costs_simps [simp]:
  "costs [] = 0" "costs (p # xs) = cost (snd p) + costs xs" "costs (xs @ ys) = costs xs + costs ys"
  by (simp_all add: costs_def)

lemma costs_nonneg: "list_all (\<lambda>p. 0 \<le> cost (snd p)) xs \<Longrightarrow> 0 \<le> costs xs"
  by (induction xs) auto

lemma costs_remove:
  "distinct (map fst xs) \<Longrightarrow>
     costs (filter (\<lambda>p. fst p \<noteq> k) xs) =
     costs xs - (case map_of xs k of None \<Rightarrow> 0 | Some e \<Rightarrow> cost e)"
  by (induction xs) (auto simp: filter_neq_absent split: option.splits, (force dest: map_of_SomeD)+)

lemma vals_remove:
  "distinct (map fst xs) \<Longrightarrow>
     mset (map (\<lambda>p. f (snd p)) xs) =
     mset (map (\<lambda>p. f (snd p)) (filter (\<lambda>p. fst p \<noteq> k) xs)) +
       (case map_of xs k of None \<Rightarrow> {#} | Some e \<Rightarrow> {#f e#})"
  by (induction xs) (auto simp: filter_neq_absent split: option.splits)

lemma image_filter_key:
  "(\<lambda>p. (fst p, f (snd p))) ` {p \<in> A. fst p \<noteq> k} = {e \<in> (\<lambda>p. (fst p, f (snd p))) ` A. fst e \<noteq> k}"
  by force

lemma list_all_filterI: "list_all P xs \<Longrightarrow> list_all P (filter Q xs)"
  by (induction xs) auto


text \<open>Expiry, as \<^verbatim>\<open>get\<close> decides it.\<close>

definition live :: "instant \<Rightarrow> 'v lruEntry \<Rightarrow> bool" where
  "live now e \<longleftrightarrow> IsZero (expires e) \<or> Before now (expires e)"

text \<open>
  The loop keeps the longest run of most recently used entries that fits the budget, evicts
  the rest from the oldest on, and has really stopped: its guard is false.
\<close>

definition keep_fitting :: "int \<Rightarrow> (string \<times> 'v lruEntry) list \<Rightarrow> nat \<Rightarrow> bool" where
  "keep_fitting budget xs n \<longleftrightarrow>
     n \<le> length xs \<and> costs (take n xs) \<le> budget \<and>
     (n < length xs \<longrightarrow> costs (take (Suc n) xs) > budget)"

lemma keep_fitting_snoc:
  "keep_fitting b xs n \<Longrightarrow> b < costs (xs @ [p]) \<Longrightarrow> keep_fitting b (xs @ [p]) n"
  by (cases "n = length xs") (auto simp: keep_fitting_def)

section \<open>The index over a lawful cache\<close>

locale lru_over_groupcache =
  groupcache gc view for gc :: "('c, 'v lruEntry) lru_Cache" and view
begin

lemma delete_eq:
  "lruIndex_delete gc k x =
     (case map_of (view (cache x)) k of
        None \<Rightarrow> ([], x\<lparr>cache := snd (lru_Remove gc k (cache x))\<rparr>)
      | Some e \<Rightarrow> ([val e], x\<lparr>cache := snd (lru_Remove gc k (cache x)), used := used x - cost e\<rparr>))"
  by (simp add: lruIndex_delete_def afterRemove_def onEvicted_def Remove_result split: option.split)

lemma delete_view:
  "lruIndex_delete gc k x = (ev, y) \<Longrightarrow>
     view (cache y) = filter (\<lambda>p. fst p \<noteq> k) (view (cache x)) \<and> maxBytes y = maxBytes x \<and> ttl y = ttl x"
  by (auto simp: delete_eq view_Remove split: option.splits)

lemma delete_inv:
  assumes inv: "lru_inv view x" and del: "lruIndex_delete gc k x = (ev, y)"
  shows "lru_inv view y"
proof -
  have "used y = used x - (case map_of (view (cache x)) k of None \<Rightarrow> 0 | Some e \<Rightarrow> cost e)"
    using del by (auto simp: delete_eq split: option.splits)
  moreover have "used y \<le> used x"
    using inv calculation by (auto simp: lru_inv_def list_all_iff split: option.splits dest!: map_of_SomeD)
  ultimately show ?thesis
    using inv delete_view [OF del]
    by (simp add: lru_inv_def costs_remove distinct_map_filter_fst list_all_filterI)
qed

lemma delete_vals:
  "lru_inv view x \<Longrightarrow> lruIndex_delete gc k x = (ev, y) \<Longrightarrow>
     mset (lru_vals view x) = mset (lru_vals view y) + mset ev"
  using vals_remove [of "view (cache x)" val k]
  by (cases "map_of (view (cache x)) k") (auto simp: delete_eq lru_vals_def lru_inv_def view_Remove)

lemma delete_entries:
  "lruIndex_delete gc k x = (ev, y) \<Longrightarrow> lru_entries view y = {e \<in> lru_entries view x. fst e \<noteq> k}"
  by (drule delete_view) (simp add: lru_entries_def image_filter_key)

lemma get_eq:
  "lruIndex_get gc now k x =
     (let c = snd (lru_Get gc k (cache x))
      in case map_of (view (cache x)) k of
           None \<Rightarrow> (None, [], x\<lparr>cache := c\<rparr>)
         | Some e \<Rightarrow> if live now e then (Some (val e), [], x\<lparr>cache := c\<rparr>)
                     else (None, lruIndex_delete gc k (x\<lparr>cache := c\<rparr>)))"
  using Get_result [of k "cache x"]
  by (auto simp: lruIndex_get_def live_def split: prod.split option.split)

lemma promote_inv:
  assumes inv: "lru_inv view x"
  shows "lru_inv view (x\<lparr>cache := snd (lru_Get gc k (cache x))\<rparr>)"
proof (cases "map_of (view (cache x)) k")
  case None
  then show ?thesis using inv by (simp add: lru_inv_def view_Get)
next
  case (Some e)
  then show ?thesis
    using inv map_of_SomeD [OF Some]
    by (auto simp: lru_inv_def view_Get costs_remove distinct_map_filter_fst list_all_iff)
qed

lemma promote_view_set:
  "distinct (map fst (view (cache x))) \<Longrightarrow>
     set (view (snd (lru_Get gc k (cache x)))) = set (view (cache x))"
  by (cases "map_of (view (cache x)) k")
     (auto simp: view_Get dest: map_of_SomeD eq_key_imp_eq_value)

lemma get_inv:
  assumes "lru_inv view x" "lruIndex_get gc now k x = (r, ev, y)"
  shows "lru_inv view y"
  using assms promote_inv [OF assms(1), of k] delete_inv [OF promote_inv [OF assms(1), of k]]
  by (auto simp: get_eq Let_def split: option.splits if_splits)

lemma get_entries:
  assumes inv: "lru_inv view x" and get: "lruIndex_get gc now k x = (r, ev, y)"
  shows "lru_entries view y \<subseteq> lru_entries view x"
    and "r = Some v \<Longrightarrow> (k, v) \<in> lru_entries view x"
    and "r = Some v \<Longrightarrow> lru_entries view y = lru_entries view x"
proof -
  let ?x = "x\<lparr>cache := snd (lru_Get gc k (cache x))\<rparr>"
  have same: "lru_entries view ?x = lru_entries view x"
    using inv promote_view_set [of x k] by (simp add: lru_entries_def lru_inv_def)
  show "lru_entries view y \<subseteq> lru_entries view x"
    using get same delete_entries [of k ?x] by (auto simp: get_eq Let_def split: option.splits if_splits)
  show "r = Some v \<Longrightarrow> (k, v) \<in> lru_entries view x"
    using get by (force simp: get_eq Let_def lru_entries_def split: option.splits if_splits
                        dest: map_of_SomeD)
  show "r = Some v \<Longrightarrow> lru_entries view y = lru_entries view x"
    using get same by (auto simp: get_eq Let_def split: option.splits if_splits)
qed

lemma get_frame: "lruIndex_get gc now k x = (r, ev, y) \<Longrightarrow> maxBytes y = maxBytes x \<and> ttl y = ttl x"
  by (auto simp: get_eq Let_def delete_eq split: option.splits if_splits)

subsection \<open>The eviction loop\<close>

lemma removeOldest_step:
  assumes ne: "view (cache x) \<noteq> []"
  shows "afterRemove x (lru_RemoveOldest gc (cache x)) =
           ([val (snd (last (view (cache x))))],
            x\<lparr>cache := snd (lru_RemoveOldest gc (cache x)),
              used := used x - cost (snd (last (view (cache x))))\<rparr>)"
  using ne by (simp add: afterRemove_def onEvicted_def RemoveOldest_result)

lemma evictLoop_spec:
  assumes "lru_Len gc (cache x) \<le> fuel" "used x = costs (view (cache x))" "0 \<le> maxBytes x"
    "evictLoop gc fuel ev x = (ev', y)"
  shows "\<exists>n. keep_fitting (maxBytes x) (view (cache x)) n \<and>
             view (cache y) = take n (view (cache x)) \<and>
             ev' = ev @ map (\<lambda>p. val (snd p)) (rev (drop n (view (cache x)))) \<and>
             used y = costs (view (cache y)) \<and> maxBytes y = maxBytes x \<and> ttl y = ttl x"
  using assms
proof (induction fuel arbitrary: ev x)
  case 0
  then have "view (cache x) = []" by (simp add: Len_view)
  with 0 show ?case by (simp add: evictLoop.simps Len_view keep_fitting_def)
next
  case (Suc fuel)
  let ?v = "view (cache x)"
  show ?case
  proof (cases "used x > maxBytes x \<and> ?v \<noteq> []")
    case False
    with Suc.prems have "evictLoop gc (Suc fuel) ev x = (ev, x)" "costs ?v \<le> maxBytes x"
      by (auto simp: evictLoop.simps Len_view)
    with Suc.prems show ?thesis
      by (intro exI [where x = "length ?v"]) (simp add: keep_fitting_def)
  next
    case True
    let ?z = "x\<lparr>cache := snd (lru_RemoveOldest gc (cache x)), used := used x - cost (snd (last ?v))\<rparr>"
    have split_last: "?v = butlast ?v @ [last ?v]" using True by simp
    have c: "costs ?v = costs (butlast ?v) + cost (snd (last ?v))"
      by (subst split_last) simp
    have step: "evictLoop gc fuel (ev @ [val (snd (last ?v))]) ?z = (ev', y)"
      using Suc.prems True by (simp add: evictLoop.simps [of gc "Suc fuel"] removeOldest_step Len_view)
    have fu: "length ?v - Suc 0 \<le> fuel" using Suc.prems(1) by (simp add: Len_view)
    obtain n where n: "keep_fitting (maxBytes ?z) (butlast ?v) n"
        "view (cache y) = take n (butlast ?v)"
        "ev' = (ev @ [val (snd (last ?v))]) @ map (\<lambda>p. val (snd p)) (rev (drop n (butlast ?v)))"
        "used y = costs (view (cache y))" "maxBytes y = maxBytes ?z" "ttl y = ttl ?z"
      using Suc.IH [OF _ _ _ step] Suc.prems True c fu by (auto simp: Len_view view_RemoveOldest)
    have le: "n \<le> length (butlast ?v)" using n(1) by (simp add: keep_fitting_def)
    then have "take n ?v = take n (butlast ?v)" "drop n ?v = drop n (butlast ?v) @ [last ?v]"
      by (subst split_last, simp)+
    moreover have "keep_fitting (maxBytes x) ?v n"
      using keep_fitting_snoc [of _ "butlast ?v" n "last ?v"] n(1) True Suc.prems(2) c split_last
      by simp
    ultimately show ?thesis
      using n by (intro exI [where x = n]) simp
  qed
qed

subsection \<open>Put\<close>

lemma put_reject:
  assumes "lruIndex_put gc now k v cost0 x = (ev, y)" "cost0 > maxBytes x"
  shows "\<exists>ev1. lruIndex_delete gc k x = (ev1, y) \<and> ev = ev1 @ [v]"
proof -
  obtain ev1 y1 where del: "lruIndex_delete gc k x = (ev1, y1)"
    by (cases "lruIndex_delete gc k x")
  then have "maxBytes y1 = maxBytes x" using delete_view by blast
  with assms del show ?thesis by (simp add: lruIndex_put_def)
qed

lemma put_accept:
  assumes inv: "lru_inv view x" and nn: "0 \<le> cost0" and fits: "cost0 \<le> maxBytes x"
    and put: "lruIndex_put gc now k v cost0 x = (ev, y)"
  shows "\<exists>n ev1 y1. lruIndex_delete gc k x = (ev1, y1) \<and>
           (let front = (k, newEntry now (ttl x) v cost0) # filter (\<lambda>p. fst p \<noteq> k) (view (cache x))
            in keep_fitting (maxBytes x) front n \<and> 1 \<le> n \<and> view (cache y) = take n front \<and>
               ev = ev1 @ map (\<lambda>p. val (snd p)) (rev (drop n front)) \<and>
               used y = costs (view (cache y)) \<and> maxBytes y = maxBytes x \<and> ttl y = ttl x)"
proof -
  obtain ev1 y1 where del: "lruIndex_delete gc k x = (ev1, y1)"
    by (cases "lruIndex_delete gc k x")
  have y1: "view (cache y1) = filter (\<lambda>p. fst p \<noteq> k) (view (cache x))"
      "maxBytes y1 = maxBytes x" "ttl y1 = ttl x"
    using delete_view [OF del] by auto
  have inv1: "lru_inv view y1" by (rule delete_inv [OF inv del])
  let ?e = "newEntry now (ttl x) v cost0"
  let ?front = "(k, ?e) # filter (\<lambda>p. fst p \<noteq> k) (view (cache x))"
  let ?z = "y1\<lparr>cache := lru_Add gc k ?e (cache y1), used := used y1 + cost0\<rparr>"
  have zview: "view (cache ?z) = ?front" using y1 by (simp add: view_Add)
  have ev: "evictLoop gc (lru_Len gc (cache ?z)) ev1 ?z = (ev, y)"
    using put del fits y1 by (simp add: lruIndex_put_def)
  have used: "used ?z = costs (view (cache ?z))"
    using inv1 y1 unfolding zview by (simp add: newEntry_def lru_inv_def)
  obtain n where n: "keep_fitting (maxBytes ?z) ?front n" "view (cache y) = take n ?front"
      "ev = ev1 @ map (\<lambda>p. val (snd p)) (rev (drop n ?front))"
      "used y = costs (view (cache y))" "maxBytes y = maxBytes ?z" "ttl y = ttl ?z"
    using evictLoop_spec [OF order_refl used _ ev] nn fits y1 unfolding zview by auto
  have "1 \<le> n"
    using n(1) fits y1 by (cases n) (auto simp: keep_fitting_def newEntry_def)
  with n del y1 show ?thesis
    by (intro exI [where x = n] exI [where x = ev1] exI [where x = y1]) (simp add: Let_def)
qed

lemma put_inv:
  assumes inv: "lru_inv view x" and nn: "0 \<le> cost0" and put: "lruIndex_put gc now k v cost0 x = (ev, y)"
  shows "lru_inv view y"
proof (cases "cost0 > maxBytes x")
  case True
  then show ?thesis using put_reject [OF put] delete_inv [OF inv] by blast
next
  case False
  let ?front = "(k, newEntry now (ttl x) v cost0) # filter (\<lambda>p. fst p \<noteq> k) (view (cache x))"
  obtain n where n: "keep_fitting (maxBytes x) ?front n" "view (cache y) = take n ?front"
      "used y = costs (view (cache y))" "maxBytes y = maxBytes x"
    using put_accept [OF inv nn _ put] False by (auto simp: Let_def)
  have "distinct (map fst ?front)" "list_all (\<lambda>p. 0 \<le> cost (snd p)) ?front"
    using inv nn by (auto simp: lru_inv_def distinct_map_filter_fst newEntry_def list_all_iff)
  then have "distinct (map fst (take n ?front))" "list_all (\<lambda>p. 0 \<le> cost (snd p)) (take n ?front)"
    by (simp add: take_map [symmetric], simp only: list_all_iff, blast dest: in_set_takeD)
  with n show ?thesis by (simp add: lru_inv_def keep_fitting_def)
qed

lemma put_entries:
  assumes inv: "lru_inv view x" and nn: "0 \<le> cost0" and put: "lruIndex_put gc now k v cost0 x = (ev, y)"
  shows "lru_entries view y \<subseteq> insert (k, v) {e \<in> lru_entries view x. fst e \<noteq> k}"
proof (cases "cost0 > maxBytes x")
  case True
  then show ?thesis using put_reject [OF put] delete_entries by fastforce
next
  case False
  let ?front = "(k, newEntry now (ttl x) v cost0) # filter (\<lambda>p. fst p \<noteq> k) (view (cache x))"
  obtain n where "view (cache y) = take n ?front"
    using put_accept [OF inv nn _ put] False by (auto simp: Let_def)
  then have "set (view (cache y)) \<subseteq> set ?front" by (metis set_take_subset)
  then show ?thesis by (auto simp: lru_entries_def newEntry_def)
qed

lemma put_vals:
  assumes inv: "lru_inv view x" and nn: "0 \<le> cost0" and put: "lruIndex_put gc now k v cost0 x = (ev, y)"
  shows "mset (lru_vals view x) + {#v#} = mset (lru_vals view y) + mset ev"
proof (cases "cost0 > maxBytes x")
  case True
  then show ?thesis using put_reject [OF put] delete_vals [OF inv] by fastforce
next
  case False
  let ?front = "(k, newEntry now (ttl x) v cost0) # filter (\<lambda>p. fst p \<noteq> k) (view (cache x))"
  obtain n ev1 y1 where n: "lruIndex_delete gc k x = (ev1, y1)" "view (cache y) = take n ?front"
      "ev = ev1 @ map (\<lambda>p. val (snd p)) (rev (drop n ?front))"
    using put_accept [OF inv nn _ put] False by (auto simp: Let_def)
  have "mset (map (\<lambda>p. val (snd p)) ?front) =
        mset (map (\<lambda>p. val (snd p)) (take n ?front)) + mset (map (\<lambda>p. val (snd p)) (drop n ?front))"
    by (metis append_take_drop_id map_append mset_append)
  moreover have "mset (lru_vals view x) = mset (lru_vals view y1) + mset ev1"
    by (rule delete_vals [OF inv n(1)])
  ultimately show ?thesis
    using n delete_view [OF n(1)] by (simp add: lru_vals_def newEntry_def rev_map)
qed

end

section \<open>The contract the cache tiers rely on\<close>

text \<open>
  What \<^verbatim>\<open>mem.go\<close> and \<^verbatim>\<open>disk.go\<close> need of the index, over any representation: an
  invariant every operation keeps, and the key-value pairs it holds, which only \<^verbatim>\<open>put\<close>
  adds to. \<open>all_entries\<close> is the shape of every coherence invariant of a tier.
\<close>

locale lru_index =
  fixes inv :: "'x \<Rightarrow> bool"
    and entries :: "'x \<Rightarrow> (string \<times> 'v) set"
    and get :: "instant \<Rightarrow> string \<Rightarrow> 'x \<Rightarrow> 'v option \<times> 'v list \<times> 'x"
    and put :: "instant \<Rightarrow> string \<Rightarrow> 'v \<Rightarrow> int \<Rightarrow> 'x \<Rightarrow> 'v list \<times> 'x"
    and delete :: "string \<Rightarrow> 'x \<Rightarrow> 'v list \<times> 'x"
  assumes get_inv: "inv x \<Longrightarrow> get now k x = (r, ev, y) \<Longrightarrow> inv y"
    and get_sub: "inv x \<Longrightarrow> get now k x = (r, ev, y) \<Longrightarrow> entries y \<subseteq> entries x"
    and get_hit: "inv x \<Longrightarrow> get now k x = (Some v, ev, y) \<Longrightarrow> (k, v) \<in> entries x"
    and put_inv: "inv x \<Longrightarrow> 0 \<le> c \<Longrightarrow> put now k v c x = (ev, y) \<Longrightarrow> inv y"
    and put_sub: "inv x \<Longrightarrow> 0 \<le> c \<Longrightarrow> put now k v c x = (ev, y) \<Longrightarrow>
          entries y \<subseteq> insert (k, v) {e \<in> entries x. fst e \<noteq> k}"
    and entries_fun: "inv x \<Longrightarrow> (k, v) \<in> entries x \<Longrightarrow> (k, v') \<in> entries x \<Longrightarrow> v = v'"
    and delete_inv: "inv x \<Longrightarrow> delete k x = (ev, y) \<Longrightarrow> inv y"
    and delete_sub: "inv x \<Longrightarrow> delete k x = (ev, y) \<Longrightarrow> entries y = {e \<in> entries x. fst e \<noteq> k}"
begin

definition all_entries :: "(string \<Rightarrow> 'v \<Rightarrow> bool) \<Rightarrow> 'x \<Rightarrow> bool" where
  "all_entries P x \<longleftrightarrow> inv x \<and> (\<forall>k v. (k, v) \<in> entries x \<longrightarrow> P k v)"

lemma all_entries_get:
  "all_entries P x \<Longrightarrow> get now k x = (r, ev, y) \<Longrightarrow> all_entries P y"
  using get_inv get_sub by (fastforce simp: all_entries_def)

lemma all_entries_hit:
  "all_entries P x \<Longrightarrow> get now k x = (Some v, ev, y) \<Longrightarrow> P k v"
  using get_hit by (fastforce simp: all_entries_def)

lemma all_entries_put:
  assumes "inv x" "\<And>k' v'. (k', v') \<in> entries x \<Longrightarrow> k' \<noteq> k \<Longrightarrow> P k' v'" "P k v" "0 \<le> c"
    "put now k v c x = (ev, y)"
  shows "all_entries P y"
  using assms put_inv put_sub by (fastforce simp: all_entries_def)

lemma all_entries_delete:
  assumes "inv x" "\<And>k' v'. (k', v') \<in> entries x \<Longrightarrow> k' \<noteq> k \<Longrightarrow> P k' v'" "delete k x = (ev, y)"
  shows "all_entries P y"
  using assms delete_inv delete_sub by (fastforce simp: all_entries_def)

lemma all_entries_mono:
  "all_entries P x \<Longrightarrow> (\<And>k v. P k v \<Longrightarrow> Q k v) \<Longrightarrow> all_entries Q x"
  by (auto simp: all_entries_def)

end

sublocale lru_over_groupcache \<subseteq> idx: lru_index
  "lru_inv view" "lru_entries view" "lruIndex_get gc" "lruIndex_put gc" "lruIndex_delete gc"
proof unfold_locales
  fix x now k r ev y v c
  assume "lru_inv view x"
  then show "lruIndex_get gc now k x = (r, ev, y) \<Longrightarrow> lru_inv view y"
    "lruIndex_get gc now k x = (r, ev, y) \<Longrightarrow> lru_entries view y \<subseteq> lru_entries view x"
    "lruIndex_get gc now k x = (Some v, ev, y) \<Longrightarrow> (k, v) \<in> lru_entries view x"
    using get_inv get_entries(1) get_entries(2) by blast+
next
  fix x now k ev y v c
  assume "lru_inv view x" "0 \<le> c" "lruIndex_put gc now k v c x = (ev, y)"
  then show "lru_inv view y" "lru_entries view y \<subseteq> insert (k, v) {e \<in> lru_entries view x. fst e \<noteq> k}"
    using put_inv put_entries by blast+
next
  fix x k v v'
  assume "lru_inv view x" "(k, v) \<in> lru_entries view x" "(k, v') \<in> lru_entries view x"
  then show "v = v'"
    by (auto simp: lru_inv_def lru_entries_def dest: eq_key_imp_eq_value)
next
  fix x k ev y
  assume "lru_inv view x" "lruIndex_delete gc k x = (ev, y)"
  then show "lru_inv view y" "lru_entries view y = {e \<in> lru_entries view x. fst e \<noteq> k}"
    using delete_inv delete_entries by blast+
qed

section \<open>A concrete cache\<close>

text \<open>
  A cache kept as its own view, most recently used entry first: the cache the witnesses run
  on, and the proof that the laws of \<open>groupcache\<close> hold together.
\<close>

definition list_lru :: "((string \<times> 'e) list, 'e) lru_Cache" where
  "list_lru = \<lparr>
     lru_New = [],
     lru_Get = (\<lambda>k c. (map_of c k,
        case map_of c k of None \<Rightarrow> c | Some e \<Rightarrow> (k, e) # filter (\<lambda>p. fst p \<noteq> k) c)),
     lru_Add = (\<lambda>k e c. (k, e) # filter (\<lambda>p. fst p \<noteq> k) c),
     lru_Remove = (\<lambda>k c. (map_of c k, filter (\<lambda>p. fst p \<noteq> k) c)),
     lru_RemoveOldest = (\<lambda>c. (if c = [] then None else Some (snd (last c)), butlast c)),
     lru_Len = length\<rparr>"

interpretation list_cache: groupcache list_lru "\<lambda>c. c"
  by unfold_locales (auto simp: list_lru_def)

interpretation list_lru: lru_over_groupcache list_lru "\<lambda>c. c"
  by unfold_locales

text \<open>An index holding two entries of a budget of 10, for the witnesses.\<close>

definition demo_index :: "(string \<times> nat lruEntry) list lruIndex" where
  "demo_index = \<lparr>maxBytes = 10, ttl = 0,
     cache = [(''a'', \<lparr>val = 1, cost = 4, expires = 0\<rparr>), (''b'', \<lparr>val = 2, cost = 5, expires = 7\<rparr>)],
     used = 9\<rparr>"

lemma demo_index_inv: "lru_inv (\<lambda>c. c) demo_index"
  by (simp add: demo_index_def lru_inv_def)

lemma demo_put:
  "lruIndex_put list_lru 3 ''c'' 8 4 demo_index =
     ([2], \<lparr>maxBytes = 10, ttl = 0,
            cache = [(''c'', \<lparr>val = 8, cost = 4, expires = 0\<rparr>), (''a'', \<lparr>val = 1, cost = 4, expires = 0\<rparr>)],
            used = 8\<rparr>)"
  by (simp add: lruIndex_put_def lruIndex_delete_def afterRemove_def onEvicted_def demo_index_def
      list_lru_def newEntry_def evictLoop.simps)

lemma groupcache_overI: "groupcache gc view \<Longrightarrow> lru_over_groupcache gc view"
  by (rule lru_over_groupcache.intro)

section \<open>Properties\<close>





text \<open>
  C26: no value leaves the index unseen: the values held before a \<^verbatim>\<open>put\<close> and the new value
  are exactly the values held after it and the values \<^verbatim>\<open>onEvict\<close> was run on, each once.
\<close>

theorem lru_put_accounts_for_values:
  assumes "groupcache gc view" "lru_inv view x" "0 \<le> c" "lruIndex_put gc now k v c x = (ev, y)"
  shows "mset (lru_vals view x) + {#v#} = mset (lru_vals view y) + mset ev"
  by (rule lru_over_groupcache.put_vals [OF groupcache_overI [OF assms(1)] assms(2-4)])

theorem lru_put_accounts_for_values_witness:
  "mset (lru_vals (\<lambda>c. c) demo_index) + {#8#} =
   mset (lru_vals (\<lambda>c. c) (snd (lruIndex_put list_lru 3 ''c'' 8 4 demo_index))) + {#2#}"
  using lru_put_accounts_for_values [OF list_cache.groupcache_axioms demo_index_inv _ demo_put]
  by (simp add: demo_put)

text \<open>
  \<^verbatim>\<open>get\<close> returns the stored value exactly while the entry is present and has not
  expired; an expired entry is dropped, with \<^verbatim>\<open>onEvict\<close> run on its value.
\<close>

lemma lru_get_fresh_only:
  assumes "groupcache gc view" "lru_inv view x" "lruIndex_get gc now k x = (r, ev, y)"
  shows "case map_of (view (cache x)) k of
           None \<Rightarrow> r = None \<and> ev = [] \<and> view (cache y) = view (cache x)
         | Some e \<Rightarrow>
             if live now e then r = Some (val e) \<and> ev = [] \<and> hd (view (cache y)) = (k, e)
             else r = None \<and> ev = [val e] \<and> map_of (view (cache y)) k = None"
proof -
  have lru: "lru_over_groupcache gc view" using assms(1) by (rule groupcache_overI)
  show ?thesis
    using assms lru_over_groupcache.get_eq [OF lru, of now k x]
      lru_over_groupcache.delete_eq [OF lru, of k "x\<lparr>cache := snd (lru_Get gc k (cache x))\<rparr>"]
    by (auto simp: Let_def groupcache.view_Get groupcache.view_Remove map_of_filter_neq
             split: option.splits if_splits)
qed

end
