(* ===== verification/Paths.thy ===== *)
theory Paths
  imports Prelude
begin

text \<open>
  Paths and object keys: the string and \<^verbatim>\<open>path\<close> functions of the Go standard library
  that the package uses (on byte strings), and \<^verbatim>\<open>cleanPath\<close>, \<^verbatim>\<open>key\<close>,
  \<^verbatim>\<open>listPrefix\<close> and \<^verbatim>\<open>WithPrefix\<close> of \<^verbatim>\<open>s3fs.go\<close>. The lemmas say that a cleaned
  path is a canonical absolute path, that distinct canonical paths have distinct keys, that
  no path leaves the configured prefix, and that the keys under \<^verbatim>\<open>listPrefix\<close> are exactly
  those of proper descendants.
\<close>

section \<open>Strings\<close>

abbreviation slash :: char where "slash \<equiv> CHR ''/''"
abbreviation backslash :: char where "backslash \<equiv> CHR 0x5C"

text \<open>\<^verbatim>\<open>strings.ReplaceAll(s, "\\", "/")\<close>.\<close>

definition ReplaceBackslash :: "string \<Rightarrow> string" where
  "ReplaceBackslash s = map (\<lambda>c. if c = backslash then slash else c) s"

definition HasPrefix :: "string \<Rightarrow> string \<Rightarrow> bool" where
  "HasPrefix s p = prefix p s"

definition TrimPrefix :: "string \<Rightarrow> string \<Rightarrow> string" where
  "TrimPrefix s p = (if prefix p s then drop (length p) s else s)"

definition CutSuffix :: "string \<Rightarrow> string \<Rightarrow> string option" where
  "CutSuffix s p = (if suffix p s then Some (take (length s - length p) s) else None)"

definition TrimSuffix :: "string \<Rightarrow> string \<Rightarrow> string" where
  "TrimSuffix s p = (case CutSuffix s p of Some r \<Rightarrow> r | None \<Rightarrow> s)"

text \<open>\<^verbatim>\<open>strings.Trim(s, "/")\<close>.\<close>

definition TrimSlashes :: "string \<Rightarrow> string" where
  "TrimSlashes s = rev (dropWhile (\<lambda>c. c = slash) (rev (dropWhile (\<lambda>c. c = slash) s)))"

text \<open>\<^verbatim>\<open>strings.Split(s, "/")\<close> and \<^verbatim>\<open>strings.Join(_, "/")\<close>.\<close>

fun split_slash :: "string \<Rightarrow> string list" where
  "split_slash [] = [[]]"
| "split_slash (c # s) =
     (if c = slash then [] # split_slash s
      else (case split_slash s of [] \<Rightarrow> [[c]] | x # xs \<Rightarrow> (c # x) # xs))"

fun join_slash :: "string list \<Rightarrow> string" where
  "join_slash [] = []"
| "join_slash [x] = x"
| "join_slash (x # y # ys) = x @ slash # join_slash (y # ys)"

section \<open>The path package\<close>

text \<open>
  \<^verbatim>\<open>path.Clean\<close> on the slash-separated elements: empty and \<^verbatim>\<open>.\<close> elements go, \<^verbatim>\<open>..\<close>
  removes the element before it (kept in reverse in \<open>acc\<close>), at the root it vanishes and
  at the front of a relative path it stays.
\<close>

fun clean_elems :: "bool \<Rightarrow> string list \<Rightarrow> string list \<Rightarrow> string list" where
  "clean_elems rooted acc [] = rev acc"
| "clean_elems rooted acc (c # cs) =
     (if c = '''' \<or> c = ''.'' then clean_elems rooted acc cs
      else if c = ''..'' then
        (case acc of
           [] \<Rightarrow> clean_elems rooted (if rooted then [] else [''..'']) cs
         | a # as \<Rightarrow> clean_elems rooted (if a = ''..'' then ''..'' # acc else as) cs)
      else clean_elems rooted (c # acc) cs)"

definition path_IsAbs :: "string \<Rightarrow> bool" where
  "path_IsAbs p \<longleftrightarrow> (case p of [] \<Rightarrow> False | c # _ \<Rightarrow> c = slash)"

definition path_Clean :: "string \<Rightarrow> string" where
  "path_Clean p =
     (if p = '''' then ''.''
      else let out = clean_elems (path_IsAbs p) [] (split_slash p)
           in if path_IsAbs p then slash # join_slash out
              else if out = [] then ''.'' else join_slash out)"

definition path_Join :: "string list \<Rightarrow> string" where
  "path_Join elems =
     (if concat elems = '''' then ''''
      else path_Clean (join_slash (dropWhile (\<lambda>e. e = '''') elems)))"

definition path_Dir :: "string \<Rightarrow> string" where
  "path_Dir p = path_Clean (rev (dropWhile (\<lambda>c. c \<noteq> slash) (rev p)))"

definition path_Base :: "string \<Rightarrow> string" where
  "path_Base p =
     (if p = '''' then ''.''
      else let q = rev (dropWhile (\<lambda>c. c = slash) (rev p));
               b = rev (takeWhile (\<lambda>c. c \<noteq> slash) (rev q))
           in if b = '''' then ''/'' else b)"

section \<open>Path and key mapping of the filesystem\<close>

definition cleanPath :: "string \<Rightarrow> string" where
  "cleanPath p0 =
     (let p1 = ReplaceBackslash p0;
          p2 = (if HasPrefix p1 ''/'' then p1 else ''/'' @ p1)
      in path_Clean p2)"

text \<open>The argument \<open>pre\<close> is the field \<^verbatim>\<open>prefix\<close> of the filesystem.\<close>

definition WithPrefix :: "string \<Rightarrow> string" where
  "WithPrefix prefix0 = TrimSlashes (path_Clean (''/'' @ ReplaceBackslash prefix0))"

definition key :: "string \<Rightarrow> string \<Rightarrow> string" where
  "key pre p =
     (let rel = TrimPrefix (cleanPath p) ''/''
      in if pre = '''' then rel
         else if rel = '''' then pre
         else pre @ ''/'' @ rel)"

definition listPrefix :: "string \<Rightarrow> string \<Rightarrow> string" where
  "listPrefix pre p = (let k = key pre p in if k = '''' then '''' else k @ ''/'')"

section \<open>Canonical paths\<close>

text \<open>
  The elements a canonical path may have, and the elements of a path. A canonical path is
  the root or its elements, each preceded by a slash.
\<close>

definition elem_ok :: "string \<Rightarrow> bool" where
  "elem_ok c \<longleftrightarrow> c \<noteq> '''' \<and> c \<noteq> ''.'' \<and> c \<noteq> ''..'' \<and> slash \<notin> set c"

definition elems :: "string \<Rightarrow> string list" where
  "elems p = clean_elems True [] (split_slash (ReplaceBackslash p))"

definition abs_path :: "string list \<Rightarrow> string" where
  "abs_path cs = slash # join_slash cs"

lemma split_slash_ne [simp]: "split_slash s \<noteq> []"
  by (cases s) (auto split: list.splits)

lemma split_slash_no_slash: "x \<in> set (split_slash s) \<Longrightarrow> slash \<notin> set x"
  by (induction s arbitrary: x) (auto split: list.splits if_splits)

lemma split_slash_Cons_elem:
  "slash \<notin> set x \<Longrightarrow> split_slash (x @ slash # s) = x # split_slash s"
  by (induction x) auto

lemma split_slash_elem: "slash \<notin> set x \<Longrightarrow> split_slash x = [x]"
  by (induction x) auto

lemma split_join: "cs \<noteq> [] \<Longrightarrow> \<forall>c \<in> set cs. slash \<notin> set c \<Longrightarrow> split_slash (join_slash cs) = cs"
  by (induction cs rule: join_slash.induct) (auto simp: split_slash_Cons_elem split_slash_elem)

lemma join_split: "join_slash (split_slash s) = s"
proof (induction s)
  case (Cons c s)
  obtain x xs where "split_slash s = x # xs"
    using split_slash_ne by (cases "split_slash s") auto
  with Cons show ?case by (cases xs) auto
qed simp

lemma clean_elems_ok:
  assumes "\<forall>c \<in> set cs. slash \<notin> set c" "\<forall>c \<in> set acc. elem_ok c"
  shows "\<forall>c \<in> set (clean_elems True acc cs). elem_ok c"
  using assms
proof (induction cs arbitrary: acc)
  case (Cons c cs)
  have "\<exists>acc'. clean_elems True acc (c # cs) = clean_elems True acc' cs \<and> (\<forall>d \<in> set acc'. elem_ok d)"
  proof (cases "c = ''..''")
    case True
    then show ?thesis
      using Cons.prems(2) by (cases acc) (auto simp: elem_ok_def)
  next
    case False
    then have "c = '''' \<or> c = ''.'' \<or> elem_ok c"
      using Cons.prems(1) by (auto simp: elem_ok_def)
    then show ?thesis
      using Cons.prems(2) False
      by (intro exI [where x = "if c = '''' \<or> c = ''.'' then acc else c # acc"]) auto
  qed
  then show ?case using Cons.IH Cons.prems(1) by fastforce
qed simp

lemma clean_elems_id:
  "\<forall>c \<in> set cs. elem_ok c \<Longrightarrow> clean_elems rooted acc cs = rev acc @ cs"
  by (induction cs arbitrary: acc) (auto simp: elem_ok_def)

lemma clean_elems_Nil_elem: "clean_elems rooted acc ([] # cs) = clean_elems rooted acc cs"
  by simp

lemma split_slash_abs [simp]: "split_slash (slash # s) = [] # split_slash s"
  by simp

lemma path_Clean_abs: "path_Clean (slash # s) = abs_path (clean_elems True [] (split_slash s))"
  by (simp add: path_Clean_def path_IsAbs_def abs_path_def Let_def)

lemma elems_ok: "c \<in> set (elems p) \<Longrightarrow> elem_ok c"
  using clean_elems_ok [of "split_slash (ReplaceBackslash p)" "[]"] split_slash_no_slash
  unfolding elems_def by (metis empty_iff list.set(1))

text \<open>Every cleaned path is the canonical path of its elements.\<close>

lemma cleanPath_abs_path: "cleanPath p = abs_path (elems p)"
proof (cases "HasPrefix (ReplaceBackslash p) ''/''")
  case True
  then obtain s where "ReplaceBackslash p = slash # s"
    by (auto simp: HasPrefix_def prefix_def)
  then show ?thesis
    by (simp add: cleanPath_def elems_def path_Clean_abs HasPrefix_def)
next
  case False
  then show ?thesis
    by (simp add: cleanPath_def elems_def path_Clean_abs)
qed

lemma join_slash_eq_Nil: "\<forall>c \<in> set cs. elem_ok c \<Longrightarrow> join_slash cs = [] \<longleftrightarrow> cs = []"
  by (induction cs rule: join_slash.induct) (auto simp: elem_ok_def)

lemma split_join_ok: "cs \<noteq> [] \<Longrightarrow> \<forall>c \<in> set cs. elem_ok c \<Longrightarrow> split_slash (join_slash cs) = cs"
  by (rule split_join) (auto simp: elem_ok_def)

lemma join_slash_inj:
  assumes "\<forall>c \<in> set cs. elem_ok c" "\<forall>c \<in> set ds. elem_ok c" "join_slash cs = join_slash ds"
  shows "cs = ds"
  using assms split_join_ok join_slash_eq_Nil by (metis)

lemma abs_path_inj:
  "\<forall>c \<in> set cs. elem_ok c \<Longrightarrow> \<forall>c \<in> set ds. elem_ok c \<Longrightarrow> abs_path cs = abs_path ds \<longleftrightarrow> cs = ds"
  using join_slash_inj by (auto simp: abs_path_def)

lemma set_join_slash: "set (join_slash cs) \<subseteq> insert slash (\<Union> (set ` set cs))"
  by (induction cs rule: join_slash.induct) auto

lemma clean_elems_subset: "set (clean_elems rooted acc cs) \<subseteq> set acc \<union> set cs \<union> {''..''}"
  by (induction rooted acc cs rule: clean_elems.induct) (auto split: list.splits if_splits)

lemma split_slash_chars: "x \<in> set (split_slash s) \<Longrightarrow> set x \<subseteq> set s"
proof (induction s arbitrary: x)
  case (Cons c s)
  obtain y ys where ys: "split_slash s = y # ys"
    using split_slash_ne by (cases "split_slash s") auto
  have "set y \<subseteq> set s" "\<And>z. z \<in> set ys \<Longrightarrow> set z \<subseteq> set s"
    using Cons.IH ys by simp_all
  with Cons.prems ys show ?case by (auto split: if_splits)
qed simp

lemma ReplaceBackslash_id: "backslash \<notin> set s \<Longrightarrow> ReplaceBackslash s = s"
  unfolding ReplaceBackslash_def by (rule map_idI) auto

lemma elems_no_backslash:
  assumes "c \<in> set (elems p)" shows "backslash \<notin> set c"
proof -
  have "c \<in> set (split_slash (ReplaceBackslash p)) \<or> c = ''..''"
    using assms clean_elems_subset unfolding elems_def by fastforce
  moreover have "backslash \<notin> set (ReplaceBackslash p)"
    by (auto simp: ReplaceBackslash_def)
  ultimately show ?thesis using split_slash_chars by auto
qed

lemma abs_path_no_backslash: "backslash \<notin> set (abs_path (elems p))"
  using set_join_slash [of "elems p"] elems_no_backslash [of _ p] by (auto simp: abs_path_def)

lemma elems_abs_path:
  assumes "\<forall>c \<in> set cs. elem_ok c" "backslash \<notin> set (abs_path cs)"
  shows "elems (abs_path cs) = cs"
proof (cases "cs = []")
  case True
  then show ?thesis by (simp add: elems_def abs_path_def ReplaceBackslash_def)
next
  case False
  then show ?thesis
    using assms
    by (simp add: elems_def ReplaceBackslash_id)
       (simp add: abs_path_def split_join_ok clean_elems_id)
qed

lemma elems_cleanPath [simp]: "elems (cleanPath p) = elems p"
  by (simp add: cleanPath_abs_path elems_abs_path elems_ok abs_path_no_backslash)

lemma cleanPath_eq_iff: "cleanPath p = cleanPath q \<longleftrightarrow> elems p = elems q"
  by (simp add: cleanPath_abs_path abs_path_inj elems_ok)

lemma cleanPath_root_iff: "cleanPath p = ''/'' \<longleftrightarrow> elems p = []"
  by (simp add: cleanPath_abs_path abs_path_def join_slash_eq_Nil elems_ok)

lemma elems_root [simp]: "elems ''/'' = []"
  by (simp add: elems_def ReplaceBackslash_def)

lemma cleanPath_idem [simp]: "cleanPath (cleanPath p) = cleanPath p"
  by (simp add: cleanPath_eq_iff)

lemma TrimPrefix_abs_path [simp]: "TrimPrefix (abs_path cs) ''/'' = join_slash cs"
  by (simp add: TrimPrefix_def abs_path_def)

section \<open>Keys\<close>

lemma join_slash_append:
  "xs \<noteq> [] \<Longrightarrow> ys \<noteq> [] \<Longrightarrow> join_slash (xs @ ys) = join_slash xs @ slash # join_slash ys"
proof (induction xs rule: join_slash.induct)
  case (2 x)
  then show ?case by (cases ys) auto
qed auto

lemma split_slash_append: "split_slash (s @ slash # t) = split_slash s @ split_slash t"
proof (induction s)
  case (Cons c s)
  obtain x xs where "split_slash s = x # xs"
    using split_slash_ne by (cases "split_slash s") auto
  with Cons show ?case by simp
qed simp

lemma key_eq [path_simps]:
  "key pre p = join_slash ((if pre = '''' then [] else [pre]) @ elems p)"
proof -
  have "join_slash (elems p) = '''' \<longleftrightarrow> elems p = []"
    by (simp add: join_slash_eq_Nil elems_ok)
  then show ?thesis
    by (cases "elems p") (auto simp: key_def cleanPath_abs_path Let_def)
qed

lemma prefix_join_iff:
  assumes ok: "\<forall>c \<in> set cs. elem_ok c" "\<forall>c \<in> set ds. elem_ok c" and ne: "cs \<noteq> []"
  shows "prefix (join_slash cs @ [slash]) (join_slash ds) \<longleftrightarrow> strict_prefix cs ds"
proof
  assume "prefix (join_slash cs @ [slash]) (join_slash ds)"
  then obtain t where t: "join_slash ds = join_slash cs @ slash # t"
    by (auto simp: prefix_def)
  then have "ds \<noteq> []" by auto
  then have "ds = cs @ split_slash t"
    using t ok ne by (metis split_join_ok split_slash_append)
  then show "strict_prefix cs ds"
    using split_slash_ne [of t] by (auto simp: strict_prefix_def)
next
  assume "strict_prefix cs ds"
  then obtain es where "ds = cs @ es" "es \<noteq> []"
    by (auto simp: strict_prefix_def prefix_def)
  then show "prefix (join_slash cs @ [slash]) (join_slash ds)"
    using ne by (simp add: join_slash_append prefix_def)
qed

lemma key_eq_prefixed:
  "pre \<noteq> '''' \<Longrightarrow> key pre p = (if elems p = [] then pre else pre @ slash # join_slash (elems p))"
  by (cases "elems p") (auto simp: key_eq)

lemma listPrefix_eq [path_simps]:
  "listPrefix pre p = (if pre = '''' \<and> elems p = [] then '''' else key pre p @ ''/'')"
  by (cases "pre = ''''") (auto simp: listPrefix_def key_eq_prefixed, auto simp: key_eq join_slash_eq_Nil elems_ok)

lemma listPrefix_key_iff:
  assumes q: "elems q \<noteq> []"
  shows "prefix (listPrefix pre p) (key pre q) \<longleftrightarrow> strict_prefix (elems p) (elems q)"
proof (cases "elems p = []")
  case True
  then show ?thesis
    using q by (cases "pre = ''''") (simp_all add: listPrefix_eq key_eq_prefixed strict_prefix_def)
next
  case False
  then have "prefix (join_slash (elems p) @ [slash]) (join_slash (elems q))
               \<longleftrightarrow> strict_prefix (elems p) (elems q)"
    by (intro prefix_join_iff) (auto simp: elems_ok)
  then show ?thesis
    using False q by (cases "pre = ''''") (simp_all add: listPrefix_eq key_eq_prefixed, simp add: key_eq)
qed

lemma key_inj_iff: "key pre p = key pre q \<longleftrightarrow> elems p = elems q"
proof -
  have inj: "join_slash (elems p) = join_slash (elems q) \<longleftrightarrow> elems p = elems q"
    by (metis elems_ok join_slash_inj)
  show ?thesis
    by (cases "pre = ''''") (auto simp: key_eq_prefixed inj, auto simp: key_eq inj)
qed

lemma key_cleanPath [simp]: "key pre (cleanPath p) = key pre p"
  by (simp add: key_eq)

lemma listPrefix_cleanPath [simp]: "listPrefix pre (cleanPath p) = listPrefix pre p"
  by (simp add: listPrefix_eq)

section \<open>Properties\<close>

text \<open>
  C31: \<^verbatim>\<open>cleanPath\<close> always yields a canonical absolute path: the root, or non-empty elements
  none of which is \<^verbatim>\<open>.\<close> or \<^verbatim>\<open>..\<close> or holds a slash, separated by single slashes and
  without backslashes; and cleaning is idempotent.
\<close>

theorem cleanPath_canonical:
  "\<exists>cs. cleanPath p = abs_path cs \<and> list_all elem_ok cs \<and>
        backslash \<notin> set (cleanPath p) \<and> cleanPath (cleanPath p) = cleanPath p"
  using elems_ok abs_path_no_backslash [of p]
  by (intro exI [where x = "elems p"]) (simp add: list_all_iff cleanPath_abs_path [symmetric])

text \<open>
  C29: two paths share an object key only if they clean to the same path, whatever the
  configured prefix.
\<close>

theorem key_injective: "key pre p = key pre q \<longleftrightarrow> cleanPath p = cleanPath q"
  by (simp add: key_inj_iff cleanPath_eq_iff)

text \<open>
  No path, whatever \<^verbatim>\<open>..\<close> elements or backslashes it has, maps to a key outside the
  prefix: the key is the prefix followed by well-formed elements only.
\<close>

lemma key_confined:
  "\<exists>cs. list_all elem_ok cs \<and> key pre p = join_slash ((if pre = '''' then [] else [pre]) @ cs)"
  using elems_ok by (intro exI [where x = "elems p"]) (simp add: list_all_iff key_eq)

text \<open>
  C30: a key other than the root's lies under \<^verbatim>\<open>listPrefix(p)\<close> exactly when its path is a
  proper descendant of \<^verbatim>\<open>p\<close>; in particular a sibling whose name only starts like \<^verbatim>\<open>p\<close>
  is never listed with the children of \<^verbatim>\<open>p\<close>.
\<close>

theorem listPrefix_descendants:
  "(cleanPath q \<noteq> ''/'' \<and> prefix (listPrefix pre p) (key pre q)) \<longleftrightarrow> strict_prefix (elems p) (elems q)"
  using listPrefix_key_iff [of q pre p] by (cases "elems q = []") (auto simp: cleanPath_root_iff)

end
