(* ===== verification/Codec.thy ===== *)
theory Codec
  imports Paths
begin

text \<open>
  The textual encodings the filesystem keeps in object metadata and request headers:
  URL escaping (symlink targets, copy sources), hexadecimal digests, octal permission bits, and the
  case-insensitive metadata lookup \<^verbatim>\<open>metaValue\<close> of \<^verbatim>\<open>s3ops.go\<close>. The functions of
  \<^verbatim>\<open>net/url\<close>, \<^verbatim>\<open>encoding/hex\<close>, \<^verbatim>\<open>strconv\<close>, \<^verbatim>\<open>fmt\<close> and \<^verbatim>\<open>strings\<close> are modelled on byte strings;
  the lemmas are their round trips.
\<close>

section \<open>URL escaping\<close>

abbreviation code :: "char \<Rightarrow> nat" where "code c \<equiv> of_char c"

definition hexdigit :: "nat \<Rightarrow> char" where
  "hexdigit n = char_of (if n < 10 then 48 + n else 55 + n)"

definition unhex :: "char \<Rightarrow> nat option" where
  "unhex c =
     (let n = code c
      in if 48 \<le> n \<and> n \<le> 57 then Some (n - 48)
         else if 97 \<le> n \<and> n \<le> 102 then Some (n - 87)
         else if 65 \<le> n \<and> n \<le> 70 then Some (n - 55)
         else None)"

definition alnum :: "char \<Rightarrow> bool" where
  "alnum c \<longleftrightarrow>
     (let n = code c in (48 \<le> n \<and> n \<le> 57) \<or> (65 \<le> n \<and> n \<le> 90) \<or> (97 \<le> n \<and> n \<le> 122))"

definition unreserved :: "char \<Rightarrow> bool" where
  "unreserved c \<longleftrightarrow> alnum c \<or> c \<in> set ''-_.~''"

definition percent :: "char \<Rightarrow> string" where
  "percent c = [CHR ''%'', hexdigit (code c div 16), hexdigit (code c mod 16)]"

text \<open>\<^verbatim>\<open>url.QueryEscape\<close> and \<^verbatim>\<open>url.PathEscape\<close>.\<close>

definition QueryEscape :: "string \<Rightarrow> string" where
  "QueryEscape s =
     concat (map (\<lambda>c. if c = CHR '' '' then ''+'' else if unreserved c then [c] else percent c) s)"

definition PathEscape :: "string \<Rightarrow> string" where
  "PathEscape s =
     concat (map (\<lambda>c. if unreserved c \<or> c \<in> set ''$&+=:@'' then [c] else percent c) s)"

text \<open>
  \<^verbatim>\<open>url.QueryUnescape\<close> (\<open>q\<close> true, a plus sign is a space) and \<^verbatim>\<open>url.PathUnescape\<close>;
  \<open>None\<close> is the error of a malformed escape.
\<close>

fun unescape :: "bool \<Rightarrow> string \<Rightarrow> string option" where
  "unescape q [] = Some []"
| "unescape q (c # s) =
     (if c = CHR ''%'' then
        (case s of
           a # b # r \<Rightarrow>
             (case (unhex a, unhex b) of
                (Some x, Some y) \<Rightarrow> map_option (Cons (char_of (16 * x + y))) (unescape q r)
              | _ \<Rightarrow> None)
         | _ \<Rightarrow> None)
      else map_option (Cons (if q \<and> c = CHR ''+'' then CHR '' '' else c)) (unescape q s))"

definition QueryUnescape :: "string \<Rightarrow> string option" where
  "QueryUnescape s = unescape True s"

definition PathUnescape :: "string \<Rightarrow> string option" where
  "PathUnescape s = unescape False s"

section \<open>Hexadecimal digits of bytes\<close>

text \<open>\<^verbatim>\<open>hex.EncodeToString\<close> and \<^verbatim>\<open>hex.DecodeString\<close>.\<close>

definition hexlower :: "nat \<Rightarrow> char" where
  "hexlower n = char_of (if n < 10 then 48 + n else 87 + n)"

definition hexEncode :: "bytes \<Rightarrow> string" where
  "hexEncode d = concat (map (\<lambda>b. [hexlower (unat b div 16), hexlower (unat b mod 16)]) d)"

fun hexDecode :: "string \<Rightarrow> bytes option" where
  "hexDecode [] = Some []"
| "hexDecode [c] = None"
| "hexDecode (a # b # r) =
     (case (unhex a, unhex b) of
        (Some x, Some y) \<Rightarrow> map_option (Cons (of_nat (16 * x + y))) (hexDecode r)
      | _ \<Rightarrow> None)"

section \<open>Octal permission bits\<close>

text \<open>\<^verbatim>\<open>fmt.Sprintf("%o", n)\<close> and \<^verbatim>\<open>strconv.ParseUint(s, 8, 32)\<close>.\<close>

fun octal :: "nat \<Rightarrow> string" where
  "octal n = (if n < 8 then [char_of (48 + n)] else octal (n div 8) @ [char_of (48 + n mod 8)])"

declare octal.simps [simp del]

definition octdigit :: "char \<Rightarrow> nat option" where
  "octdigit c = (if 48 \<le> code c \<and> code c \<le> 55 then Some (code c - 48) else None)"

fun parse_oct :: "nat \<Rightarrow> string \<Rightarrow> nat option" where
  "parse_oct acc [] = Some acc"
| "parse_oct acc (c # s) = (case octdigit c of None \<Rightarrow> None | Some d \<Rightarrow> parse_oct (8 * acc + d) s)"

definition ParseUintOct :: "string \<Rightarrow> nat option" where
  "ParseUintOct s =
     (if s = '''' then None
      else case parse_oct 0 s of
             None \<Rightarrow> None
           | Some n \<Rightarrow> if n < 2 ^ 32 then Some n else None)"

section \<open>Metadata lookup\<close>

definition lower :: "char \<Rightarrow> char" where
  "lower c = (if 65 \<le> code c \<and> code c \<le> 90 then char_of (code c + 32) else c)"

text \<open>
  \<^verbatim>\<open>strings.EqualFold(s, t)\<close> where \<open>t\<close> is ASCII, as in every call of the package: simple
  case folding, under which U+017F (bytes C5 BF) equals \<^verbatim>\<open>s\<close> and U+212A (bytes E2 84
  AA) equals \<^verbatim>\<open>k\<close>.
\<close>

fun EqualFold :: "string \<Rightarrow> string \<Rightarrow> bool" where
  "EqualFold s [] = (s = [])"
| "EqualFold s (b # t) =
     (case s of
        [] \<Rightarrow> False
      | a # s1 \<Rightarrow>
          if code a < 128 then lower a = lower b \<and> EqualFold s1 t
          else if take 2 s = [CHR 0xC5, CHR 0xBF] then lower b = CHR ''s'' \<and> EqualFold (drop 2 s) t
          else if take 3 s = [CHR 0xE2, CHR 0x84, CHR 0xAA] then lower b = CHR ''k'' \<and> EqualFold (drop 3 s) t
          else False)"

definition metaValue :: "strmap \<Rightarrow> string \<Rightarrow> string option" where
  "metaValue meta k =
     (case map_of meta k of
        Some v \<Rightarrow> Some v
      | None \<Rightarrow> first_some (\<lambda>p. if EqualFold (fst p) k then Some (snd p) else None) meta)"

section \<open>Round trips\<close>

lemma code_less: "code c < 256"
  by (rule nat_of_char_less_256)

lemma unhex_hexdigit [simp]: "n < 16 \<Longrightarrow> unhex (hexdigit n) = Some n"
  by (auto simp: unhex_def hexdigit_def Let_def)

lemma unescape_percent [simp]: "unescape q (percent c @ s) = map_option (Cons c) (unescape q s)"
proof -
  have "code c div 16 < 16" "code c mod 16 < 16"
    using code_less [of c] by (auto simp: less_mult_imp_div_less)
  then show ?thesis by (simp add: percent_def)
qed

lemma unescape_plain:
  "c \<noteq> CHR ''%'' \<Longrightarrow> \<not> q \<or> c \<noteq> CHR ''+'' \<Longrightarrow> unescape q (c # s) = map_option (Cons c) (unescape q s)"
  by auto

lemma unreserved_plain: "unreserved c \<Longrightarrow> c \<noteq> CHR ''%'' \<and> c \<noteq> CHR ''+''"
  by (auto simp: unreserved_def alnum_def Let_def)

lemma QueryUnescape_Escape: "QueryUnescape (QueryEscape s) = Some s"
  unfolding QueryUnescape_def QueryEscape_def
  by (induction s) (auto simp: unescape_plain dest: unreserved_plain simp del: unescape.simps(2),
      simp_all)

lemma PathUnescape_Escape: "PathUnescape (PathEscape s) = Some s"
  unfolding PathUnescape_def PathEscape_def
  by (induction s) (auto simp: dest: unreserved_plain)

lemma unhex_hexlower [simp]: "n < 16 \<Longrightarrow> unhex (hexlower n) = Some n"
  by (auto simp: unhex_def hexlower_def Let_def)

lemma nibbles: "unat b div 16 < 16" "unat b mod 16 < 16" for b :: byte
proof -
  have "unat b < 2 ^ LENGTH(8)" by (rule unsigned_less)
  then show "unat b div 16 < 16" "unat b mod 16 < 16" by (auto simp: less_mult_imp_div_less)
qed

lemma hexDecode_Encode: "hexDecode (hexEncode d) = Some d"
  unfolding hexEncode_def by (induction d) (simp_all add: nibbles)

lemma octdigit_char_of [simp]: "d < 8 \<Longrightarrow> octdigit (char_of (48 + d)) = Some d"
  by (simp add: octdigit_def)

lemma parse_oct_append:
  "parse_oct acc (s @ t) = (case parse_oct acc s of None \<Rightarrow> None | Some n \<Rightarrow> parse_oct n t)"
  by (induction s arbitrary: acc) (auto split: option.split)

lemma parse_oct_octal: "parse_oct 0 (octal n) = Some n"
proof (induction n rule: octal.induct)
  case (1 n)
  show ?case
  proof (cases "n < 8")
    case True
    then show ?thesis by (simp add: octal.simps [of n])
  next
    case False
    then have "parse_oct 0 (octal n) = parse_oct (n div 8) [char_of (48 + n mod 8)]"
      using 1 by (simp add: octal.simps [of n] parse_oct_append)
    then show ?thesis by simp
  qed
qed

lemma octal_ne [simp]: "octal n \<noteq> []"
  by (subst octal.simps) simp

lemma ParseUintOct_octal: "n < 2 ^ 32 \<Longrightarrow> ParseUintOct (octal n) = Some n"
  by (simp add: ParseUintOct_def parse_oct_octal)

end
