(* ===== verification/Store.thy ===== *)
theory Store
  imports Codec "HOL-Library.Char_ord" "HOL-Library.List_Lexorder" "HOL-Library.AList"
begin

text \<open>
  The object store as the filesystem sees it. \<^verbatim>\<open>Client\<close> of \<^verbatim>\<open>s3fs.go\<close> is an
  interface onto the AWS SDK and the service behind it, neither of which is part of this
  repository: it is a record of request functions over an unknown world \<open>'w\<close>, which the
  definitions of the other theories take as an argument. The world also has the wall clock, so
  time may pass in any request. The locale \<open>s3_store\<close> states the documented behaviour of
  S3 that the filesystem relies on; \<open>fake_client\<close> is an executable store that satisfies it,
  for the witnesses.
\<close>

section \<open>Requests and responses\<close>

record HeadObjectOutput =
  ContentLength :: "int option"
  ETag :: "string option"
  LastModified :: "instant option"
  Metadata :: strmap

text \<open>
  A response body is a stream: the chunks successive reads find ready, how it ends
  (\<open>None\<close> is a clean \<^verbatim>\<open>io.EOF\<close>), and whether the end is reported together with the last
  bytes or by a read of its own, as \<^verbatim>\<open>io.Reader\<close> leaves open; and what closing it returns.
\<close>

record body =
  chunks :: "bytes list"
  fin :: "goerr option"
  eager :: bool
  close_err :: "goerr option"

record GetObjectOutput = HeadObjectOutput +
  Body :: body

record PutObjectInput =
  put_Bucket :: string
  put_Key :: string
  put_Body :: bytes
  put_ContentLength :: "int option"
  put_Metadata :: strmap
  put_IfNoneMatch :: "string option"
  put_IfMatch :: "string option"

record ListObjectsV2Input =
  list_Bucket :: string
  list_Prefix :: string
  list_Delimiter :: "string option"
  list_MaxKeys :: "int option"
  list_ContinuationToken :: "string option"

record s3_Object =
  obj_Key :: "string option"
  obj_Size :: "int option"
  obj_LastModified :: "instant option"

record ListObjectsV2Output =
  Contents :: "s3_Object list"
  CommonPrefixes :: "string list"
  IsTruncated :: "bool option"
  NextContinuationToken :: "string option"

text \<open>The byte range of a ranged \<^verbatim>\<open>GetObject\<close>: first byte and, if given, last byte.\<close>

type_synonym byte_range = "int \<times> int option"

record 'w Client =
  HeadObject :: "string \<Rightarrow> string \<Rightarrow> 'w \<Rightarrow> (goerr + HeadObjectOutput) \<times> 'w"
  GetObject :: "string \<Rightarrow> string \<Rightarrow> byte_range option \<Rightarrow> 'w \<Rightarrow> (goerr + GetObjectOutput) \<times> 'w"
  PutObject :: "PutObjectInput \<Rightarrow> 'w \<Rightarrow> (goerr + string option) \<times> 'w"
  DeleteObject :: "string \<Rightarrow> string \<Rightarrow> 'w \<Rightarrow> goerr option \<times> 'w"
  CopyObject :: "string \<Rightarrow> string \<Rightarrow> string \<Rightarrow> 'w \<Rightarrow> goerr option \<times> 'w"
  ListObjectsV2 :: "ListObjectsV2Input \<Rightarrow> 'w \<Rightarrow> (goerr + ListObjectsV2Output) \<times> 'w"
  time_Now :: "'w \<Rightarrow> instant"

text \<open>\<^verbatim>\<open>aws.ToString\<close>, \<^verbatim>\<open>aws.ToInt64\<close>, \<^verbatim>\<open>aws.ToBool\<close> and \<^verbatim>\<open>aws.ToTime\<close> read nil as the zero value.\<close>

definition ToString :: "string option \<Rightarrow> string" where
  "ToString x = (case x of None \<Rightarrow> '''' | Some s \<Rightarrow> s)"

definition ToInt64 :: "int option \<Rightarrow> int" where
  "ToInt64 x = (case x of None \<Rightarrow> 0 | Some n \<Rightarrow> n)"

definition ToBool :: "bool option \<Rightarrow> bool" where
  "ToBool x = (case x of None \<Rightarrow> False | Some b \<Rightarrow> b)"

definition ToTime :: "instant option \<Rightarrow> instant" where
  "ToTime x = (case x of None \<Rightarrow> 0 | Some t \<Rightarrow> t)"

lemma To_simps [simp]:
  "ToString None = ''''" "ToString (Some s) = s" "ToInt64 None = 0" "ToInt64 (Some n) = n"
  "ToBool None = False" "ToBool (Some b) = b" "ToTime None = 0" "ToTime (Some t) = t"
  by (simp_all add: ToString_def ToInt64_def ToBool_def ToTime_def)

text \<open>One \<^verbatim>\<open>Read\<close> into a buffer of \<open>n\<close> bytes.\<close>

definition body_end :: "body \<Rightarrow> goerr" where
  "body_end b = (case fin b of None \<Rightarrow> EOF | Some e \<Rightarrow> e)"

definition body_Read :: "nat \<Rightarrow> body \<Rightarrow> (bytes \<times> goerr option) \<times> body" where
  "body_Read n b =
     (case chunks b of
        [] \<Rightarrow> (([], Some (body_end b)), b)
      | c # cs \<Rightarrow>
          if length c \<le> n
          then ((c, if cs = [] \<and> eager b then Some (body_end b) else None), b\<lparr>chunks := cs\<rparr>)
          else ((take n c, None), b\<lparr>chunks := drop n c # cs\<rparr>))"

text \<open>\<^verbatim>\<open>io.ReadAll\<close> on a response body.\<close>

definition ReadAll :: "body \<Rightarrow> goerr + bytes" where
  "ReadAll b = (if body_end b = EOF then Inr (concat (chunks b)) else Inl (body_end b))"

section \<open>Objects\<close>

record obj =
  odata :: bytes
  ometa :: strmap
  oetag :: string

type_synonym objects = "string \<rightharpoonup> obj"

text \<open>
  What a metadata response says of an object: its size, its metadata up to the case of the
  keys, and an entity tag that determines the content.
\<close>

definition meta_sim :: "strmap \<Rightarrow> strmap \<Rightarrow> bool" where
  "meta_sim m m' \<longleftrightarrow> (\<forall>k. list_all (\<lambda>c. lower c = c \<and> code c < 128) k \<longrightarrow> metaValue m k = metaValue m' k)"

definition head_agrees :: "(string \<Rightarrow> bytes) \<Rightarrow> obj \<Rightarrow> ('a) HeadObjectOutput_scheme \<Rightarrow> bool" where
  "head_agrees content obj h \<longleftrightarrow>
     ContentLength h = Some (int (length (odata obj))) \<and>
     meta_sim (Metadata h) (ometa obj) \<and>
     (ToString (ETag h) \<noteq> '''' \<longrightarrow> content (ToString (ETag h)) = odata obj)"

text \<open>What a response body delivers: some of the bytes, and all of them if it ends cleanly.\<close>

definition delivers :: "body \<Rightarrow> bytes \<Rightarrow> bool" where
  "delivers bd d \<longleftrightarrow> prefix (concat (chunks bd)) d \<and> (body_end bd = EOF \<longrightarrow> concat (chunks bd) = d)"

text \<open>The keys of a store under a prefix.\<close>

definition keys_under :: "objects \<Rightarrow> string \<Rightarrow> string set" where
  "keys_under m pre = {k \<in> dom m. prefix pre k}"

section \<open>What the filesystem relies on\<close>

text \<open>
  \<open>objs w\<close> is the content of the bucket in world \<open>w\<close>; \<open>content t\<close> is the content
  that entity tag \<open>t\<close> stands for. A request may fail at any time; a failed write may or
  may not have taken effect on its own key, and leaves every other key alone. Listing goes
  through the keys under a prefix in order: \<open>rest m pre tok\<close> are the keys still to come
  at continuation token \<open>tok\<close>, and \<open>pages\<close> bounds the pages still to come; a page may be
  empty, but a truncated one has more keys to come. No other client writes to the bucket.
\<close>

locale s3_store =
  fixes cl :: "'w Client"
    and objs :: "'w \<Rightarrow> objects"
    and content :: "string \<Rightarrow> bytes"
    and rest :: "objects \<Rightarrow> string \<Rightarrow> string option \<Rightarrow> string list"
    and pages :: "objects \<Rightarrow> string \<Rightarrow> string option \<Rightarrow> nat"
  assumes HeadObject_objs: "HeadObject cl b k w = (rh, w') \<Longrightarrow> objs w' = objs w"
    and HeadObject_ok: "HeadObject cl b k w = (Inr h, w') \<Longrightarrow>
          \<exists>obj. objs w k = Some obj \<and> head_agrees content obj h"
    and HeadObject_missing: "HeadObject cl b k w = (Inl e, w') \<Longrightarrow> isNotFound e \<Longrightarrow> objs w k = None"
    and GetObject_objs: "GetObject cl b k rg w = (rb, w') \<Longrightarrow> objs w' = objs w"
    and GetObject_ok: "GetObject cl b k None w = (Inr g, w') \<Longrightarrow>
          \<exists>obj. objs w k = Some obj \<and> head_agrees content obj g \<and> delivers (Body g) (odata obj)"
    and GetObject_range: "GetObject cl b k (Some (off, lim)) w = (Inr g, w') \<Longrightarrow> 0 \<le> off \<Longrightarrow>
          \<exists>obj. objs w k = Some obj \<and> delivers (Body g)
                (case lim of None \<Rightarrow> drop (nat off) (odata obj)
                 | Some l \<Rightarrow> take (nat (l + 1 - off)) (drop (nat off) (odata obj)))"
    and GetObject_error: "GetObject cl b k rg w = (Inl e, w') \<Longrightarrow> e \<noteq> EOF"
    and GetObject_missing: "GetObject cl b k rg w = (Inl e, w') \<Longrightarrow> isNotFound e \<Longrightarrow> objs w k = None"
    and PutObject_ok: "PutObject cl i w = (Inr t, w') \<Longrightarrow>
          put_ContentLength i \<in> {None, Some (int (length (put_Body i)))} \<Longrightarrow>
          \<exists>obj. objs w' = (objs w)(put_Key i \<mapsto> obj) \<and> odata obj = put_Body i \<and>
                meta_sim (ometa obj) (put_Metadata i) \<and>
                (ToString t \<noteq> '''' \<longrightarrow> content (ToString t) = odata obj)"
    and PutObject_error: "PutObject cl i w = (Inl e, w') \<Longrightarrow> k \<noteq> put_Key i \<Longrightarrow> objs w' k = objs w k"
    and DeleteObject_ok: "DeleteObject cl b k w = (None, w') \<Longrightarrow> objs w' = (objs w)(k := None)"
    and DeleteObject_error: "DeleteObject cl b k w = (Some e, w') \<Longrightarrow> k' \<noteq> k \<Longrightarrow> objs w' k' = objs w k'"
    and CopyObject_ok: "CopyObject cl b dst src w = (None, w') \<Longrightarrow>
          PathUnescape src = Some (b @ ''/'' @ k) \<Longrightarrow>
          \<exists>obj obj'. objs w k = Some obj \<and> objs w' = (objs w)(dst \<mapsto> obj') \<and>
                     odata obj' = odata obj \<and> ometa obj' = ometa obj"
    and CopyObject_error: "CopyObject cl b dst src w = (Some e, w') \<Longrightarrow> k \<noteq> dst \<Longrightarrow> objs w' k = objs w k"
    and ListObjectsV2_objs: "ListObjectsV2 cl li w = (rl, w') \<Longrightarrow> objs w' = objs w"
    and ListObjectsV2_page: "ListObjectsV2 cl li w = (Inr out, w') \<Longrightarrow> list_Delimiter li = None \<Longrightarrow>
          rest (objs w) (list_Prefix li) (list_ContinuationToken li) =
            map (\<lambda>x. ToString (obj_Key x)) (Contents out) @
              (if ToBool (IsTruncated out)
               then rest (objs w) (list_Prefix li) (NextContinuationToken out) else [])"
    and ListObjectsV2_more: "ListObjectsV2 cl li w = (Inr out, w') \<Longrightarrow> list_Delimiter li = None \<Longrightarrow>
          ToBool (IsTruncated out) \<Longrightarrow>
            rest (objs w) (list_Prefix li) (NextContinuationToken out) \<noteq> [] \<and>
            pages (objs w) (list_Prefix li) (NextContinuationToken out)
              < pages (objs w) (list_Prefix li) (list_ContinuationToken li)"
    and rest_start: "set (rest (objs w) pre None) = keys_under (objs w) pre"
    and rest_distinct: "distinct (rest (objs w) pre None)"

section \<open>An executable store\<close>

text \<open>
  A bucket as an association list, each object tagged with a tag that spells its content. It
  answers every request, lists in one page, and honours the conditional writes of
  \<^verbatim>\<open>PutObject\<close>. It is the concrete client of the witnesses and shows that the laws of
  \<open>s3_store\<close> can hold together.
\<close>

record fake =
  bucket_objs :: "(string \<times> obj) list"
  fake_clock :: instant

definition tag_of :: "bytes \<Rightarrow> string" where
  "tag_of d = CHR 0x22 # map (\<lambda>b. char_of (unat b)) d"

definition tag_content :: "string \<Rightarrow> bytes" where
  "tag_content t = map (\<lambda>c. of_nat (code c)) (tl t)"

definition head_of :: "fake \<Rightarrow> obj \<Rightarrow> HeadObjectOutput" where
  "head_of w o1 = \<lparr>ContentLength = Some (int (length (odata o1))), ETag = Some (tag_of (odata o1)),
                   LastModified = Some (fake_clock w), Metadata = ometa o1\<rparr>"

definition fake_put :: "string \<Rightarrow> obj \<Rightarrow> fake \<Rightarrow> fake" where
  "fake_put k o1 w = w\<lparr>bucket_objs := AList.update k o1 (bucket_objs w)\<rparr>"

definition slice :: "byte_range option \<Rightarrow> bytes \<Rightarrow> bytes" where
  "slice rg d =
     (case rg of
        None \<Rightarrow> d
      | Some (off, None) \<Rightarrow> drop (nat off) d
      | Some (off, Some l) \<Rightarrow> take (nat (l + 1 - off)) (drop (nat off) d))"

definition fake_keys :: "string \<Rightarrow> fake \<Rightarrow> string list" where
  "fake_keys pre w = sort (remdups (filter (prefix pre) (map fst (bucket_objs w))))"

text \<open>
  A listing with the delimiter \<^verbatim>\<open>/\<close> groups the keys that have another slash after the prefix.
\<close>

definition beyond_slash :: "string \<Rightarrow> string \<Rightarrow> bool" where
  "beyond_slash pre k \<longleftrightarrow> CHR ''/'' \<in> set (drop (length pre) k)"

definition group_of :: "string \<Rightarrow> string \<Rightarrow> string" where
  "group_of pre k = pre @ takeWhile (\<lambda>c. c \<noteq> CHR ''/'') (drop (length pre) k) @ ''/''"

definition fake_list :: "ListObjectsV2Input \<Rightarrow> fake \<Rightarrow> ListObjectsV2Output" where
  "fake_list i w =
     (let ks = fake_keys (list_Prefix i) w; grouped = (list_Delimiter i \<noteq> None)
      in \<lparr>Contents = map (\<lambda>k. \<lparr>obj_Key = Some k,
                         obj_Size = map_option (\<lambda>o1. int (length (odata o1))) (map_of (bucket_objs w) k), obj_LastModified = None\<rparr>)
            (filter (\<lambda>k. \<not> (grouped \<and> beyond_slash (list_Prefix i) k)) ks),
          CommonPrefixes = remdups (map (group_of (list_Prefix i)) (filter (\<lambda>k. grouped \<and> beyond_slash (list_Prefix i) k) ks)),
          IsTruncated = Some False, NextContinuationToken = None\<rparr>)"

definition precondition_failed :: goerr where
  "precondition_failed = ResponseError 412 (APIError ''PreconditionFailed'')"

definition fake_PutObject :: "PutObjectInput \<Rightarrow> fake \<Rightarrow> (goerr + string option) \<times> fake" where
  "fake_PutObject i w =
     (let cur = map_of (bucket_objs w) (put_Key i);
          o1 = \<lparr>odata = put_Body i, ometa = put_Metadata i, oetag = tag_of (put_Body i)\<rparr>
      in if put_IfNoneMatch i \<noteq> None \<and> cur \<noteq> None then (Inl precondition_failed, w)
         else if put_IfMatch i \<noteq> None \<and> map_option (\<lambda>c. tag_of (odata c)) cur \<noteq> put_IfMatch i then (Inl precondition_failed, w)
         else (Inr (Some (oetag o1)), fake_put (put_Key i) o1 w))"

definition fake_client :: "fake Client" where
  "fake_client = \<lparr>
     HeadObject = (\<lambda>b k w.
       (case map_of (bucket_objs w) k of None \<Rightarrow> Inl NotFound | Some o1 \<Rightarrow> Inr (head_of w o1), w)),
     GetObject = (\<lambda>b k rg w.
       (case map_of (bucket_objs w) k of
          None \<Rightarrow> Inl NoSuchKey
        | Some o1 \<Rightarrow> Inr (HeadObjectOutput.extend (head_of w o1)
             \<lparr>Body = \<lparr>chunks = [slice rg (odata o1)], fin = None, eager = False, close_err = None\<rparr>\<rparr>), w)),
     PutObject = fake_PutObject,
     DeleteObject = (\<lambda>b k w. (None, w\<lparr>bucket_objs := AList.delete k (bucket_objs w)\<rparr>)),
     CopyObject = (\<lambda>b dst src w.
       case PathUnescape src of
         None \<Rightarrow> (Some ErrInvalid, w)
       | Some p \<Rightarrow>
           (case map_of (bucket_objs w) (drop (length b + 1) p) of
              None \<Rightarrow> (Some NoSuchKey, w)
            | Some o1 \<Rightarrow> (None, fake_put dst o1 w))),
     ListObjectsV2 = (\<lambda>i w. (Inr (fake_list i w), w)),
     time_Now = fake_clock\<rparr>"

abbreviation fake_objs :: "fake \<Rightarrow> objects" where
  "fake_objs w \<equiv> map_of (bucket_objs w)"

definition fake_rest :: "objects \<Rightarrow> string \<Rightarrow> string option \<Rightarrow> string list" where
  "fake_rest m pre tok = sorted_list_of_set (keys_under m pre)"

lemma tag_content_of [simp]: "tag_content (tag_of d) = d"
proof -
  have "unat b < 2 ^ LENGTH(8)" for b :: byte by (rule unsigned_less)
  then have "of_nat (code (char_of (unat b))) = (b :: byte)" for b :: byte by simp
  then show ?thesis by (simp add: tag_content_def tag_of_def comp_def)
qed

lemma meta_sim_refl [simp]: "meta_sim m m"
  by (simp add: meta_sim_def)

lemma head_of_agrees: "head_agrees tag_content o1 (head_of w o1)"
  by (simp add: head_agrees_def head_of_def)

lemma keys_under_fake: "keys_under (fake_objs w) pre = set (filter (prefix pre) (map fst (bucket_objs w)))"
  by (auto simp: keys_under_def dom_map_of_conv_image_fst)

lemma fake_keys_eq: "fake_keys pre w = sorted_list_of_set (keys_under (fake_objs w) pre)"
  unfolding fake_keys_def keys_under_fake by (rule sorted_list_of_set_sort_remdups [symmetric])

interpretation fake: s3_store fake_client fake_objs tag_content fake_rest "\<lambda>m pre tok. 0"
proof (unfold_locales, goal_cases)
  case (2 b k w h w')
  then show ?case
    using head_of_agrees by (auto simp: fake_client_def split: option.splits)
qed (auto simp: fake_client_def fake_PutObject_def fake_put_def head_of_def head_agrees_def
       update_conv' delete_conv' slice_def fake_list_def HeadObjectOutput.defs Let_def comp_def
       keys_under_fake fake_keys_eq fake_rest_def delivers_def
     split: option.splits if_splits prod.splits)

end
