(* ===== verification/Info.thy ===== *)
theory Info
  imports Store
begin

text \<open>
  File information: \<^verbatim>\<open>fileInfo\<close> and \<^verbatim>\<open>dirEntry\<close> of \<^verbatim>\<open>info.go\<close>, and what object
  metadata says of a file, its permission bits (\<^verbatim>\<open>modeFromHead\<close>) and its symlink target
  (\<^verbatim>\<open>symlinkTarget\<close> of \<^verbatim>\<open>s3ops.go\<close>).
\<close>

section \<open>Modes\<close>

text \<open>\<^verbatim>\<open>fs.FileMode\<close>: permission bits below 512, \<^verbatim>\<open>ModeDir\<close> bit 31, \<^verbatim>\<open>ModeSymlink\<close> bit 27.\<close>

type_synonym FileMode = nat

definition ModeDir :: FileMode where "ModeDir = 2 ^ 31"
definition ModeSymlink :: FileMode where "ModeSymlink = 2 ^ 27"

definition Perm :: "FileMode \<Rightarrow> FileMode" where "Perm m = m mod 512"
definition IsDir :: "FileMode \<Rightarrow> bool" where "IsDir m = odd (m div 2 ^ 31)"

text \<open>The type bits: directory, symlink, device, named pipe, socket, character device, irregular.\<close>

definition TypeBits :: "FileMode \<Rightarrow> FileMode" where
  "TypeBits m = sum_list (map (\<lambda>b. if odd (m div 2 ^ b) then 2 ^ b else 0) [31, 27, 26, 25, 24, 21, 19])"

definition symlinkMetaKey :: string where "symlinkMetaKey = ''s3fs-symlink-target''"
definition modeMetaKey :: string where "modeMetaKey = ''s3fs-mode''"
definition maxSymlinkDepth :: nat where "maxSymlinkDepth = 40"
definition defaultFileMode :: FileMode where "defaultFileMode = 420"
definition defaultDirMode :: FileMode where "defaultDirMode = 2 ^ 31 + 493"

section \<open>File information\<close>

record fileInfo =
  fi_name :: string
  fi_size :: int
  fi_mode :: FileMode
  fi_modTime :: instant

definition fileInfo_IsDir :: "fileInfo \<Rightarrow> bool" where
  "fileInfo_IsDir fi = IsDir (fi_mode fi)"

record dirEntry =
  de_info :: fileInfo

definition dirEntry_Name :: "dirEntry \<Rightarrow> string" where
  "dirEntry_Name d = fi_name (de_info d)"

definition dirEntry_IsDir :: "dirEntry \<Rightarrow> bool" where
  "dirEntry_IsDir d = fileInfo_IsDir (de_info d)"

definition dirEntry_Type :: "dirEntry \<Rightarrow> FileMode" where
  "dirEntry_Type d = TypeBits (fi_mode (de_info d))"

definition modeFromHead :: "'a HeadObjectOutput_scheme \<Rightarrow> FileMode" where
  "modeFromHead h =
     (case metaValue (Metadata h) modeMetaKey of
        Some v \<Rightarrow>
          (case ParseUintOct v of
             Some parsed \<Rightarrow> Perm parsed
           | None \<Rightarrow> defaultFileMode)
      | None \<Rightarrow> defaultFileMode)"

definition infoFromHeadValue :: "string \<Rightarrow> 'a HeadObjectOutput_scheme \<Rightarrow> fileInfo" where
  "infoFromHeadValue name h =
     \<lparr>fi_name = name, fi_size = ToInt64 (ContentLength h),
      fi_mode = modeFromHead h, fi_modTime = ToTime (LastModified h)\<rparr>"

definition infoFromHead :: "string \<Rightarrow> 'a HeadObjectOutput_scheme \<Rightarrow> fileInfo" where
  "infoFromHead name h = infoFromHeadValue name h"

definition symlinkTarget :: "'a HeadObjectOutput_scheme option \<Rightarrow> string option" where
  "symlinkTarget h =
     (case h of
        None \<Rightarrow> None
      | Some h' \<Rightarrow>
          (case metaValue (Metadata h') symlinkMetaKey of
             None \<Rightarrow> None
           | Some enc \<Rightarrow> QueryUnescape enc))"

definition headFromGet :: "GetObjectOutput \<Rightarrow> HeadObjectOutput" where
  "headFromGet out =
     \<lparr>ContentLength = ContentLength out, ETag = ETag out,
      LastModified = LastModified out, Metadata = Metadata out\<rparr>"

section \<open>Lemmas\<close>

lemma lower_ascii_keys [simp]:
  "list_all (\<lambda>c. lower c = c \<and> code c < 128) symlinkMetaKey"
  "list_all (\<lambda>c. lower c = c \<and> code c < 128) modeMetaKey"
  by (simp_all add: symlinkMetaKey_def modeMetaKey_def lower_def)

lemma meta_sim_simps:
  "meta_sim m m' \<Longrightarrow> metaValue m symlinkMetaKey = metaValue m' symlinkMetaKey"
  "meta_sim m m' \<Longrightarrow> metaValue m modeMetaKey = metaValue m' modeMetaKey"
  by (simp_all add: meta_sim_def)

lemma meta_sim_sym: "meta_sim m m' \<Longrightarrow> meta_sim m' m"
  by (simp add: meta_sim_def)

lemma meta_sim_trans: "meta_sim m m' \<Longrightarrow> meta_sim m' m'' \<Longrightarrow> meta_sim m m''"
  by (simp add: meta_sim_def)

lemma metaValue_exact [simp]: "metaValue [(k, v)] k = Some v"
  by (simp add: metaValue_def)

lemma modeFromHead_octal:
  assumes "metaValue (Metadata h) modeMetaKey = Some (octal (Perm perm))"
  shows "modeFromHead h = Perm perm"
proof -
  have "Perm perm < 2 ^ 32" by (simp add: Perm_def less_trans [OF mod_less_divisor])
  then show ?thesis using assms by (simp add: modeFromHead_def ParseUintOct_octal Perm_def)
qed

lemma modeFromHead_bound: "modeFromHead h < 512"
  by (simp add: modeFromHead_def Perm_def defaultFileMode_def split: option.split)

lemma headFromGet_agrees: "head_agrees c obj g \<Longrightarrow> head_agrees c obj (headFromGet g)"
  by (simp add: head_agrees_def headFromGet_def)

lemma EqualFold_ascii:
  "list_all (\<lambda>c. code c < 128) s \<Longrightarrow> EqualFold s t \<longleftrightarrow> map lower s = map lower t"
proof (induction t arbitrary: s)
  case (Cons b t)
  then show ?case by (cases s) simp_all
qed simp

section \<open>Properties\<close>

text \<open>
  Permission bits survive storage: the mode read back from an object written with the
  octal metadata of \<^verbatim>\<open>flush\<close> is the mode that was written, under whatever casing of the
  metadata key the store returns.
\<close>

lemma mode_roundtrip:
  assumes "map lower k' = modeMetaKey" "list_all (\<lambda>c. code c < 128) k'"
    "Metadata h = [(k', octal (Perm perm))]"
  shows "modeFromHead h = Perm perm"
proof -
  have "map lower modeMetaKey = modeMetaKey" by (simp add: modeMetaKey_def lower_def)
  then have "EqualFold k' modeMetaKey" using assms by (simp add: EqualFold_ascii)
  then have "metaValue (Metadata h) modeMetaKey = Some (octal (Perm perm))"
    using assms by (simp add: metaValue_def)
  then show ?thesis by (rule modeFromHead_octal)
qed

end
