(* ===== verification/Mem.thy ===== *)
theory Mem
  imports LRU Info
begin

text \<open>
  The in-memory cache tier of \<^verbatim>\<open>mem.go\<close>: cached heads, negative lookups, directory
  existence and small bodies, over the LRU index. Coherence with the object store is an
  invariant of its entries (\<open>mem_coh\<close>); the lemmas show that every bookkeeping operation
  keeps it under the store change it records, which is what makes the cache write-through.
\<close>

section \<open>The cache\<close>

record memEntry =
  me_exists :: bool
  me_head :: "HeadObjectOutput option"
  me_data :: "bytes option"

record 'c memCache =
  mc_maxBytes :: int
  mc_idx :: "'c lruIndex"

type_synonym 'c mem_gc = "('c, memEntry lruEntry) lru_Cache"

definition newMemCache :: "'c mem_gc \<Rightarrow> int \<Rightarrow> int \<Rightarrow> 'c memCache" where
  "newMemCache gc maxBytes0 ttl0 =
     \<lparr>mc_maxBytes = maxBytes0, mc_idx = newLRUIndex gc maxBytes0 ttl0\<rparr>"

text \<open>Go's \<^verbatim>\<open>/\<close> truncates towards zero.\<close>

definition maxDataBytes :: "'c memCache \<Rightarrow> int" where
  "maxDataBytes c = sgn (mc_maxBytes c) * (\<bar>mc_maxBytes c\<bar> div 8)"

definition mem_lookup ::
    "'c mem_gc \<Rightarrow> instant \<Rightarrow> string \<Rightarrow> 'c memCache \<Rightarrow> memEntry option \<times> 'c memCache" where
  "mem_lookup gc now k c =
     (case lruIndex_get gc now k (mc_idx c) of (r, _, x) \<Rightarrow> (r, c\<lparr>mc_idx := x\<rparr>))"

definition data_len :: "bytes option \<Rightarrow> int" where
  "data_len d = (case d of None \<Rightarrow> 0 | Some b \<Rightarrow> int (length b))"

definition storeLocked ::
    "'c mem_gc \<Rightarrow> instant \<Rightarrow> string \<Rightarrow> memEntry \<Rightarrow> 'c memCache \<Rightarrow> 'c memCache" where
  "storeLocked gc now k e c =
     (case lruIndex_put gc now k e (entryOverhead + int (length k) + data_len (me_data e)) (mc_idx c) of
        (_, x) \<Rightarrow> c\<lparr>mc_idx := x\<rparr>)"

definition fit_data :: "'c memCache \<Rightarrow> bytes option \<Rightarrow> bytes option" where
  "fit_data c data =
     (case data of None \<Rightarrow> None | Some d \<Rightarrow> if int (length d) > maxDataBytes c then None else Some d)"

definition mem_store ::
    "'c mem_gc \<Rightarrow> instant \<Rightarrow> string \<Rightarrow> bool \<Rightarrow> HeadObjectOutput option \<Rightarrow> bytes option
       \<Rightarrow> 'c memCache \<Rightarrow> 'c memCache" where
  "mem_store gc now k exists0 head data c =
     storeLocked gc now k \<lparr>me_exists = exists0, me_head = head, me_data = fit_data c data\<rparr> c"

text \<open>The prefixes \<^verbatim>\<open>key[:i+1]\<close> for every \<^verbatim>\<open>i\<close> with \<^verbatim>\<open>key[i] == '/'\<close>, in order.\<close>

definition dirPrefixes :: "string \<Rightarrow> string list" where
  "dirPrefixes k = map (\<lambda>i. take (Suc i) k) (filter (\<lambda>i. k ! i = slash) [0..<length k])"

definition markDir :: "'c mem_gc \<Rightarrow> instant \<Rightarrow> string \<Rightarrow> 'c memCache \<Rightarrow> 'c memCache" where
  "markDir gc now p c =
     (case mem_lookup gc now p c of
        (r, c1) \<Rightarrow>
          if (case r of Some e \<Rightarrow> me_exists e | None \<Rightarrow> False) then c1
          else storeLocked gc now p \<lparr>me_exists = True, me_head = None, me_data = None\<rparr> c1)"

definition markDirsLocked :: "'c mem_gc \<Rightarrow> instant \<Rightarrow> string \<Rightarrow> 'c memCache \<Rightarrow> 'c memCache" where
  "markDirsLocked gc now k c = fold (markDir gc now) (dirPrefixes k) c"

definition mem_storeWrite ::
    "'c mem_gc \<Rightarrow> instant \<Rightarrow> string \<Rightarrow> int \<Rightarrow> string \<Rightarrow> bytes option \<Rightarrow> strmap
       \<Rightarrow> 'c memCache \<Rightarrow> 'c memCache" where
  "mem_storeWrite gc now k size0 etag data meta c =
     (let head = \<lparr>ContentLength = Some size0, ETag = (if etag \<noteq> '''' then Some etag else None),
                  LastModified = Some now, Metadata = meta\<rparr>;
          c1 = storeLocked gc now k
                 \<lparr>me_exists = True, me_head = Some head, me_data = fit_data c data\<rparr> c
      in markDirsLocked gc now k c1)"

definition mem_delete :: "'c mem_gc \<Rightarrow> string \<Rightarrow> 'c memCache \<Rightarrow> 'c memCache" where
  "mem_delete gc k c = c\<lparr>mc_idx := snd (lruIndex_delete gc k (mc_idx c))\<rparr>"

definition mem_storeCopied ::
    "'c mem_gc \<Rightarrow> instant \<Rightarrow> string \<Rightarrow> string \<Rightarrow> 'c memCache \<Rightarrow> 'c memCache" where
  "mem_storeCopied gc now srcKey dstKey c =
     (case mem_lookup gc now srcKey c of
        (r, c1) \<Rightarrow>
          let c2 = (case r of
                      Some src \<Rightarrow>
                        if me_exists src \<and> me_head src \<noteq> None
                        then storeLocked gc now dstKey
                               \<lparr>me_exists = True, me_head = me_head src, me_data = me_data src\<rparr> c1
                        else mem_delete gc dstKey c1
                    | None \<Rightarrow> mem_delete gc dstKey c1)
          in markDirsLocked gc now dstKey c2)"

definition mem_dropDeleted :: "'c mem_gc \<Rightarrow> string \<Rightarrow> 'c memCache \<Rightarrow> 'c memCache" where
  "mem_dropDeleted gc k c = fold (mem_delete gc) (dirPrefixes k) (mem_delete gc k c)"

section \<open>Coherence\<close>

text \<open>Directory keys end in a slash.\<close>

definition dir_key :: "string \<Rightarrow> bool" where
  "dir_key k \<longleftrightarrow> k \<noteq> [] \<and> last k = slash"

text \<open>
  An entry is coherent with a store: a cached head describes the stored object and a cached
  body is its content; without a head, an entry under a directory key says whether any key
  lies below it, and any other entry is a negative lookup of a missing object.
\<close>

definition mem_coh :: "(string \<Rightarrow> bytes) \<Rightarrow> objects \<Rightarrow> string \<Rightarrow> memEntry \<Rightarrow> bool" where
  "mem_coh content m k e \<longleftrightarrow>
     (case me_head e of
        Some h \<Rightarrow> me_exists e \<and>
          (\<exists>obj. m k = Some obj \<and> head_agrees content obj h \<and>
                 (case me_data e of None \<Rightarrow> True | Some d \<Rightarrow> d = odata obj))
      | None \<Rightarrow> me_data e = None \<and>
          (if dir_key k then me_exists e = (keys_under m k \<noteq> {})
           else \<not> me_exists e \<and> m k = None))"

definition mem_ok ::
    "('c \<Rightarrow> (string \<times> memEntry lruEntry) list) \<Rightarrow> (string \<Rightarrow> bytes) \<Rightarrow> objects \<Rightarrow> 'c memCache \<Rightarrow> bool" where
  "mem_ok view content m c \<longleftrightarrow>
     lru_inv view (mc_idx c) \<and> (\<forall>k e. (k, e) \<in> lru_entries view (mc_idx c) \<longrightarrow> mem_coh content m k e)"

lemma dirPrefixes_iff: "p \<in> set (dirPrefixes k) \<longleftrightarrow> dir_key p \<and> prefix p k"
proof
  assume "p \<in> set (dirPrefixes k)"
  then obtain i where "i < length k" "k ! i = slash" "p = take (Suc i) k"
    by (auto simp: dirPrefixes_def)
  moreover have "prefix (take (Suc i) k) k" by (rule take_is_prefix)
  ultimately show "dir_key p \<and> prefix p k"
    by (simp add: dir_key_def take_Suc_conv_app_nth)
next
  assume p: "dir_key p \<and> prefix p k"
  then obtain t where k: "k = p @ t" and ne: "p \<noteq> []" by (auto simp: prefix_def dir_key_def)
  let ?i = "length p - 1"
  have "?i < length k" "take (Suc ?i) k = p" using k ne by (cases p; simp)+
  moreover have "k ! ?i = slash"
    using p k ne by (simp add: dir_key_def nth_append last_conv_nth)
  ultimately show "p \<in> set (dirPrefixes k)"
    unfolding dirPrefixes_def set_map set_filter by (intro image_eqI [where x = "?i"]) auto
qed

lemma keys_under_update:
  "keys_under (m(k \<mapsto> obj)) p = (if prefix p k then insert k (keys_under m p) else keys_under m p)"
  by (auto simp: keys_under_def)

lemma keys_under_delete: "\<not> prefix p k \<Longrightarrow> keys_under (m(k := None)) p = keys_under m p"
  by (auto simp: keys_under_def)

lemma mem_coh_mono_data: "mem_coh content m k e \<Longrightarrow> mem_coh content m k (e\<lparr>me_data := None\<rparr>)"
  by (auto simp: mem_coh_def split: option.splits)

text \<open>A write of \<open>k\<close> leaves the entries of other keys coherent, but for negative entries of its directories.\<close>

lemma mem_coh_update:
  assumes "mem_coh content m k' e" "k' \<noteq> k" "me_exists e \<or> k' \<notin> set (dirPrefixes k)"
  shows "mem_coh content (m(k \<mapsto> obj)) k' e"
proof (cases "me_head e")
  case None
  then show ?thesis
    using assms by (auto simp: mem_coh_def keys_under_update dirPrefixes_iff split: if_splits)
next
  case (Some h)
  then show ?thesis using assms by (simp add: mem_coh_def)
qed

lemma mem_coh_delete:
  assumes "mem_coh content m k' e" "k' \<noteq> k" "k' \<notin> set (dirPrefixes k)"
  shows "mem_coh content (m(k := None)) k' e"
  using assms by (auto simp: mem_coh_def keys_under_delete dirPrefixes_iff split: option.splits if_splits)

section \<open>Operations keep coherence\<close>

text \<open>
  While a write of some key is being recorded, the negative entries of its directories are
  stale: \<open>mem_pend\<close> is coherence up to the negative entries of the keys in \<open>pend\<close>.
\<close>

definition mem_pend ::
    "('c \<Rightarrow> (string \<times> memEntry lruEntry) list) \<Rightarrow> (string \<Rightarrow> bytes) \<Rightarrow> objects \<Rightarrow> string set
       \<Rightarrow> 'c memCache \<Rightarrow> bool" where
  "mem_pend view content m pend c \<longleftrightarrow>
     lru_inv view (mc_idx c) \<and>
     (\<forall>k e. (k, e) \<in> lru_entries view (mc_idx c) \<longrightarrow> k \<notin> pend \<or> me_exists e \<longrightarrow> mem_coh content m k e)"

lemma mem_pend_empty: "mem_pend view content m {} c = mem_ok view content m c"
  by (simp add: mem_pend_def mem_ok_def)

lemma entry_cost_nonneg: "0 \<le> entryOverhead + int (length k) + data_len d"
  by (simp add: entryOverhead_def data_len_def split: option.split)

locale mem_cache =
  lru_over_groupcache gc view for gc :: "'c mem_gc" and view +
  fixes content :: "string \<Rightarrow> bytes"
begin

lemma lookup_pend:
  assumes "mem_pend view content m pend c" "mem_lookup gc now k c = (r, c1)"
  shows "mem_pend view content m pend c1"
    and "lru_entries view (mc_idx c1) \<subseteq> lru_entries view (mc_idx c)"
    and "r = Some e \<Longrightarrow> (k, e) \<in> lru_entries view (mc_idx c)"
    and "mc_maxBytes c1 = mc_maxBytes c"
proof -
  obtain ev x where get: "lruIndex_get gc now k (mc_idx c) = (r, ev, x)" and c1: "c1 = c\<lparr>mc_idx := x\<rparr>"
    using assms(2) by (auto simp: mem_lookup_def split: prod.splits)
  have inv: "lru_inv view (mc_idx c)" using assms(1) by (simp add: mem_pend_def)
  show sub: "lru_entries view (mc_idx c1) \<subseteq> lru_entries view (mc_idx c)"
    using idx.get_sub [OF inv get] c1 by simp
  show "mem_pend view content m pend c1"
    using assms(1) sub idx.get_inv [OF inv get] c1 unfolding mem_pend_def by auto
  show "r = Some e \<Longrightarrow> (k, e) \<in> lru_entries view (mc_idx c)"
    using idx.get_hit [OF inv] get by simp
  show "mc_maxBytes c1 = mc_maxBytes c" using c1 by simp
qed

lemma storeLocked_pend:
  assumes c: "lru_inv view (mc_idx c)"
    "\<And>k' e'. (k', e') \<in> lru_entries view (mc_idx c) \<Longrightarrow> k' \<noteq> k \<Longrightarrow> k' \<notin> pend \<or> me_exists e' \<Longrightarrow>
       mem_coh content m k' e'"
    and e: "mem_coh content m k e"
  shows "mem_pend view content m (pend - {k}) (storeLocked gc now k e c)"
proof -
  obtain ev x where put: "lruIndex_put gc now k e
      (entryOverhead + int (length k) + data_len (me_data e)) (mc_idx c) = (ev, x)"
    by (cases "lruIndex_put gc now k e (entryOverhead + int (length k) + data_len (me_data e)) (mc_idx c)")
  have sub: "lru_entries view x \<subseteq> insert (k, e) {en \<in> lru_entries view (mc_idx c). fst en \<noteq> k}"
    by (rule idx.put_sub [OF c(1) entry_cost_nonneg put])
  have "lru_inv view x" by (rule idx.put_inv [OF c(1) entry_cost_nonneg put])
  then show ?thesis
    using put sub c(2) e by (fastforce simp: storeLocked_def mem_pend_def)
qed

lemma markDir_pend:
  assumes c: "mem_pend view content m pend c" and p: "dir_key p" "keys_under m p \<noteq> {}"
  shows "mem_pend view content m (pend - {p}) (markDir gc now p c)"
proof -
  obtain r c1 where look: "mem_lookup gc now p c = (r, c1)" by (cases "mem_lookup gc now p c")
  have c1: "mem_pend view content m pend c1" by (rule lookup_pend(1) [OF c look])
  show ?thesis
  proof (cases "case r of Some e \<Rightarrow> me_exists e | None \<Rightarrow> False")
    case True
    then obtain e where e: "r = Some e" "me_exists e" by (auto split: option.splits)
    have hit: "(p, e) \<in> lru_entries view (mc_idx c)" using lookup_pend(3) [OF c look] e by simp
    have "mem_coh content m p e'" if "(p, e') \<in> lru_entries view (mc_idx c1)" for e'
      using that hit e c lookup_pend(2) [OF c look] idx.entries_fun [of "mc_idx c" p e e']
      by (auto simp: mem_pend_def)
    then show ?thesis
      using True c1 look by (auto simp: markDir_def mem_pend_def)
  next
    case False
    have "mem_coh content m p \<lparr>me_exists = True, me_head = None, me_data = None\<rparr>"
      using p by (simp add: mem_coh_def)
    then have "mem_pend view content m (pend - {p})
        (storeLocked gc now p \<lparr>me_exists = True, me_head = None, me_data = None\<rparr> c1)"
      using c1 by (intro storeLocked_pend) (auto simp: mem_pend_def)
    then show ?thesis using False look by (simp add: markDir_def)
  qed
qed

lemma markDirs_fold:
  assumes "mem_pend view content m pend c" "\<forall>p \<in> set ps. dir_key p \<and> keys_under m p \<noteq> {}"
  shows "mem_pend view content m (pend - set ps) (fold (markDir gc now) ps c)"
  using assms
proof (induction ps arbitrary: pend c)
  case (Cons p ps)
  have "mem_pend view content m (pend - {p}) (markDir gc now p c)"
    using Cons.prems by (intro markDir_pend) auto
  then have "mem_pend view content m (pend - {p} - set ps) (fold (markDir gc now) (p # ps) c)"
    using Cons.IH Cons.prems by simp
  then show ?case by (simp add: set_diff_eq Diff_insert2 [symmetric])
qed simp

lemma markDirs_pend:
  assumes "mem_pend view content m pend c" "m k \<noteq> None"
  shows "mem_pend view content m (pend - set (dirPrefixes k)) (markDirsLocked gc now k c)"
  unfolding markDirsLocked_def
  using assms by (intro markDirs_fold) (auto simp: dirPrefixes_iff keys_under_def)

text \<open>The operations, each under the change of the store it records.\<close>

lemma lookup_ok:
  assumes "mem_ok view content m c" "mem_lookup gc now k c = (r, c1)"
  shows "mem_ok view content m c1" and "r = Some e \<Longrightarrow> mem_coh content m k e"
    and "mc_maxBytes c1 = mc_maxBytes c"
  using assms lookup_pend [of m "{}" c now k r c1] by (auto simp: mem_pend_empty mem_ok_def)

lemma storeLocked_ok:
  assumes "mem_ok view content m c" "mem_coh content m k e"
  shows "mem_ok view content m (storeLocked gc now k e c)"
  using storeLocked_pend [of c k "{}" m e now] assms by (simp add: mem_pend_empty mem_ok_def)

lemma fit_data_coh:
  "mem_coh content m k \<lparr>me_exists = b, me_head = h, me_data = d\<rparr> \<Longrightarrow>
   mem_coh content m k \<lparr>me_exists = b, me_head = h, me_data = fit_data c d\<rparr>"
  by (cases d) (auto simp: fit_data_def dest: mem_coh_mono_data)

lemma store_ok:
  assumes "mem_ok view content m c"
    "mem_coh content m k \<lparr>me_exists = b, me_head = h, me_data = d\<rparr>"
  shows "mem_ok view content m (mem_store gc now k b h d c)"
  unfolding mem_store_def using assms by (intro storeLocked_ok fit_data_coh)

lemma record_write:
  assumes c: "mem_ok view content m c" and e: "mem_coh content (m(k \<mapsto> obj)) k e"
  shows "mem_ok view content (m(k \<mapsto> obj)) (markDirsLocked gc now k (storeLocked gc now k e c))"
proof -
  have "mem_pend view content (m(k \<mapsto> obj)) (set (dirPrefixes k) - {k}) (storeLocked gc now k e c)"
    using c e by (intro storeLocked_pend) (auto simp: mem_ok_def intro: mem_coh_update)
  then have "mem_pend view content (m(k \<mapsto> obj)) (set (dirPrefixes k) - {k} - set (dirPrefixes k))
      (markDirsLocked gc now k (storeLocked gc now k e c))"
    by (rule markDirs_pend) simp
  moreover have "set (dirPrefixes k) - {k} - set (dirPrefixes k) = {}" by auto
  ultimately show ?thesis by (simp add: mem_pend_empty)
qed

lemma storeWrite_ok:
  assumes "mem_ok view content m c" "size0 = int (length (odata obj))" "meta_sim meta (ometa obj)"
    "etag \<noteq> '''' \<Longrightarrow> content etag = odata obj" "d = None \<or> d = Some (odata obj)"
  shows "mem_ok view content (m(k \<mapsto> obj)) (mem_storeWrite gc now k size0 etag d meta c)"
  unfolding mem_storeWrite_def Let_def
  using assms by (intro record_write fit_data_coh) (auto simp: mem_coh_def head_agrees_def)

lemma delete_keep:
  assumes "lru_inv view (mc_idx c)"
  shows "lru_inv view (mc_idx (mem_delete gc k c))"
    and "lru_entries view (mc_idx (mem_delete gc k c)) = {en \<in> lru_entries view (mc_idx c). fst en \<noteq> k}"
  using idx.delete_inv [OF assms surjective_pairing] idx.delete_sub [OF assms surjective_pairing]
  by (simp_all add: mem_delete_def)

lemma delete_fold_keep:
  assumes "lru_inv view (mc_idx c)"
  shows "lru_inv view (mc_idx (fold (mem_delete gc) ks c)) \<and>
    lru_entries view (mc_idx (fold (mem_delete gc) ks c)) =
      {en \<in> lru_entries view (mc_idx c). fst en \<notin> set ks}"
  using assms
proof (induction ks arbitrary: c)
  case (Cons k ks)
  then show ?case using delete_keep [OF Cons.prems, of k] by auto
qed simp

lemma dropDeleted_entries:
  assumes "lru_inv view (mc_idx c)"
  shows "lru_inv view (mc_idx (mem_dropDeleted gc k c)) \<and>
    lru_entries view (mc_idx (mem_dropDeleted gc k c)) =
      {en \<in> lru_entries view (mc_idx c). fst en \<noteq> k \<and> fst en \<notin> set (dirPrefixes k)}"
  using delete_fold_keep [OF delete_keep(1) [OF assms, of k], of "dirPrefixes k"] delete_keep [OF assms, of k]
  by (auto simp: mem_dropDeleted_def)

lemma dropDeleted_ok:
  assumes "mem_ok view content m c"
  shows "mem_ok view content (m(k := None)) (mem_dropDeleted gc k c)"
  using assms dropDeleted_entries [of c k] mem_coh_delete by (auto simp: mem_ok_def)

text \<open>Forgetting entries is coherent with any change of the forgotten keys (a foreign upload).\<close>

lemma dropDeleted_foreign_ok:
  assumes "mem_ok view content m c"
  shows "mem_ok view content (m(k \<mapsto> obj)) (mem_dropDeleted gc k c)"
  using assms dropDeleted_entries [of c k] mem_coh_update by (auto simp: mem_ok_def)

lemma storeCopied_ok:
  assumes c: "mem_ok view content m c" and src: "m src = Some obj"
    and obj': "odata obj' = odata obj" "ometa obj' = ometa obj"
  shows "mem_ok view content (m(dst \<mapsto> obj')) (mem_storeCopied gc now src dst c)"
proof -
  obtain r c1 where look: "mem_lookup gc now src c = (r, c1)" by (cases "mem_lookup gc now src c")
  have c1: "mem_ok view content m c1" by (rule lookup_ok(1) [OF c look])
  have del: "mem_ok view content (m(dst \<mapsto> obj')) (markDirsLocked gc now dst (mem_delete gc dst c1))"
  proof -
    have "mem_pend view content (m(dst \<mapsto> obj')) (set (dirPrefixes dst)) (mem_delete gc dst c1)"
      using c1 delete_keep [of c1 dst] mem_coh_update by (auto simp: mem_pend_def mem_ok_def)
    from markDirs_pend [OF this, of dst now] show ?thesis by (simp add: mem_pend_empty)
  qed
  show ?thesis
  proof (cases "\<exists>e. r = Some e \<and> me_exists e \<and> me_head e \<noteq> None")
    case True
    then obtain e h where e: "r = Some e" "me_exists e" "me_head e = Some h" by auto
    then have "mem_coh content m src e" using lookup_ok(2) [OF c look] by blast
    then have "mem_coh content (m(dst \<mapsto> obj')) dst \<lparr>me_exists = True, me_head = me_head e, me_data = me_data e\<rparr>"
      using e src obj' by (auto simp: mem_coh_def head_agrees_def split: option.splits)
    from record_write [OF c1 this, of now] show ?thesis
      using e look by (simp add: mem_storeCopied_def)
  next
    case False
    then show ?thesis using del look by (auto simp: mem_storeCopied_def split: option.splits)
  qed
qed

lemma newMemCache_ok: "0 \<le> n \<Longrightarrow> mem_ok view content m (newMemCache gc n t)"
  by (simp add: mem_ok_def newMemCache_def newLRUIndex_def lru_inv_def lru_entries_def view_New)

end

interpretation list_mem: mem_cache list_lru "\<lambda>c. c" tag_content
  by unfold_locales

lemma groupcache_memI: "groupcache gc view \<Longrightarrow> mem_cache gc view"
  by (simp add: mem_cache_def lru_over_groupcache_def)

text \<open>An object, and a cache that has just recorded its write into an empty store.\<close>

definition demo_obj :: obj where
  "demo_obj = \<lparr>odata = [49], ometa = [], oetag = ''v1''\<rparr>"

definition demo_mem :: "(string \<times> memEntry lruEntry) list memCache" where
  "demo_mem = mem_storeWrite list_lru 5 ''d/f'' 1 ''v1'' (Some [49]) [] (newMemCache list_lru 10000 0)"

lemma demo_mem_ok: "mem_ok (\<lambda>c. c) tag_content [''d/f'' \<mapsto> demo_obj] demo_mem"
  unfolding demo_mem_def
  by (rule list_mem.storeWrite_ok) (simp_all add: list_mem.newMemCache_ok demo_obj_def tag_content_def)

section \<open>Properties\<close>

text \<open>
  C18: the memory tier is write-through: recording a write, a copy or a delete makes a cache
  coherent with the store before the change coherent with the store after it, negative entries
  and the existence of all enclosing directories included; so does forgetting a key whose
  object was replaced by an upload made elsewhere.
\<close>

theorem mem_cache_write_through:
  assumes "groupcache gc view" "mem_ok view content m c" "m src = Some obj"
    "n = int (length (odata new))" "meta_sim meta (ometa new)"
    "etag \<noteq> '''' \<Longrightarrow> content etag = odata new" "d = None \<or> d = Some (odata new)"
    "odata obj' = odata obj" "ometa obj' = ometa obj"
  shows "mem_ok view content (m(k \<mapsto> new)) (mem_storeWrite gc now k n etag d meta c) \<and>
         mem_ok view content (m(dst \<mapsto> obj')) (mem_storeCopied gc now src dst c) \<and>
         mem_ok view content (m(k := None)) (mem_dropDeleted gc k c) \<and>
         mem_ok view content (m(k \<mapsto> new)) (mem_dropDeleted gc k c)"
proof -
  have mc: "mem_cache gc view" using assms(1) by (rule groupcache_memI)
  show ?thesis
    using mem_cache.storeWrite_ok [OF mc assms(2,4,5) assms(6,7)]
      mem_cache.storeCopied_ok [OF mc assms(2,3,8,9)]
      mem_cache.dropDeleted_ok [OF mc assms(2)] mem_cache.dropDeleted_foreign_ok [OF mc assms(2)]
    by blast
qed

theorem mem_cache_write_through_witness:
  "mem_ok (\<lambda>c. c) tag_content [''d/f'' \<mapsto> demo_obj] demo_mem \<and>
   mem_ok (\<lambda>c. c) tag_content ([''d/f'' \<mapsto> demo_obj](''e/g'' \<mapsto> demo_obj))
     (mem_storeCopied list_lru 6 ''d/f'' ''e/g'' demo_mem) \<and>
   mem_ok (\<lambda>c. c) tag_content ([''d/f'' \<mapsto> demo_obj](''d/f'' := None)) (mem_dropDeleted list_lru ''d/f'' demo_mem)"
  using mem_cache_write_through [OF list_cache.groupcache_axioms demo_mem_ok, of "''d/f''" demo_obj
      1 demo_obj "[]" "''v1''" "None" demo_obj "''d/f''" 6 "''e/g''"] demo_mem_ok
  by (simp add: demo_obj_def tag_content_def)

text \<open>
  What a coherent memory tier answers is true of the store: a cached head gives the
  object's size and metadata and an entity tag for its content, a cached body is the object's
  content, a negative entry means the object is missing, and an entry for a directory key says
  whether any object lies below it. Looking up keeps the cache coherent.
\<close>

lemma mem_lookup_truthful:
  assumes "groupcache gc view" "mem_ok view content m c" "mem_lookup gc now k c = (Some e, c')"
  shows "mem_ok view content m c' \<and>
         (case me_head e of
            Some h \<Rightarrow> me_exists e \<and> (\<exists>obj. m k = Some obj \<and> head_agrees content obj h \<and>
                        me_data e \<in> {None, Some (odata obj)})
          | None \<Rightarrow> me_data e = None \<and>
              (if dir_key k then me_exists e = (\<exists>x. m x \<noteq> None \<and> prefix k x)
               else \<not> me_exists e \<and> m k = None))"
proof -
  have mc: "mem_cache gc view" using assms(1) by (rule groupcache_memI)
  have ok: "mem_ok view content m c'" "mem_coh content m k e"
    using mem_cache.lookup_ok(1,2) [OF mc assms(2,3)] by auto
  have "keys_under m k \<noteq> {} \<longleftrightarrow> (\<exists>x. m x \<noteq> None \<and> prefix k x)" by (auto simp: keys_under_def)
  with ok show ?thesis
    by (cases "me_head e"; cases "me_data e") (simp_all add: mem_coh_def)
qed

end
