(* ===== verification/Os.thy ===== *)
theory Os
  imports Paths
begin

text \<open>
  The part of the \<^verbatim>\<open>os\<close> package the disk tier uses: a directory tree of hard links onto
  inodes, with \<^verbatim>\<open>pread\<close>/\<^verbatim>\<open>pwrite\<close> on open files. An open file is its inode, which
  lives on after the last link to it is removed. Any call may fail: \<open>faults\<close> says, call by
  call, whether the environment lets it succeed (\<open>None\<close>) or makes it fail after
  transferring some number of bytes.
\<close>

type_synonym ino = nat

record osfs =
  dirents :: "string \<rightharpoonup> ino"
  inodes :: "ino \<Rightarrow> bytes"
  next_ino :: ino
  faults :: "nat option list"

definition next_fault :: "osfs \<Rightarrow> nat option \<times> osfs" where
  "next_fault s = (case faults s of [] \<Rightarrow> (None, s) | f # fs \<Rightarrow> (f, s\<lparr>faults := fs\<rparr>))"

section \<open>Bytes of a file\<close>

text \<open>Contents after writing \<open>p\<close> at \<open>off\<close>, zero-filled up to \<open>off\<close>, and after a resize.\<close>

definition overlay :: "bytes \<Rightarrow> nat \<Rightarrow> bytes \<Rightarrow> bytes" where
  "overlay old off p = take off (old @ replicate (off - length old) 0) @ p @ drop (off + length p) old"

definition resize :: "bytes \<Rightarrow> nat \<Rightarrow> bytes" where
  "resize old n = take n old @ replicate (n - length old) 0"

lemma length_overlay [simp]: "length (overlay old off p) = max (length old) (off + length p)"
  by (simp add: overlay_def)

lemma length_resize [simp]: "length (resize old n) = n"
  by (simp add: resize_def)

lemma overlay_append: "overlay old (length old) p = old @ p"
  by (simp add: overlay_def)

lemma overlay_nth:
  "i < max (length old) (off + length p) \<Longrightarrow>
     overlay old off p ! i =
       (if off \<le> i \<and> i < off + length p then p ! (i - off)
        else if i < length old then old ! i else 0)"
  by (auto simp: overlay_def nth_append min_def)

lemma read_overlay: "take (length p) (drop off (overlay old off p)) = p"
  by (simp add: overlay_def)

section \<open>System calls\<close>

text \<open>\<^verbatim>\<open>os.OpenFile(p, O_RDWR|O_CREATE|O_EXCL, 0o600)\<close> and \<^verbatim>\<open>os.Open(p)\<close>.\<close>

definition os_CreateExcl :: "string \<Rightarrow> osfs \<Rightarrow> (goerr + ino) \<times> osfs" where
  "os_CreateExcl p s0 =
     (case next_fault s0 of
        (Some _, s) \<Rightarrow> (Inl OsError, s)
      | (None, s) \<Rightarrow>
          if dirents s p \<noteq> None then (Inl ErrExist, s)
          else (Inr (next_ino s),
                s\<lparr>dirents := (dirents s)(p \<mapsto> next_ino s),
                  inodes := (inodes s)(next_ino s := []), next_ino := next_ino s + 1\<rparr>))"

definition os_Open :: "string \<Rightarrow> osfs \<Rightarrow> (goerr + ino) \<times> osfs" where
  "os_Open p s0 =
     (case next_fault s0 of
        (Some _, s) \<Rightarrow> (Inl OsError, s)
      | (None, s) \<Rightarrow> (case dirents s p of None \<Rightarrow> Inl ErrNotExist | Some i \<Rightarrow> Inr i, s))"

definition os_Remove :: "string \<Rightarrow> osfs \<Rightarrow> goerr option \<times> osfs" where
  "os_Remove p s0 =
     (case next_fault s0 of
        (Some _, s) \<Rightarrow> (Some OsError, s)
      | (None, s) \<Rightarrow>
          if dirents s p = None then (Some ErrNotExist, s)
          else (None, s\<lparr>dirents := (dirents s)(p := None)\<rparr>))"

definition os_Link :: "string \<Rightarrow> string \<Rightarrow> osfs \<Rightarrow> goerr option \<times> osfs" where
  "os_Link a b s0 =
     (case next_fault s0 of
        (Some _, s) \<Rightarrow> (Some OsError, s)
      | (None, s) \<Rightarrow>
          (case dirents s a of
             None \<Rightarrow> (Some ErrNotExist, s)
           | Some i \<Rightarrow>
               if dirents s b \<noteq> None then (Some ErrExist, s)
               else (None, s\<lparr>dirents := (dirents s)(b \<mapsto> i)\<rparr>)))"

text \<open>
  \<^verbatim>\<open>File.ReadAt\<close>: reads until the buffer is full, the end of the file (\<^verbatim>\<open>io.EOF\<close>) or a
  failure; \<^verbatim>\<open>File.WriteAt\<close>: writes until done or failing, and does nothing at all for an
  empty buffer; \<^verbatim>\<open>File.Truncate\<close>.
\<close>

definition os_ReadAt :: "nat \<Rightarrow> int \<Rightarrow> ino \<Rightarrow> osfs \<Rightarrow> (bytes \<times> goerr option) \<times> osfs" where
  "os_ReadAt n off i s0 =
     (if off < 0 then (([], Some ErrInvalid), s0)
      else if n = 0 then (([], None), s0)
      else (case next_fault s0 of
              (Some k, s) \<Rightarrow> ((take (min k (n - 1)) (drop (nat off) (inodes s i)), Some OsError), s)
            | (None, s) \<Rightarrow>
                let d = take n (drop (nat off) (inodes s i))
                in ((d, if length d < n then Some EOF else None), s)))"

definition os_WriteAt :: "bytes \<Rightarrow> int \<Rightarrow> ino \<Rightarrow> osfs \<Rightarrow> (nat \<times> goerr option) \<times> osfs" where
  "os_WriteAt p off i s0 =
     (if off < 0 then ((0, Some ErrInvalid), s0)
      else if p = [] then ((0, None), s0)
      else (case next_fault s0 of
              (Some k, s) \<Rightarrow>
                let q = take (min k (length p - 1)) p
                in ((length q, Some OsError),
                    if q = [] then s
                    else s\<lparr>inodes := (inodes s)(i := overlay (inodes s i) (nat off) q)\<rparr>)
            | (None, s) \<Rightarrow>
                ((length p, None), s\<lparr>inodes := (inodes s)(i := overlay (inodes s i) (nat off) p)\<rparr>)))"

definition os_Truncate :: "int \<Rightarrow> ino \<Rightarrow> osfs \<Rightarrow> goerr option \<times> osfs" where
  "os_Truncate n i s0 =
     (if n < 0 then (Some ErrInvalid, s0)
      else (case next_fault s0 of
              (Some _, s) \<Rightarrow> (Some OsError, s)
            | (None, s) \<Rightarrow> (None, s\<lparr>inodes := (inodes s)(i := resize (inodes s i) (nat n))\<rparr>)))"

text \<open>\<^verbatim>\<open>File.Close\<close> and \<^verbatim>\<open>File.Seek(0, io.SeekStart)\<close>, whose only effect here is that they may fail.\<close>

definition os_Close :: "ino \<Rightarrow> osfs \<Rightarrow> goerr option \<times> osfs" where
  "os_Close i s0 = (case next_fault s0 of (f, s) \<Rightarrow> (map_option (\<lambda>_. OsError) f, s))"

definition os_SeekStart :: "ino \<Rightarrow> osfs \<Rightarrow> goerr option \<times> osfs" where
  "os_SeekStart i s0 = (case next_fault s0 of (f, s) \<Rightarrow> (map_option (\<lambda>_. OsError) f, s))"

section \<open>Frame lemmas\<close>

lemma next_fault_frame:
  "next_fault s0 = (f, s) \<Longrightarrow>
     inodes s = inodes s0 \<and> dirents s = dirents s0 \<and> next_ino s = next_ino s0"
  by (auto simp: next_fault_def split: list.splits)

lemma os_ReadAt_frame:
  "os_ReadAt n off i s0 = (r, s) \<Longrightarrow>
     inodes s = inodes s0 \<and> dirents s = dirents s0 \<and> next_ino s = next_ino s0"
  by (auto simp: os_ReadAt_def Let_def dest: next_fault_frame split: if_splits prod.splits option.splits)

lemma os_WriteAt_frame:
  "os_WriteAt p off i s0 = (r, s) \<Longrightarrow>
     dirents s = dirents s0 \<and> next_ino s = next_ino s0 \<and> (j \<noteq> i \<longrightarrow> inodes s j = inodes s0 j)"
  by (auto simp: os_WriteAt_def Let_def dest: next_fault_frame split: if_splits prod.splits option.splits)

lemma os_Truncate_frame:
  "os_Truncate n i s0 = (r, s) \<Longrightarrow>
     dirents s = dirents s0 \<and> next_ino s = next_ino s0 \<and> (j \<noteq> i \<longrightarrow> inodes s j = inodes s0 j)"
  by (auto simp: os_Truncate_def dest: next_fault_frame split: if_splits prod.splits option.splits)

lemma os_WriteAt_ok:
  "os_WriteAt p off i s0 = ((n, None), s) \<Longrightarrow> 0 \<le> off \<Longrightarrow> p \<noteq> [] \<Longrightarrow>
     n = length p \<and> inodes s i = overlay (inodes s0 i) (nat off) p"
  by (auto simp: os_WriteAt_def Let_def dest: next_fault_frame split: if_splits prod.splits option.splits)

lemma os_Truncate_ok:
  "os_Truncate n i s0 = (None, s) \<Longrightarrow> inodes s i = resize (inodes s0 i) (nat n)"
  by (auto simp: os_Truncate_def dest: next_fault_frame split: if_splits prod.splits option.splits)

lemma os_ReadAt_ok:
  "os_ReadAt n off i s0 = ((d, err), s) \<Longrightarrow> 0 \<le> off \<Longrightarrow> err \<noteq> Some OsError \<Longrightarrow>
     d = take n (drop (nat off) (inodes s0 i)) \<and> err = (if length d < n then Some EOF else None)"
  by (auto simp: os_ReadAt_def Let_def dest: next_fault_frame split: if_splits prod.splits option.splits)

end
