(* ===== verification/WriteBuf.thy ===== *)
theory WriteBuf
  imports Os
begin

text \<open>
  The backing stores of a file open for writing: \<^verbatim>\<open>memBuf\<close> of \<^verbatim>\<open>file_write.go\<close>, with
  its backing array, spare capacity and array recycling (\<^verbatim>\<open>pool.go\<close>), and \<^verbatim>\<open>fileBuf\<close>
  of \<^verbatim>\<open>disk.go\<close>, a spill file. The locale \<open>write_buf\<close> is the Go interface
  \<^verbatim>\<open>writeBuf\<close> with the contract its comments state, over the bytes a buffer stands for;
  both implementations and the dynamic dispatch between them are interpretations.
\<close>

section \<open>Recycled arrays\<close>

text \<open>
  The machine state the buffers share: the local files, the arrays resting in
  \<^verbatim>\<open>dataPool\<close>, and which of them the next \<^verbatim>\<open>Get\<close> hands out (\<^verbatim>\<open>sync.Pool\<close> does not
  say). An array out of range of the pool stands for a new, empty one.
\<close>

record mach =
  mos :: osfs
  dataPool :: "bytes list"
  pool_picks :: "nat list"

definition copyBufSize :: nat where "copyBufSize = 32 * 1024"
definition maxPooledDataBytes :: nat where "maxPooledDataBytes = 4 * 1024 * 1024"
definition defaultSpillLimit :: int where "defaultSpillLimit = 8 * 1024 * 1024"

definition pooledData :: "mach \<Rightarrow> bytes \<times> mach" where
  "pooledData m =
     (case pool_picks m of
        [] \<Rightarrow> ([], m)
      | i # is \<Rightarrow>
          if i < length (dataPool m)
          then (dataPool m ! i,
                m\<lparr>pool_picks := is, dataPool := take i (dataPool m) @ drop (Suc i) (dataPool m)\<rparr>)
          else ([], m\<lparr>pool_picks := is\<rparr>))"

definition recycleData :: "bytes \<Rightarrow> mach \<Rightarrow> mach" where
  "recycleData arr m =
     (if length arr = 0 \<or> length arr > maxPooledDataBytes then m
      else m\<lparr>dataPool := arr # dataPool m\<rparr>)"

section \<open>Memory buffers\<close>

text \<open>A slice: its backing array (whose length is the capacity) and its length.\<close>

record memBuf =
  mb_arr :: bytes
  mb_len :: nat

definition mb_data :: "memBuf \<Rightarrow> bytes" where
  "mb_data b = take (mb_len b) (mb_arr b)"

definition newMemBuf :: "bytes option \<Rightarrow> mach \<Rightarrow> memBuf \<times> mach" where
  "newMemBuf data m =
     (case data of
        None \<Rightarrow> (case pooledData m of (arr, m1) \<Rightarrow> (\<lparr>mb_arr = arr, mb_len = 0\<rparr>, m1))
      | Some d \<Rightarrow> (\<lparr>mb_arr = d, mb_len = length d\<rparr>, m))"

definition memBuf_len :: "memBuf \<Rightarrow> int" where
  "memBuf_len b = int (mb_len b)"

definition memBuf_readAt :: "nat \<Rightarrow> int \<Rightarrow> memBuf \<Rightarrow> bytes \<times> goerr option" where
  "memBuf_readAt n off b =
     (if off \<ge> int (mb_len b) then ([], Some EOF)
      else if off < 0 then ([], Some Panic)
      else let d = take n (drop (nat off) (mb_data b))
           in (d, if length d < n then Some EOF else None))"

definition memBuf_grow :: "int \<Rightarrow> memBuf \<Rightarrow> mach \<Rightarrow> memBuf \<times> mach" where
  "memBuf_grow end0 b m =
     (if end0 \<le> int (mb_len b) then (b, m)
      else if end0 \<le> int (length (mb_arr b)) then
        (\<lparr>mb_arr = take (mb_len b) (mb_arr b) @ replicate (nat end0 - mb_len b) 0
                     @ drop (nat end0) (mb_arr b),
          mb_len = nat end0\<rparr>, m)
      else
        let newCap = max (2 * length (mb_arr b)) (nat end0)
        in (\<lparr>mb_arr = take (mb_len b) (mb_arr b) @ replicate (newCap - mb_len b) 0,
             mb_len = nat end0\<rparr>,
            recycleData (mb_arr b) m))"

definition memBuf_writeAt ::
    "bytes \<Rightarrow> int \<Rightarrow> memBuf \<Rightarrow> mach \<Rightarrow> (nat \<times> goerr option) \<times> memBuf \<times> mach" where
  "memBuf_writeAt p off b m =
     (case memBuf_grow (wrap64 (off + int (length p))) b m of
        (b1, m1) \<Rightarrow>
          if off < 0 \<or> off > int (mb_len b1) then ((0, Some Panic), b1, m1)
          else let n = min (length p) (mb_len b1 - nat off)
               in ((n, None),
                   b1\<lparr>mb_arr := take (nat off) (mb_arr b1) @ take n p @ drop (nat off + n) (mb_arr b1)\<rparr>,
                   m1))"

definition memBuf_truncate :: "int \<Rightarrow> memBuf \<Rightarrow> mach \<Rightarrow> goerr option \<times> memBuf \<times> mach" where
  "memBuf_truncate size0 b m =
     (if size0 \<le> int (mb_len b) then
        (if size0 < 0 then (Some Panic, b, m) else (None, b\<lparr>mb_len := nat size0\<rparr>, m))
      else (None, memBuf_grow size0 b m))"

definition memBuf_bytes :: "memBuf \<Rightarrow> bytes option" where
  "memBuf_bytes b = Some (mb_data b)"

text \<open>\<^verbatim>\<open>append([]byte(nil), b.data...)\<close> is nil for an empty buffer.\<close>

definition memBuf_snapshot :: "memBuf \<Rightarrow> goerr + bytes option" where
  "memBuf_snapshot b = Inr (if mb_data b = [] then None else Some (mb_data b))"

definition memBuf_destroy :: "memBuf \<Rightarrow> mach \<Rightarrow> memBuf \<times> mach" where
  "memBuf_destroy b m = (\<lparr>mb_arr = [], mb_len = 0\<rparr>, recycleData (mb_arr b) m)"

section \<open>Spill files\<close>

record fileBuf =
  fb_f :: ino
  fb_path :: string
  fb_sz :: int

definition fileBuf_len :: "fileBuf \<Rightarrow> int" where
  "fileBuf_len b = fb_sz b"

definition fileBuf_readAt ::
    "nat \<Rightarrow> int \<Rightarrow> fileBuf \<Rightarrow> mach \<Rightarrow> (bytes \<times> goerr option) \<times> mach" where
  "fileBuf_readAt n off b m =
     (if off \<ge> fb_sz b then (([], Some EOF), m)
      else case os_ReadAt n off (fb_f b) (mos m) of (r, s) \<Rightarrow> (r, m\<lparr>mos := s\<rparr>))"

definition fileBuf_writeAt ::
    "bytes \<Rightarrow> int \<Rightarrow> fileBuf \<Rightarrow> mach \<Rightarrow> (nat \<times> goerr option) \<times> fileBuf \<times> mach" where
  "fileBuf_writeAt p off b m =
     (case os_WriteAt p off (fb_f b) (mos m) of
        ((n, err), s) \<Rightarrow>
          let end0 = wrap64 (off + int n)
          in ((n, err), if end0 > fb_sz b then b\<lparr>fb_sz := end0\<rparr> else b, m\<lparr>mos := s\<rparr>))"

definition fileBuf_truncate :: "int \<Rightarrow> fileBuf \<Rightarrow> mach \<Rightarrow> goerr option \<times> fileBuf \<times> mach" where
  "fileBuf_truncate size0 b m =
     (case os_Truncate size0 (fb_f b) (mos m) of
        (Some e, s) \<Rightarrow> (Some e, b, m\<lparr>mos := s\<rparr>)
      | (None, s) \<Rightarrow> (None, b\<lparr>fb_sz := size0\<rparr>, m\<lparr>mos := s\<rparr>))"

definition fileBuf_bytes :: "fileBuf \<Rightarrow> bytes option" where
  "fileBuf_bytes b = None"

definition fileBuf_snapshot :: "fileBuf \<Rightarrow> mach \<Rightarrow> (goerr + bytes option) \<times> mach" where
  "fileBuf_snapshot b m =
     (if fb_sz b = 0 then (Inr None, m)
      else case os_ReadAt (nat (fb_sz b)) 0 (fb_f b) (mos m) of
             ((d, err), s) \<Rightarrow>
               (if err \<noteq> None \<and> err \<noteq> Some EOF then Inl (the err)
                else Inr (Some (d @ replicate (nat (fb_sz b) - length d) 0)), m\<lparr>mos := s\<rparr>))"

definition fileBuf_destroy :: "fileBuf \<Rightarrow> mach \<Rightarrow> mach" where
  "fileBuf_destroy b m = m\<lparr>mos := snd (os_Remove (fb_path b) (mos m))\<rparr>"

section \<open>The interface\<close>

datatype writeBuf = MemBuf memBuf | FileBuf fileBuf

fun buf_len :: "writeBuf \<Rightarrow> int" where
  "buf_len (MemBuf b) = memBuf_len b"
| "buf_len (FileBuf b) = fileBuf_len b"

fun buf_readAt :: "nat \<Rightarrow> int \<Rightarrow> writeBuf \<Rightarrow> mach \<Rightarrow> (bytes \<times> goerr option) \<times> mach" where
  "buf_readAt n off (MemBuf b) m = (memBuf_readAt n off b, m)"
| "buf_readAt n off (FileBuf b) m = fileBuf_readAt n off b m"

fun buf_writeAt :: "bytes \<Rightarrow> int \<Rightarrow> writeBuf \<Rightarrow> mach \<Rightarrow> (nat \<times> goerr option) \<times> writeBuf \<times> mach" where
  "buf_writeAt p off (MemBuf b) m = (case memBuf_writeAt p off b m of (r, b1, m1) \<Rightarrow> (r, MemBuf b1, m1))"
| "buf_writeAt p off (FileBuf b) m = (case fileBuf_writeAt p off b m of (r, b1, m1) \<Rightarrow> (r, FileBuf b1, m1))"

fun buf_truncate :: "int \<Rightarrow> writeBuf \<Rightarrow> mach \<Rightarrow> goerr option \<times> writeBuf \<times> mach" where
  "buf_truncate n (MemBuf b) m = (case memBuf_truncate n b m of (r, b1, m1) \<Rightarrow> (r, MemBuf b1, m1))"
| "buf_truncate n (FileBuf b) m = (case fileBuf_truncate n b m of (r, b1, m1) \<Rightarrow> (r, FileBuf b1, m1))"

fun buf_bytes :: "writeBuf \<Rightarrow> bytes option" where
  "buf_bytes (MemBuf b) = memBuf_bytes b"
| "buf_bytes (FileBuf b) = fileBuf_bytes b"

fun buf_snapshot :: "writeBuf \<Rightarrow> mach \<Rightarrow> (goerr + bytes option) \<times> mach" where
  "buf_snapshot (MemBuf b) m = (memBuf_snapshot b, m)"
| "buf_snapshot (FileBuf b) m = fileBuf_snapshot b m"

fun buf_destroy :: "writeBuf \<Rightarrow> mach \<Rightarrow> mach" where
  "buf_destroy (MemBuf b) m = snd (memBuf_destroy b m)"
| "buf_destroy (FileBuf b) m = fileBuf_destroy b m"

text \<open>
  The bytes a buffer stands for, and when its size field can be trusted: a slice lies within
  its array, and a spill file is as long as its recorded size.
\<close>

fun buf_contents :: "mach \<Rightarrow> writeBuf \<Rightarrow> bytes" where
  "buf_contents m (MemBuf b) = mb_data b"
| "buf_contents m (FileBuf b) = inodes (mos m) (fb_f b)"

fun buf_wf :: "mach \<Rightarrow> writeBuf \<Rightarrow> bool" where
  "buf_wf m (MemBuf b) = (mb_len b \<le> length (mb_arr b))"
| "buf_wf m (FileBuf b) = (fb_sz b = int (length (inodes (mos m) (fb_f b))))"

section \<open>The contract\<close>

text \<open>
  The comments of the Go interface: \<^verbatim>\<open>readAt\<close> reports \<^verbatim>\<open>io.EOF\<close> at or past the end and on
  short reads, \<^verbatim>\<open>writeAt\<close> grows the buffer with zeros when writing past the end,
  \<^verbatim>\<open>snapshot\<close> is an independent copy. \<open>OsError\<close> is a failure of the local disk.
\<close>

locale write_buf =
  fixes len :: "'b \<Rightarrow> int"
    and readAt :: "nat \<Rightarrow> int \<Rightarrow> 'b \<Rightarrow> mach \<Rightarrow> (bytes \<times> goerr option) \<times> mach"
    and writeAt :: "bytes \<Rightarrow> int \<Rightarrow> 'b \<Rightarrow> mach \<Rightarrow> (nat \<times> goerr option) \<times> 'b \<times> mach"
    and truncate :: "int \<Rightarrow> 'b \<Rightarrow> mach \<Rightarrow> goerr option \<times> 'b \<times> mach"
    and snapshot :: "'b \<Rightarrow> mach \<Rightarrow> (goerr + bytes option) \<times> mach"
    and contents :: "mach \<Rightarrow> 'b \<Rightarrow> bytes"
    and wf :: "mach \<Rightarrow> 'b \<Rightarrow> bool"
  assumes len_contents: "wf m b \<Longrightarrow> len b = int (length (contents m b))"
    and readAt_ok: "wf m b \<Longrightarrow> 0 \<le> off \<Longrightarrow> readAt n off b m = ((d, err), m') \<Longrightarrow> err \<noteq> Some OsError \<Longrightarrow>
          d = take n (drop (nat off) (contents m b)) \<and>
          err = (if off \<ge> len b \<or> length d < n then Some EOF else None)"
    and readAt_frame: "readAt n off b m = (rr, m') \<Longrightarrow> contents m' b = contents m b \<and> wf m' b = wf m b"
    and writeAt_ok: "wf m b \<Longrightarrow> 0 \<le> off \<Longrightarrow> int64 (off + int (length p)) \<Longrightarrow> p \<noteq> [] \<or> off \<le> len b \<Longrightarrow>
          writeAt p off b m = ((n, None), b', m') \<Longrightarrow>
          n = length p \<and> wf m' b' \<and> contents m' b' = overlay (contents m b) (nat off) p"
    and writeAt_wf: "wf m b \<Longrightarrow> 0 \<le> off \<Longrightarrow> int64 (off + int (length p)) \<Longrightarrow> off \<le> len b \<Longrightarrow>
          writeAt p off b m = (rw, b', m') \<Longrightarrow> wf m' b'"
    and truncate_ok: "wf m b \<Longrightarrow> 0 \<le> size0 \<Longrightarrow> truncate size0 b m = (None, b', m') \<Longrightarrow>
          wf m' b' \<and> contents m' b' = resize (contents m b) (nat size0)"
    and snapshot_ok: "wf m b \<Longrightarrow> snapshot b m = (Inr ds, m') \<Longrightarrow>
          (case ds of None \<Rightarrow> [] | Some x \<Rightarrow> x) = contents m b"
begin

text \<open>What the users of a buffer rely on: a write is read back, and leaves the rest alone.\<close>

lemma write_then_read:
  assumes "wf m b" "0 \<le> off" "int64 (off + int (length p))" "p \<noteq> []"
    "writeAt p off b m = ((n, None), b', m')" "readAt (length p) off b' m' = ((d, err), m'')"
    "err \<noteq> Some OsError"
  shows "d = p \<and> err = None"
proof -
  have w: "wf m' b'" "contents m' b' = overlay (contents m b) (nat off) p"
    using writeAt_ok [OF assms(1-3) _ assms(5)] assms(4) by auto
  have "d = take (length p) (drop (nat off) (contents m' b'))"
       "err = (if off \<ge> len b' \<or> length d < length p then Some EOF else None)"
    using readAt_ok [OF w(1) assms(2) assms(6,7)] by auto
  moreover have "off < len b'"
    using len_contents [OF w(1)] w(2) assms(2,4) by (auto simp: max_def)
  ultimately show ?thesis using w(2) by (simp add: read_overlay)
qed

lemma write_elsewhere:
  assumes "wf m b" "0 \<le> off" "int64 (off + int (length p))" "p \<noteq> []"
    "writeAt p off b m = ((n, None), b', m')"
    "i < length (contents m b)" "i < nat off \<or> nat off + length p \<le> i"
  shows "contents m' b' ! i = contents m b ! i"
  using writeAt_ok [OF assms(1-3) _ assms(5)] assms(4,6,7) by (auto simp: overlay_nth)

lemma append_write:
  assumes "wf m b" "int64 (len b + int (length p))" "writeAt p (len b) b m = ((n, None), b', m')"
  shows "wf m' b' \<and> contents m' b' = contents m b @ p \<and> len b' = len b + int (length p)"
proof -
  have "0 \<le> len b" using len_contents [OF assms(1)] by simp
  then have "wf m' b' \<and> contents m' b' = overlay (contents m b) (nat (len b)) p"
    using writeAt_ok [OF assms(1) _ assms(2) _ assms(3)] by auto
  then show ?thesis
    using len_contents [OF assms(1)] len_contents [of m' b'] by (simp add: overlay_append)
qed

end

section \<open>Memory buffers meet the contract\<close>

lemma grow_spec:
  assumes wf: "mb_len b \<le> length (mb_arr b)" and grow: "memBuf_grow end0 b m = (b', m')"
  shows "mb_len b' \<le> length (mb_arr b') \<and> mb_len b' = max (mb_len b) (nat end0) \<and>
         mb_data b' = mb_data b @ replicate (nat end0 - mb_len b) 0"
  using assms by (auto simp: memBuf_grow_def mb_data_def Let_def max_def split: if_splits)

lemma memBuf_writeAt_spec:
  assumes wf: "mb_len b \<le> length (mb_arr b)" and off: "0 \<le> off" and i64: "int64 (off + int (length p))"
  shows "\<exists>b' m'. memBuf_writeAt p off b m = ((length p, None), b', m') \<and>
           mb_len b' \<le> length (mb_arr b') \<and> mb_data b' = overlay (mb_data b) (nat off) p"
proof -
  obtain b1 m1 where grow: "memBuf_grow (off + int (length p)) b m = (b1, m1)"
    by (cases "memBuf_grow (off + int (length p)) b m")
  let ?o = "nat off"
  have end0: "nat (off + int (length p)) = ?o + length p" using off by simp
  have b1: "mb_len b1 \<le> length (mb_arr b1)" "mb_len b1 = max (mb_len b) (?o + length p)"
      "mb_data b1 = mb_data b @ replicate (?o + length p - mb_len b) 0"
    using grow_spec [OF wf grow] unfolding end0 by auto
  let ?b' = "b1\<lparr>mb_arr := take ?o (mb_arr b1) @ p @ drop (?o + length p) (mb_arr b1)\<rparr>"
  have le: "?o + length p \<le> mb_len b1" using b1(2) by simp
  have "memBuf_writeAt p off b m = ((length p, None), ?b', m1)"
  proof -
    have "\<not> off > int (mb_len b1)" "min (length p) (mb_len b1 - ?o) = length p" using le off by auto
    then show ?thesis using grow off i64 by (simp add: memBuf_writeAt_def Let_def)
  qed
  moreover have "mb_len ?b' \<le> length (mb_arr ?b')" using b1(1) le by simp
  moreover have "mb_data ?b' = take ?o (mb_data b1) @ p @ drop (?o + length p) (mb_data b1)"
  proof -
    have "min (length (mb_arr b1)) ?o = ?o" "min (mb_len b1) ?o = ?o" "min ?o (mb_len b1) = ?o"
      "length p \<le> mb_len b1 - ?o" "mb_len b1 - ?o - length p + (?o + length p) = mb_len b1"
      using le b1(1) by auto
    then show ?thesis by (simp add: mb_data_def take_drop)
  qed
  moreover have "\<dots> = overlay (mb_data b) ?o p"
    using wf unfolding b1(3) overlay_def by (simp add: mb_data_def min_def)
  ultimately show ?thesis by simp
qed

lemma memBuf_truncate_spec:
  assumes "mb_len b \<le> length (mb_arr b)" "0 \<le> size0"
  shows "\<exists>b' m'. memBuf_truncate size0 b m = (None, b', m') \<and>
           mb_len b' \<le> length (mb_arr b') \<and> mb_data b' = resize (mb_data b) (nat size0)"
proof (cases "size0 \<le> int (mb_len b)")
  case True
  then have "nat size0 \<le> mb_len b" using assms(2) by simp
  with True show ?thesis
    using assms by (simp add: memBuf_truncate_def mb_data_def resize_def min_def)
next
  case False
  obtain b1 m1 where grow: "memBuf_grow size0 b m = (b1, m1)"
    by (cases "memBuf_grow size0 b m")
  show ?thesis
    using grow_spec [OF assms(1) grow] False grow assms
    by (auto simp: memBuf_truncate_def resize_def mb_data_def)
qed

interpretation mem_buf: write_buf
  memBuf_len "\<lambda>n off b m. (memBuf_readAt n off b, m)" memBuf_writeAt memBuf_truncate
  "\<lambda>b m. (memBuf_snapshot b, m)" "\<lambda>m. mb_data" "\<lambda>m b. mb_len b \<le> length (mb_arr b)"
proof (unfold_locales, goal_cases)
  case (4 m b off p n b' m')
  then show ?case using memBuf_writeAt_spec [of b off p m] by auto
next
  case (5 m b off p rw b' m')
  then show ?case using memBuf_writeAt_spec [of b off p m] by auto
next
  case (6 m b size0 b' m')
  then show ?case using memBuf_truncate_spec [of b size0 m] by auto
qed (auto simp: memBuf_len_def mb_data_def memBuf_readAt_def memBuf_snapshot_def Let_def
     split: if_splits)

section \<open>Spill files meet the contract\<close>

lemma fileBuf_writeAt_spec:
  assumes wf: "fb_sz b = int (length (inodes (mos m) (fb_f b)))" and off: "0 \<le> off"
    and i64: "int64 (off + int (length p))" and grows: "p \<noteq> [] \<or> off \<le> fb_sz b"
    and w: "fileBuf_writeAt p off b m = ((n, None), b', m')"
  shows "n = length p \<and> fb_f b' = fb_f b \<and> fb_sz b' = int (length (inodes (mos m') (fb_f b'))) \<and>
         inodes (mos m') (fb_f b') = overlay (inodes (mos m) (fb_f b)) (nat off) p"
proof (cases "p = []")
  case True
  then have "b' = b" "m' = m" "n = 0"
    using w off i64 grows by (auto simp: fileBuf_writeAt_def os_WriteAt_def)
  moreover have "overlay d (nat off) [] = d" if "nat off \<le> length d" for d :: bytes
    using that by (simp add: overlay_def)
  ultimately show ?thesis using True wf grows off by simp
next
  case False
  obtain s where s: "os_WriteAt p off (fb_f b) (mos m) = ((n, None), s)" and m': "m' = m\<lparr>mos := s\<rparr>"
    and b': "b' = (if wrap64 (off + int n) > fb_sz b then b\<lparr>fb_sz := wrap64 (off + int n)\<rparr> else b)"
    using w by (auto simp: fileBuf_writeAt_def Let_def split: prod.splits)
  have "n = length p" "inodes s (fb_f b) = overlay (inodes (mos m) (fb_f b)) (nat off) p"
    using os_WriteAt_ok [OF s off False] by auto
  with b' m' wf off i64 show ?thesis by (auto simp: max_def)
qed

lemma fileBuf_writeAt_keeps_wf:
  assumes wf: "fb_sz b = int (length (inodes (mos m) (fb_f b)))" and off: "0 \<le> off" "off \<le> fb_sz b"
    and i64: "int64 (off + int (length p))"
    and w: "fileBuf_writeAt p off b m = (r, b', m')"
  shows "fb_sz b' = int (length (inodes (mos m') (fb_f b')))"
proof -
  obtain n err s where s: "os_WriteAt p off (fb_f b) (mos m) = ((n, err), s)" and m': "m' = m\<lparr>mos := s\<rparr>"
    and b': "b' = (if wrap64 (off + int n) > fb_sz b then b\<lparr>fb_sz := wrap64 (off + int n)\<rparr> else b)"
    using w by (auto simp: fileBuf_writeAt_def Let_def split: prod.splits)
  have n: "n \<le> length p"
    using s off by (auto simp: os_WriteAt_def Let_def split: if_splits prod.splits option.splits)
  then have "int64 (off + int n)" using i64 off by (simp add: int64_def)
  moreover have "length (inodes s (fb_f b)) = max (length (inodes (mos m) (fb_f b))) (nat off + n)"
    using s off wf n
    by (auto simp: os_WriteAt_def Let_def dest: next_fault_frame
             split: if_splits prod.splits option.splits)
  ultimately show ?thesis using b' m' wf off by (auto simp: max_def)
qed

lemma fileBuf_readAt_frame:
  "fileBuf_readAt n off b m = (r, m') \<Longrightarrow>
     inodes (mos m') = inodes (mos m) \<and> dirents (mos m') = dirents (mos m)"
  by (auto simp: fileBuf_readAt_def dest: os_ReadAt_frame split: if_splits prod.splits)

interpretation file_buf: write_buf
  fileBuf_len fileBuf_readAt fileBuf_writeAt fileBuf_truncate fileBuf_snapshot
  "\<lambda>m b. inodes (mos m) (fb_f b)" "\<lambda>m b. fb_sz b = int (length (inodes (mos m) (fb_f b)))"
proof (unfold_locales, goal_cases)
  case (2 m b off n d err m')
  then show ?case
    using os_ReadAt_ok [of n off "fb_f b" "mos m" d err]
    by (auto simp: fileBuf_readAt_def fileBuf_len_def split: if_splits prod.splits)
next
  case (3 n off b m r m')
  then show ?case using fileBuf_readAt_frame by simp
next
  case (4 m b off p n b' m')
  then show ?case using fileBuf_writeAt_spec [of b m off p n b' m'] by (auto simp: fileBuf_len_def)
next
  case (5 m b off p rw b' m')
  then show ?case using fileBuf_writeAt_keeps_wf [of b m off p rw b' m'] by (simp add: fileBuf_len_def)
next
  case (6 m b size0 b' m')
  then show ?case
    using os_Truncate_ok [of size0 "fb_f b" "mos m"]
    by (auto simp: fileBuf_truncate_def split: prod.splits option.splits)
next
  case (7 m b ds m')
  let ?d = "inodes (mos m) (fb_f b)"
  obtain r s where r: "os_ReadAt (length ?d) 0 (fb_f b) (mos m) = (r, s)"
    by (cases "os_ReadAt (length ?d) 0 (fb_f b) (mos m)")
  show ?case
    using 7 r os_ReadAt_ok [of "length ?d" 0 "fb_f b" "mos m" "fst r" "snd r" s]
    by (auto simp: fileBuf_snapshot_def split: if_splits prod.splits)
qed (simp_all add: fileBuf_len_def)

text \<open>Dynamic dispatch keeps the contract.\<close>

lemma buf_writeAt_dispatch:
  "buf_writeAt p off b m = (r, b', m') \<longleftrightarrow>
     (\<exists>x x'. b = MemBuf x \<and> b' = MemBuf x' \<and> memBuf_writeAt p off x m = (r, x', m')) \<or>
     (\<exists>x x'. b = FileBuf x \<and> b' = FileBuf x' \<and> fileBuf_writeAt p off x m = (r, x', m'))"
  by (cases b) (auto split: prod.splits)

lemma buf_truncate_dispatch:
  "buf_truncate n b m = (r, b', m') \<longleftrightarrow>
     (\<exists>x x'. b = MemBuf x \<and> b' = MemBuf x' \<and> memBuf_truncate n x m = (r, x', m')) \<or>
     (\<exists>x x'. b = FileBuf x \<and> b' = FileBuf x' \<and> fileBuf_truncate n x m = (r, x', m'))"
  by (cases b) (auto split: prod.splits)

interpretation any_buf: write_buf
  buf_len buf_readAt buf_writeAt buf_truncate buf_snapshot buf_contents buf_wf
proof (unfold_locales, goal_cases)
  case (1 m b)
  then show ?case by (cases b) (simp_all add: memBuf_len_def mb_data_def fileBuf_len_def)
next
  case (2 m b off n d err m')
  show ?case
  proof (cases b)
    case (MemBuf x)
    with 2 mem_buf.readAt_ok [of x off n m d err m'] show ?thesis by simp
  next
    case (FileBuf x)
    with 2 file_buf.readAt_ok [of x m off n d err m'] show ?thesis by simp
  qed
next
  case (3 n off b m r m')
  show ?case
  proof (cases b)
    case (FileBuf x)
    with 3 file_buf.readAt_frame [of n off x m r m'] show ?thesis by simp
  qed (use 3 in auto)
next
  case (4 m b off p n b' m')
  show ?case
  proof (cases b)
    case (MemBuf x)
    then obtain x' where x': "b' = MemBuf x'" "memBuf_writeAt p off x m = ((n, None), x', m')"
      using 4(5) unfolding buf_writeAt_dispatch by auto
    show ?thesis using mem_buf.writeAt_ok [OF _ 4(2,3) _ x'(2)] 4(1,4) MemBuf x'(1) by simp
  next
    case (FileBuf x)
    then obtain x' where x': "b' = FileBuf x'" "fileBuf_writeAt p off x m = ((n, None), x', m')"
      using 4(5) unfolding buf_writeAt_dispatch by auto
    show ?thesis using file_buf.writeAt_ok [OF _ 4(2,3) _ x'(2)] 4(1,4) FileBuf x'(1) by simp
  qed
next
  case (5 m b off p rw b' m')
  show ?case
  proof (cases b)
    case (MemBuf x)
    then obtain x' where x': "b' = MemBuf x'" "memBuf_writeAt p off x m = (rw, x', m')"
      using 5(5) unfolding buf_writeAt_dispatch by auto
    show ?thesis using mem_buf.writeAt_wf [OF _ 5(2,3) _ x'(2)] 5(1,4) MemBuf x'(1) by simp
  next
    case (FileBuf x)
    then obtain x' where x': "b' = FileBuf x'" "fileBuf_writeAt p off x m = (rw, x', m')"
      using 5(5) unfolding buf_writeAt_dispatch by auto
    show ?thesis using file_buf.writeAt_wf [OF _ 5(2,3) _ x'(2)] 5(1,4) FileBuf x'(1) by simp
  qed
next
  case (6 m b size0 b' m')
  show ?case
  proof (cases b)
    case (MemBuf x)
    then obtain x' where x': "b' = MemBuf x'" "memBuf_truncate size0 x m = (None, x', m')"
      using 6(3) unfolding buf_truncate_dispatch by auto
    show ?thesis using mem_buf.truncate_ok [OF _ 6(2) x'(2)] 6(1) MemBuf x'(1) by simp
  next
    case (FileBuf x)
    then obtain x' where x': "b' = FileBuf x'" "fileBuf_truncate size0 x m = (None, x', m')"
      using 6(3) unfolding buf_truncate_dispatch by auto
    show ?thesis using file_buf.truncate_ok [OF _ 6(2) x'(2)] 6(1) FileBuf x'(1) by simp
  qed
next
  case (7 m b ds m')
  show ?case
  proof (cases b)
    case (MemBuf x)
    with 7 mem_buf.snapshot_ok [of x m ds m'] show ?thesis by simp
  next
    case (FileBuf x)
    with 7 file_buf.snapshot_ok [of x m ds m'] show ?thesis by simp
  qed
qed

section \<open>Properties\<close>

text \<open>
  C28: a memory buffer is a zero-extending byte array, whatever stale bytes its recycled
  backing array holds beyond its length: a write at any offset succeeds completely and yields
  the old contents, zero-filled up to the offset, with the new bytes laid over.
\<close>

theorem memBuf_writeAt_overlays:
  assumes "mb_len b \<le> length (mb_arr b)" "0 \<le> off" "int64 (off + int (length p))"
  shows "\<exists>b' m'. memBuf_writeAt p off b m = ((length p, None), b', m') \<and>
           mb_len b' \<le> length (mb_arr b') \<and> mb_data b' = overlay (mb_data b) (nat off) p"
  by (rule memBuf_writeAt_spec [OF assms])

definition demo_mach :: mach where
  "demo_mach = \<lparr>mos = \<lparr>dirents = Map.empty, inodes = (\<lambda>_. []), next_ino = 1, faults = []\<rparr>,
                dataPool = [], pool_picks = []\<rparr>"

theorem memBuf_writeAt_overlays_witness:
  "\<exists>b' m'. memBuf_writeAt [7] 3 \<lparr>mb_arr = [1, 9, 9, 9, 9], mb_len = 1\<rparr> demo_mach = ((1, None), b', m') \<and>
     mb_data b' = [1, 0, 0, 7]"
  using memBuf_writeAt_overlays [of "\<lparr>mb_arr = [1, 9, 9, 9, 9], mb_len = 1\<rparr>" 3 "[7]" demo_mach]
  by (auto simp: int64_def overlay_def mb_data_def numeral_3_eq_3)

text \<open>
  Growing or shrinking a memory buffer never exposes stale bytes: truncation keeps the
  prefix and extension appends zeros only, for every backing array.
\<close>

lemma memBuf_truncate_resizes:
  assumes "mb_len b \<le> length (mb_arr b)" "0 \<le> size0"
  shows "\<exists>b' m'. memBuf_truncate size0 b m = (None, b', m') \<and>
           mb_len b' \<le> length (mb_arr b') \<and> mb_data b' = resize (mb_data b) (nat size0)"
  by (rule memBuf_truncate_spec [OF assms])



text \<open>
  An empty write past the end of a spill file records a size the file does not have, so
  a following read of the reported length finds nothing, while the same write to a memory
  buffer extends it with zeros as the interface says.
\<close>

lemma spill_empty_write_breaks_size:
  "let (r1, b1, m1) = buf_writeAt [] 4 (FileBuf \<lparr>fb_f = 0, fb_path = ''s'', fb_sz = 0\<rparr>) demo_mach;
       (r2, b2, m2) = buf_writeAt [] 4 (MemBuf \<lparr>mb_arr = [], mb_len = 0\<rparr>) demo_mach
   in r1 = (0, None) \<and> r2 = (0, None) \<and> buf_len b1 = 4 \<and> buf_len b2 = 4 \<and>
      fst (buf_readAt 4 0 b1 m1) = ([], Some EOF) \<and> fst (buf_readAt 4 0 b2 m2) = ([0, 0, 0, 0], None)"
  by code_simp

text \<open>
  A \<^verbatim>\<open>WriteAt\<close> whose end does not fit 64 bits wraps to a negative end, so the buffer
  does not grow and the slice expression \<^verbatim>\<open>b.data[off:]\<close> panics instead of an error being
  returned.
\<close>

lemma memBuf_writeAt_overflow_panics:
  assumes "mb_len b \<le> length (mb_arr b)" "int (mb_len b) < off" "int64 off"
    "\<not> int64 (off + int (length p))" "length p < 2 ^ 63"
  shows "fst (memBuf_writeAt p off b m) = (0, Some Panic)"
proof -
  have "wrap64 (off + int (length p)) = off + int (length p) - 2 ^ 64"
  proof -
    let ?y = "off + int (length p) - 2 ^ 63"
    have "?y mod 2 ^ 64 = ?y" using assms by (intro mod_pos_pos_trivial) (auto simp: int64_def)
    moreover have "off + int (length p) + 2 ^ 63 = ?y + 2 ^ 64" by simp
    ultimately show ?thesis unfolding wrap64_def by (simp only: mod_add_self2)
  qed
  then have "wrap64 (off + int (length p)) \<le> int (mb_len b)"
    using assms by (simp add: int64_def)
  then show ?thesis using assms(2) by (simp add: memBuf_writeAt_def memBuf_grow_def)
qed

end
