(* ===== verification/Disk.thy ===== *)
theory Disk
  imports LRU WriteBuf Store
begin

text \<open>
  The disk tier of \<^verbatim>\<open>disk.go\<close>: an LRU index of local files holding object bodies, validated
  by entity tag, and the creation of spill files for write buffers. Hard links make two names
  share one inode, so the invariant speaks of inodes: every name the index holds resolves, if
  at all, to the bytes its entity tag stands for, and a write buffer's inode is not one of
  them.
\<close>

section \<open>The cache\<close>

record diskEntry =
  dk_etag :: string
  dk_size :: int
  dk_path :: string

text \<open>\<^verbatim>\<open>initOnce\<close> and \<^verbatim>\<open>initErr\<close>: \<open>None\<close> before the first use, then the outcome.\<close>

record 'c diskCache =
  dc_dir :: string
  dc_maxBytes :: int
  dc_init :: "goerr option option"
  dc_seq :: nat
  dc_idx :: "'c lruIndex"

type_synonym 'c disk_gc = "('c, diskEntry lruEntry) lru_Cache"

definition newDiskCache :: "'c disk_gc \<Rightarrow> string \<Rightarrow> int \<Rightarrow> int \<Rightarrow> 'c diskCache" where
  "newDiskCache gc dir maxBytes0 ttl0 =
     \<lparr>dc_dir = dir, dc_maxBytes = maxBytes0, dc_init = None, dc_seq = 0,
      dc_idx = newLRUIndex gc maxBytes0 ttl0\<rparr>"

text \<open>The eviction callback: \<^verbatim>\<open>os.Remove(e.path)\<close>, its error ignored.\<close>

definition removeFiles :: "diskEntry list \<Rightarrow> osfs \<Rightarrow> osfs" where
  "removeFiles es s = fold (\<lambda>e s. snd (os_Remove (dk_path e) s)) es s"

text \<open>Decimal rendering of a counter, as \<^verbatim>\<open>%d\<close> prints it.\<close>

fun decimal :: "nat \<Rightarrow> string" where
  "decimal n = (if n < 10 then [char_of (48 + n)] else decimal (n div 10) @ [char_of (48 + n mod 10)])"

declare decimal.simps [simp del]

text \<open>
  \<^verbatim>\<open>ensure\<close>: on first use, create the directory (which may fail) and remove the leftovers
  matching \<^verbatim>\<open>s3fs-*\<close> directly under it. The directory name is taken literally in the
  pattern.
\<close>

definition leftover :: "string \<Rightarrow> string \<Rightarrow> bool" where
  "leftover dir p \<longleftrightarrow>
     (let pat = path_Join [dir, ''s3fs-''] in prefix pat p \<and> slash \<notin> set (drop (length pat) p))"

definition disk_ensure :: "'c diskCache \<Rightarrow> osfs \<Rightarrow> goerr option \<times> 'c diskCache \<times> osfs" where
  "disk_ensure c s0 =
     (case dc_init c of
        Some r \<Rightarrow> (r, c, s0)
      | None \<Rightarrow>
          (case next_fault s0 of
             (Some _, s) \<Rightarrow> (Some OsError, c\<lparr>dc_init := Some (Some OsError)\<rparr>, s)
           | (None, s) \<Rightarrow>
               (None, c\<lparr>dc_init := Some None\<rparr>,
                s\<lparr>dirents := (\<lambda>p. if leftover (dc_dir c) p then None else dirents s p)\<rparr>)))"

definition path_of :: "string \<Rightarrow> string \<Rightarrow> nat \<Rightarrow> string" where
  "path_of dir kind n = path_Join [dir, ''s3fs-'' @ kind @ ''-'' @ decimal n]"

definition disk_newPath :: "string \<Rightarrow> 'c diskCache \<Rightarrow> string \<times> 'c diskCache" where
  "disk_newPath kind c =
     (path_of (dc_dir c) kind (dc_seq c + 1), c\<lparr>dc_seq := dc_seq c + 1\<rparr>)"

definition disk_get ::
    "'c disk_gc \<Rightarrow> instant \<Rightarrow> string \<Rightarrow> 'c diskCache \<Rightarrow> osfs \<Rightarrow> diskEntry option \<times> 'c diskCache \<times> osfs" where
  "disk_get gc now k c s =
     (case lruIndex_get gc now k (dc_idx c) of (r, ev, x) \<Rightarrow> (r, c\<lparr>dc_idx := x\<rparr>, removeFiles ev s))"

definition disk_dropDeleted ::
    "'c disk_gc \<Rightarrow> string \<Rightarrow> 'c diskCache \<Rightarrow> osfs \<Rightarrow> 'c diskCache \<times> osfs" where
  "disk_dropDeleted gc k c s =
     (case lruIndex_delete gc k (dc_idx c) of (ev, x) \<Rightarrow> (c\<lparr>dc_idx := x\<rparr>, removeFiles ev s))"

definition disk_open ::
    "'c disk_gc \<Rightarrow> instant \<Rightarrow> string \<Rightarrow> string \<Rightarrow> 'c diskCache \<Rightarrow> osfs
       \<Rightarrow> ino option \<times> 'c diskCache \<times> osfs" where
  "disk_open gc now k etag c s =
     (if etag = '''' then (None, c, s)
      else case disk_get gc now k c s of
        (None, c1, s1) \<Rightarrow> (None, c1, s1)
      | (Some e, c1, s1) \<Rightarrow>
          if dk_etag e \<noteq> etag then (None, c1, s1)
          else case os_Open (dk_path e) s1 of
            (Inr f, s2) \<Rightarrow> (Some f, c1, s2)
          | (Inl _, s2) \<Rightarrow>
              (case disk_get gc now k c1 s2 of
                 (cur, c2, s3) \<Rightarrow>
                   if cur = Some e
                   then (case disk_dropDeleted gc k c2 s3 of (c3, s4) \<Rightarrow> (None, c3, s4))
                   else (None, c2, s3)))"

definition disk_has ::
    "'c disk_gc \<Rightarrow> instant \<Rightarrow> string \<Rightarrow> 'c diskCache \<Rightarrow> osfs \<Rightarrow> bool \<times> 'c diskCache \<times> osfs" where
  "disk_has gc now k c s = (case disk_get gc now k c s of (r, c1, s1) \<Rightarrow> (r \<noteq> None, c1, s1))"

definition disk_insert ::
    "'c disk_gc \<Rightarrow> instant \<Rightarrow> string \<Rightarrow> string \<Rightarrow> string \<Rightarrow> int \<Rightarrow> 'c diskCache \<Rightarrow> osfs
       \<Rightarrow> 'c diskCache \<times> osfs" where
  "disk_insert gc now k etag p size0 c s =
     (case lruIndex_put gc now k \<lparr>dk_etag = etag, dk_size = size0, dk_path = p\<rparr>
             (size0 + entryOverhead) (dc_idx c) of
        (ev, x) \<Rightarrow> (c\<lparr>dc_idx := x\<rparr>, removeFiles ev s))"

definition disk_copied ::
    "'c disk_gc \<Rightarrow> instant \<Rightarrow> string \<Rightarrow> string \<Rightarrow> 'c diskCache \<Rightarrow> osfs \<Rightarrow> 'c diskCache \<times> osfs" where
  "disk_copied gc now srcKey dstKey c s =
     (case disk_get gc now srcKey c s of
        (None, c1, s1) \<Rightarrow> disk_dropDeleted gc dstKey c1 s1
      | (Some src, c1, s1) \<Rightarrow>
          (case disk_newPath ''c'' c1 of
             (dstPath, c2) \<Rightarrow>
               (case os_Link (dk_path src) dstPath s1 of
                  (Some _, s2) \<Rightarrow> disk_dropDeleted gc dstKey c2 s2
                | (None, s2) \<Rightarrow> disk_insert gc now dstKey (dk_etag src) dstPath (dk_size src) c2 s2)))"

definition disk_adopt ::
    "'c disk_gc \<Rightarrow> instant \<Rightarrow> string \<Rightarrow> string \<Rightarrow> string \<Rightarrow> int \<Rightarrow> 'c diskCache \<Rightarrow> osfs
       \<Rightarrow> 'c diskCache \<times> osfs" where
  "disk_adopt gc now k etag srcPath size0 c s =
     (if etag = '''' then (c, s)
      else case disk_ensure c s of
        (Some _, c1, s1) \<Rightarrow> (c1, s1)
      | (None, c1, s1) \<Rightarrow>
          (case disk_newPath ''c'' c1 of
             (dstPath, c2) \<Rightarrow>
               (case os_Link srcPath dstPath s1 of
                  (Some _, s2) \<Rightarrow> (c2, s2)
                | (None, s2) \<Rightarrow> disk_insert gc now k etag dstPath size0 c2 s2)))"

definition disk_newSpill :: "'c diskCache \<Rightarrow> osfs \<Rightarrow> (goerr + fileBuf) \<times> 'c diskCache \<times> osfs" where
  "disk_newSpill c s =
     (case disk_ensure c s of
        (Some e, c1, s1) \<Rightarrow> (Inl e, c1, s1)
      | (None, c1, s1) \<Rightarrow>
          (case disk_newPath ''w'' c1 of
             (p, c2) \<Rightarrow>
               (case os_CreateExcl p s1 of
                  (Inl e, s2) \<Rightarrow> (Inl e, c2, s2)
                | (Inr f, s2) \<Rightarrow> (Inr \<lparr>fb_f = f, fb_path = p, fb_sz = 0\<rparr>, c2, s2))))"

section \<open>File names\<close>

lemma clean_elems_snoc:
  "elem_ok n \<Longrightarrow> clean_elems r acc (cs @ [n]) = clean_elems r acc cs @ [n]"
  by (induction r acc cs rule: clean_elems.induct) (auto simp: elem_ok_def split: list.splits)

lemma join_slash_snoc_inj:
  assumes "join_slash (xs @ [a]) = join_slash (xs @ [b])" shows "a = b"
  using assms by (cases "xs = []") (auto simp: join_slash_append)

lemma path_Join_inj:
  assumes "dir \<noteq> ''''" "elem_ok a" "elem_ok b" "path_Join [dir, a] = path_Join [dir, b]"
  shows "a = b"
proof -
  have split: "split_slash (dir @ slash # x) = split_slash dir @ [x]" if "elem_ok x" for x
    using that by (simp add: split_slash_append split_slash_elem elem_ok_def)
  let ?out = "clean_elems (path_IsAbs dir) [] (split_slash dir)"
  have abs: "path_IsAbs (dir @ slash # x) = path_IsAbs dir" for x
    using assms(1) by (cases dir) (auto simp: path_IsAbs_def)
  have "path_Join [dir, x] = (if path_IsAbs dir then slash # join_slash (?out @ [x]) else join_slash (?out @ [x]))"
    if "elem_ok x" for x
    using that assms(1) by (simp add: path_Join_def path_Clean_def Let_def split abs clean_elems_snoc)
  then have "join_slash (?out @ [a]) = join_slash (?out @ [b])"
    using assms by (auto split: if_splits)
  then show ?thesis by (rule join_slash_snoc_inj)
qed

lemma decimal_digits: "c \<in> set (decimal n) \<Longrightarrow> \<exists>d::nat. d < 10 \<and> c = char_of (48 + d)"
proof (induction n rule: decimal.induct)
  case (1 n)
  then show ?case
    by (subst (asm) (2) decimal.simps)
       (auto split: if_splits intro: exI [where x = "n mod 10"])
qed

definition decimal_val :: "string \<Rightarrow> nat" where
  "decimal_val s = foldl (\<lambda>a c. 10 * a + (of_char c - 48)) 0 s"

lemma decimal_val_decimal: "decimal_val (decimal n) = n"
proof (induction n rule: decimal.induct)
  case (1 n)
  then show ?case
    by (subst decimal.simps) (auto simp: decimal_val_def)
qed

lemma slash_not_digit: "d < 10 \<Longrightarrow> slash \<noteq> char_of (48 + d)" for d :: nat
proof
  assume d: "d < 10" "slash = char_of (48 + d)"
  have "(of_char slash :: nat) = (48 + d) mod 256" unfolding d(2) by (rule of_char_of)
  then show False using d(1) by simp
qed

lemma spill_name_ok: "kind \<in> {''c'', ''w''} \<Longrightarrow> elem_ok (''s3fs-'' @ kind @ ''-'' @ decimal n)"
  using decimal_digits [of slash n] slash_not_digit by (auto simp: elem_ok_def)

lemma path_of_inj:
  assumes "dir \<noteq> ''''" "kind \<in> {''c'', ''w''}" "kind' \<in> {''c'', ''w''}"
    "path_of dir kind n = path_of dir kind' n'"
  shows "n = n'"
proof -
  have "''s3fs-'' @ kind @ ''-'' @ decimal n = ''s3fs-'' @ kind' @ ''-'' @ decimal n'"
    using assms spill_name_ok path_Join_inj unfolding path_of_def by metis
  then have "decimal n = decimal n'" using assms(2,3) by auto
  then show ?thesis using decimal_val_decimal by metis
qed

section \<open>The invariant\<close>

definition cache_path :: "'c diskCache \<Rightarrow> string \<Rightarrow> bool" where
  "cache_path c p \<longleftrightarrow> (\<exists>kind n. kind \<in> {''c'', ''w''} \<and> n \<le> dc_seq c \<and> p = path_of (dc_dir c) kind n)"

definition entry_ok :: "(string \<Rightarrow> bytes) \<Rightarrow> 'c diskCache \<Rightarrow> osfs \<Rightarrow> diskEntry \<Rightarrow> bool" where
  "entry_ok content c s e \<longleftrightarrow>
     dk_etag e \<noteq> '''' \<and> 0 \<le> dk_size e \<and> cache_path c (dk_path e) \<and>
     (\<forall>i. dirents s (dk_path e) = Some i \<longrightarrow> inodes s i = content (dk_etag e))"

definition disk_inv ::
    "('c \<Rightarrow> (string \<times> diskEntry lruEntry) list) \<Rightarrow> (string \<Rightarrow> bytes) \<Rightarrow> 'c diskCache \<Rightarrow> osfs \<Rightarrow> bool" where
  "disk_inv view content c s \<longleftrightarrow>
     lru_inv view (dc_idx c) \<and> dc_dir c \<noteq> '''' \<and>
     (\<forall>p i. dirents s p = Some i \<longrightarrow> i < next_ino s) \<and>
     (\<forall>k e. (k, e) \<in> lru_entries view (dc_idx c) \<longrightarrow> entry_ok content c s e)"

text \<open>An inode no entry of the cache resolves to: a write buffer owns such a one.\<close>

definition private_ino ::
    "('c \<Rightarrow> (string \<times> diskEntry lruEntry) list) \<Rightarrow> 'c diskCache \<Rightarrow> osfs \<Rightarrow> ino \<Rightarrow> bool" where
  "private_ino view c s i \<longleftrightarrow>
     (\<forall>k e. (k, e) \<in> lru_entries view (dc_idx c) \<longrightarrow> dirents s (dk_path e) \<noteq> Some i)"

text \<open>What the disk tier's own bookkeeping does to the local files: names go, nothing else changes.\<close>

definition shrinks :: "osfs \<Rightarrow> osfs \<Rightarrow> bool" where
  "shrinks s s' \<longleftrightarrow>
     (\<forall>p i. dirents s' p = Some i \<longrightarrow> dirents s p = Some i) \<and> inodes s' = inodes s \<and> next_ino s' = next_ino s"

lemma shrinks_refl [simp]: "shrinks s s"
  by (simp add: shrinks_def)

lemma shrinks_trans: "shrinks a b \<Longrightarrow> shrinks b c \<Longrightarrow> shrinks a c"
  by (simp add: shrinks_def)

lemma shrinks_next_fault: "next_fault s = (f, s') \<Longrightarrow> shrinks s s'"
  by (auto simp: shrinks_def dest: next_fault_frame)

lemma shrinks_Remove: "shrinks s (snd (os_Remove p s))"
  by (auto simp: os_Remove_def shrinks_def dest: next_fault_frame split: prod.split option.split if_splits)

lemma shrinks_removeFiles: "shrinks s (removeFiles es s)"
  unfolding removeFiles_def
proof (induction es arbitrary: s)
  case (Cons e es)
  then show ?case using shrinks_Remove shrinks_trans by fastforce
qed simp

lemma shrinks_Open: "os_Open p s = (r, s') \<Longrightarrow> shrinks s s'"
  by (auto simp: os_Open_def dest: shrinks_next_fault split: prod.splits option.splits)

lemma shrinks_ensure: "disk_ensure c s = (r, c', s') \<Longrightarrow> shrinks s s'"
  by (auto simp: disk_ensure_def shrinks_def dest!: next_fault_frame split: option.splits prod.splits if_splits)

lemma ensure_frame:
  "disk_ensure c s = (r, c', s') \<Longrightarrow> dc_idx c' = dc_idx c \<and> dc_dir c' = dc_dir c \<and> dc_seq c' = dc_seq c"
  by (auto simp: disk_ensure_def split: option.splits prod.splits)

lemma entry_ok_shrinks:
  assumes "entry_ok content c s e" "shrinks s s'" "dc_dir c' = dc_dir c" "dc_seq c \<le> dc_seq c'"
  shows "entry_ok content c' s' e"
proof -
  have "cache_path c' (dk_path e)"
    using assms by (auto simp: entry_ok_def cache_path_def intro: order_trans)
  then show ?thesis using assms by (simp add: entry_ok_def shrinks_def)
qed

lemma fresh_path:
  assumes "dc_dir c \<noteq> ''''" "cache_path c p" "disk_newPath kind c = (q, c')" "kind \<in> {''c'', ''w''}"
  shows "p \<noteq> q"
proof
  assume "p = q"
  obtain kind' n where p: "kind' \<in> {''c'', ''w''}" "n \<le> dc_seq c" "p = path_of (dc_dir c) kind' n"
    using assms(2) unfolding cache_path_def by blast
  have "path_of (dc_dir c) kind' n = path_of (dc_dir c) kind (dc_seq c + 1)"
    using \<open>p = q\<close> p(3) assms(3) by (simp add: disk_newPath_def)
  then have "n = dc_seq c + 1" using path_of_inj assms(1,4) p(1) by blast
  with p(2) show False by simp
qed

lemma os_Link_ok:
  "os_Link a b s = (None, s') \<Longrightarrow>
     dirents s b = None \<and> (\<exists>i. dirents s a = Some i \<and> dirents s' = (dirents s)(b \<mapsto> i)) \<and>
     inodes s' = inodes s \<and> next_ino s' = next_ino s"
  by (auto simp: os_Link_def dest!: next_fault_frame split: prod.splits option.splits if_splits)

lemma os_Link_error: "os_Link a b s = (Some e, s') \<Longrightarrow> shrinks s s'"
  by (auto simp: os_Link_def dest: shrinks_next_fault split: prod.splits option.splits if_splits)

lemma os_CreateExcl_ok:
  "os_CreateExcl p s = (Inr f, s') \<Longrightarrow>
     dirents s p = None \<and> dirents s' = (dirents s)(p \<mapsto> f) \<and> f = next_ino s \<and>
     inodes s' = (inodes s)(f := []) \<and> next_ino s' = Suc f"
  by (auto simp: os_CreateExcl_def dest!: next_fault_frame split: prod.splits option.splits if_splits)

lemma os_CreateExcl_error: "os_CreateExcl p s = (Inl e, s') \<Longrightarrow> shrinks s s'"
  by (auto simp: os_CreateExcl_def dest: shrinks_next_fault split: prod.splits option.splits if_splits)

lemma entry_ok_link:
  assumes "entry_ok content c s e" "os_Link a b s = (None, s')" "dk_path e \<noteq> b"
  shows "entry_ok content c s' e"
  using assms(1,3) os_Link_ok [OF assms(2)] by (auto simp: entry_ok_def)

section \<open>Operations keep the invariant\<close>

text \<open>A bookkeeping step of the cache: entries and names may go, nothing else changes.\<close>

definition disk_sub ::
    "('c \<Rightarrow> (string \<times> diskEntry lruEntry) list) \<Rightarrow> 'c diskCache \<Rightarrow> osfs \<Rightarrow> 'c diskCache \<Rightarrow> osfs \<Rightarrow> bool" where
  "disk_sub view c s c' s' \<longleftrightarrow>
     lru_inv view (dc_idx c') \<and> lru_entries view (dc_idx c') \<subseteq> lru_entries view (dc_idx c) \<and>
     dc_dir c' = dc_dir c \<and> dc_seq c \<le> dc_seq c' \<and> shrinks s s'"

lemma disk_sub_refl: "lru_inv view (dc_idx c) \<Longrightarrow> shrinks s s' \<Longrightarrow> disk_sub view c s c s'"
  by (simp add: disk_sub_def)

lemma disk_sub_trans: "disk_sub view a s b t \<Longrightarrow> disk_sub view b t c u \<Longrightarrow> disk_sub view a s c u"
  unfolding disk_sub_def using shrinks_trans by (metis order_trans)

lemma disk_sub_inv:
  assumes "disk_inv view content c s" "disk_sub view c s c' s'"
  shows "disk_inv view content c' s'"
proof -
  have sh: "shrinks s s'" "dc_dir c' = dc_dir c" "dc_seq c \<le> dc_seq c'"
    using assms(2) by (auto simp: disk_sub_def)
  have "\<forall>p i. dirents s' p = Some i \<longrightarrow> i < next_ino s'"
    using assms(1) sh(1) unfolding disk_inv_def shrinks_def by metis
  moreover have "\<forall>k e. (k, e) \<in> lru_entries view (dc_idx c') \<longrightarrow> entry_ok content c' s' e"
    using assms entry_ok_shrinks [OF _ sh] unfolding disk_inv_def disk_sub_def by blast
  ultimately show ?thesis using assms by (simp add: disk_inv_def disk_sub_def)
qed

lemma disk_sub_private:
  "private_ino view c s i \<Longrightarrow> disk_sub view c s c' s' \<Longrightarrow> private_ino view c' s' i"
  unfolding private_ino_def disk_sub_def shrinks_def by blast

lemma disk_inv_lru: "disk_inv view content c s \<Longrightarrow> lru_inv view (dc_idx c)"
  by (simp add: disk_inv_def)

lemma disk_ensure_sub:
  assumes "lru_inv view (dc_idx c)" "disk_ensure c s = (r, c', s')"
  shows "disk_sub view c s c' s'"
  using assms ensure_frame [OF assms(2)] shrinks_ensure [OF assms(2)] by (simp add: disk_sub_def)

lemma newPath_sub: "lru_inv view (dc_idx c) \<Longrightarrow> disk_newPath kind c = (p, c') \<Longrightarrow> disk_sub view c s c' s"
  by (auto simp: disk_newPath_def disk_sub_def)

locale disk_cache =
  lru_over_groupcache gc view for gc :: "'c disk_gc" and view +
  fixes content :: "string \<Rightarrow> bytes"
begin

lemma get_sub:
  assumes lru: "lru_inv view (dc_idx c)" and get: "disk_get gc now k c s = (r, c', s')"
  shows "disk_sub view c s c' s'"
    and "r = Some e \<Longrightarrow> (k, e) \<in> lru_entries view (dc_idx c)"
proof -
  obtain ev x where g: "lruIndex_get gc now k (dc_idx c) = (r, ev, x)"
      and c': "c' = c\<lparr>dc_idx := x\<rparr>" and s': "s' = removeFiles ev s"
    using get by (auto simp: disk_get_def split: prod.splits)
  show "disk_sub view c s c' s'"
    using idx.get_sub [OF lru g] idx.get_inv [OF lru g] c' s' shrinks_removeFiles
    by (simp add: disk_sub_def)
  show "r = Some e \<Longrightarrow> (k, e) \<in> lru_entries view (dc_idx c)"
    using idx.get_hit [OF lru] g by blast
qed

lemma get_entry:
  assumes inv: "disk_inv view content c s" and get: "disk_get gc now k c s = (Some e, c', s')"
  shows "entry_ok content c' s' e"
proof -
  have lru: "lru_inv view (dc_idx c)" using inv by (rule disk_inv_lru)
  have "entry_ok content c s e" using get_sub(2) [OF lru get refl] inv by (simp add: disk_inv_def)
  then show ?thesis
    using get_sub(1) [OF lru get] entry_ok_shrinks by (auto simp: disk_sub_def)
qed

lemma drop_sub:
  assumes lru: "lru_inv view (dc_idx c)" and d: "disk_dropDeleted gc k c s = (c', s')"
  shows "disk_sub view c s c' s'"
    and "lru_entries view (dc_idx c') = {en \<in> lru_entries view (dc_idx c). fst en \<noteq> k}"
proof -
  obtain ev x where g: "lruIndex_delete gc k (dc_idx c) = (ev, x)"
      and c': "c' = c\<lparr>dc_idx := x\<rparr>" and s': "s' = removeFiles ev s"
    using d by (auto simp: disk_dropDeleted_def split: prod.splits)
  show sub: "lru_entries view (dc_idx c') = {en \<in> lru_entries view (dc_idx c). fst en \<noteq> k}"
    using idx.delete_sub [OF lru g] c' by simp
  then show "disk_sub view c s c' s'"
    using idx.delete_inv [OF lru g] c' s' shrinks_removeFiles by (auto simp: disk_sub_def)
qed

lemma open_sub:
  assumes lru: "lru_inv view (dc_idx c)" and op: "disk_open gc now k etag c s = (r, c', s')"
  shows "disk_sub view c s c' s'"
proof -
  obtain r1 c1 s1 where g: "disk_get gc now k c s = (r1, c1, s1)" by (cases "disk_get gc now k c s") auto
  note k1 = get_sub(1) [OF lru g]
  have lru1: "lru_inv view (dc_idx c1)" using k1 by (simp add: disk_sub_def)
  obtain x s2 where o: "os_Open (dk_path (the r1)) s1 = (x, s2)" by (cases "os_Open (dk_path (the r1)) s1")
  obtain cur c2 s3 where g2: "disk_get gc now k c1 s2 = (cur, c2, s3)"
    by (cases "disk_get gc now k c1 s2") auto
  obtain c3 s4 where d: "disk_dropDeleted gc k c2 s3 = (c3, s4)" by (cases "disk_dropDeleted gc k c2 s3")
  note k2 = disk_sub_trans [OF k1 disk_sub_refl [OF lru1 shrinks_Open [OF o]]]
  note k3 = disk_sub_trans [OF k2 get_sub(1) [OF lru1 g2]]
  have lru2: "lru_inv view (dc_idx c2)" using k3 by (simp add: disk_sub_def)
  note k4 = disk_sub_trans [OF k3 drop_sub(1) [OF lru2 d]]
  have "(c', s') \<in> {(c, s), (c1, s1), (c1, s2), (c2, s3), (c3, s4)}"
    using op g o g2 d by (auto simp: disk_open_def split: if_splits option.splits sum.splits)
  then show ?thesis using k1 k2 k3 k4 disk_sub_refl [OF lru shrinks_refl] by auto
qed

lemma open_hit:
  assumes inv: "disk_inv view content c s" and op: "disk_open gc now k etag c s = (Some f, c', s')"
  shows "inodes s' f = content etag" and "etag \<noteq> ''''"
proof -
  obtain r1 c1 s1 where g: "disk_get gc now k c s = (r1, c1, s1)" by (cases "disk_get gc now k c s") auto
  then obtain e where e: "r1 = Some e" "dk_etag e = etag" "os_Open (dk_path e) s1 = (Inr f, s')"
    using op by (auto simp: disk_open_def split: if_splits option.splits sum.splits prod.splits)
  have "entry_ok content c1 s1 e" using get_entry [OF inv] g e(1) by blast
  moreover have "dirents s1 (dk_path e) = Some f" "inodes s' = inodes s1"
    using e(3) by (auto simp: os_Open_def dest!: next_fault_frame split: prod.splits option.splits)
  ultimately show "inodes s' f = content etag" "etag \<noteq> ''''" using e(2) by (auto simp: entry_ok_def)
qed

lemma insert_inv:
  assumes inv: "disk_inv view content c s"
    and e: "entry_ok content c s \<lparr>dk_etag = etag, dk_size = size0, dk_path = p\<rparr>"
    and ins: "disk_insert gc now k etag p size0 c s = (c', s')"
  shows "disk_inv view content c' s'"
    and "private_ino view c s i \<Longrightarrow> dirents s p \<noteq> Some i \<Longrightarrow> private_ino view c' s' i"
proof -
  let ?e = "\<lparr>dk_etag = etag, dk_size = size0, dk_path = p\<rparr>"
  obtain ev x where put: "lruIndex_put gc now k ?e (size0 + entryOverhead) (dc_idx c) = (ev, x)"
      and c': "c' = c\<lparr>dc_idx := x\<rparr>" and s': "s' = removeFiles ev s"
    using ins by (auto simp: disk_insert_def split: prod.splits)
  have lru: "lru_inv view (dc_idx c)" using inv by (rule disk_inv_lru)
  have nn: "0 \<le> size0 + entryOverhead" using e by (simp add: entry_ok_def entryOverhead_def)
  have sh: "shrinks s s'" using s' shrinks_removeFiles by simp
  have sub: "lru_entries view (dc_idx c') \<subseteq> insert (k, ?e) {en \<in> lru_entries view (dc_idx c). fst en \<noteq> k}"
    using idx.put_sub [OF lru nn put] c' by simp
  have "entry_ok content c' s' e'" if "(k', e') \<in> lru_entries view (dc_idx c')" for k' e'
  proof -
    have "entry_ok content c s e'" using that sub e inv by (auto simp: disk_inv_def)
    from entry_ok_shrinks [OF this sh, of c'] show ?thesis using c' by simp
  qed
  moreover have "\<forall>p i. dirents s' p = Some i \<longrightarrow> i < next_ino s'"
    using inv sh unfolding disk_inv_def shrinks_def by metis
  ultimately show "disk_inv view content c' s'"
    using inv idx.put_inv [OF lru nn put] c' by (auto simp: disk_inv_def)
  show "private_ino view c s i \<Longrightarrow> dirents s p \<noteq> Some i \<Longrightarrow> private_ino view c' s' i"
    using sub sh unfolding private_ino_def shrinks_def by fastforce
qed

text \<open>Linking a file whose bytes are those of an entity tag, and entering the new name.\<close>

lemma link_insert:
  assumes inv: "disk_inv view content c s" and np: "disk_newPath ''c'' c = (q, c1)"
    and ln: "os_Link a q s = (None, s1)"
    and ins: "disk_insert gc now k etag q size0 c1 s1 = (c', s')"
    and src: "\<And>i. dirents s a = Some i \<Longrightarrow> inodes s i = content etag" and ok: "etag \<noteq> ''''" "0 \<le> size0"
  shows "disk_inv view content c' s'"
    and "private_ino view c s i \<Longrightarrow> dirents s a \<noteq> Some i \<Longrightarrow> private_ino view c' s' i"
proof -
  let ?e = "\<lparr>dk_etag = etag, dk_size = size0, dk_path = q\<rparr>"
  have c1: "c1 = c\<lparr>dc_seq := dc_seq c + 1\<rparr>" and q: "q = path_of (dc_dir c) ''c'' (dc_seq c + 1)"
    using np by (auto simp: disk_newPath_def)
  obtain j where j: "dirents s q = None" "dirents s a = Some j" "dirents s1 = (dirents s)(q \<mapsto> j)"
      "inodes s1 = inodes s" "next_ino s1 = next_ino s" using os_Link_ok [OF ln] by auto
  have fresh: "dk_path e \<noteq> q" if "(k', e) \<in> lru_entries view (dc_idx c)" for k' e
    using fresh_path [OF _ _ np] inv that by (auto simp: disk_inv_def entry_ok_def)
  have inv1: "disk_inv view content c1 s" 
    using disk_sub_inv [OF inv newPath_sub [OF disk_inv_lru [OF inv] np]] .
  have ents: "lru_entries view (dc_idx c1) = lru_entries view (dc_idx c)" using c1 by simp
  have old: "entry_ok content c1 s1 e" if m: "(k', e) \<in> lru_entries view (dc_idx c1)" for k' e
  proof -
    have "entry_ok content c1 s e" using inv1 m by (simp add: disk_inv_def)
    then show ?thesis by (rule entry_ok_link [OF _ ln fresh]) (use m ents in simp)
  qed
  have new: "entry_ok content c1 s1 ?e"
    using ok src j q c1 by (auto simp: entry_ok_def cache_path_def)
  have inv2: "disk_inv view content c1 s1"
    using inv1 old j by (auto simp: disk_inv_def)
  show "disk_inv view content c' s'" by (rule insert_inv(1) [OF inv2 new ins])
  show "private_ino view c' s' i" if "private_ino view c s i" "dirents s a \<noteq> Some i"
  proof (rule insert_inv(2) [OF inv2 new ins])
    show "private_ino view c1 s1 i" using that(1) ents fresh j by (simp add: private_ino_def)
    show "dirents s1 q \<noteq> Some i" using that(2) j by simp
  qed
qed

text \<open>A buffer's inode stays private across an operation, unless the operation adopts its file.\<close>

lemma copied_inv:
  assumes inv: "disk_inv view content c s" and op: "disk_copied gc now k k' c s = (c', s')"
  shows "disk_inv view content c' s'" and "private_ino view c s i \<Longrightarrow> private_ino view c' s' i"
proof -
  have lru: "lru_inv view (dc_idx c)" using inv by (rule disk_inv_lru)
  obtain r c1 s1 where g: "disk_get gc now k c s = (r, c1, s1)" by (cases "disk_get gc now k c s") auto
  note k1 = get_sub(1) [OF lru g]
  have inv1: "disk_inv view content c1 s1" by (rule disk_sub_inv [OF inv k1])
  have drop: "disk_sub view c s c' s'"
    if "disk_dropDeleted gc k' c2 s2 = (c', s')" "disk_sub view c1 s1 c2 s2" for c2 s2
    using disk_sub_trans [OF disk_sub_trans [OF k1 that(2)] drop_sub(1) [OF _ that(1)]] that(2)
    by (simp add: disk_sub_def)
  have refl1: "disk_sub view c1 s1 c1 s1" using k1 by (simp add: disk_sub_def)
  have "disk_sub view c s c' s' \<or>
        (\<exists>e q c2 s2. r = Some e \<and> disk_newPath ''c'' c1 = (q, c2) \<and> os_Link (dk_path e) q s1 = (None, s2) \<and>
           disk_insert gc now k' (dk_etag e) q (dk_size e) c2 s2 = (c', s'))"
  proof (cases r)
    case None
    then show ?thesis using op g drop [OF _ refl1] by (simp add: disk_copied_def)
  next
    case (Some e)
    obtain q c2 where np: "disk_newPath ''c'' c1 = (q, c2)" by (cases "disk_newPath ''c'' c1")
    obtain x s2 where ln: "os_Link (dk_path e) q s1 = (x, s2)" by (cases "os_Link (dk_path e) q s1")
    note sub2 = newPath_sub [OF disk_inv_lru [OF inv1] np]
    show ?thesis
    proof (cases x)
      case None
      then show ?thesis using op g Some np ln by (simp add: disk_copied_def)
    next
      case Some': (Some err)
      have "disk_sub view c2 s1 c2 s2"
        using sub2 [of s1] os_Link_error ln Some' by (auto simp: disk_sub_def)
      then have "disk_sub view c1 s1 c2 s2" by (rule disk_sub_trans [OF sub2])
      then show ?thesis using op g Some np ln Some' drop by (simp add: disk_copied_def)
    qed
  qed
  then consider (sub) "disk_sub view c s c' s'"
    | (lnk) e q c2 s2 where "r = Some e" "disk_newPath ''c'' c1 = (q, c2)" "os_Link (dk_path e) q s1 = (None, s2)"
        "disk_insert gc now k' (dk_etag e) q (dk_size e) c2 s2 = (c', s')" by blast
  then have "disk_inv view content c' s' \<and> (private_ino view c s i \<longrightarrow> private_ino view c' s' i)"
  proof cases
    case sub
    then show ?thesis using disk_sub_inv [OF inv] disk_sub_private by blast
  next
    case lnk
    have e: "entry_ok content c1 s1 e" using get_entry [OF inv] g lnk(1) by blast
    have "private_ino view c1 s1 i \<and> dirents s1 (dk_path e) \<noteq> Some i" if "private_ino view c s i"
      using disk_sub_private [OF that k1] get_sub(2) [OF lru g lnk(1)] that k1
      unfolding private_ino_def disk_sub_def shrinks_def by blast
    then show ?thesis
      using link_insert [OF inv1 lnk(2-4)] e by (auto simp: entry_ok_def)
  qed
  then show "disk_inv view content c' s'" "private_ino view c s i \<Longrightarrow> private_ino view c' s' i" by auto
qed

lemma adopt_inv:
  assumes inv: "disk_inv view content c s" and op: "disk_adopt gc now k etag p n c s = (c', s')"
    and src: "\<And>i. dirents s p = Some i \<Longrightarrow> inodes s i = content etag" and n: "0 \<le> n"
  shows "disk_inv view content c' s'"
    and "private_ino view c s i \<Longrightarrow> dirents s p \<noteq> Some i \<Longrightarrow> private_ino view c' s' i"
proof -
  have lru: "lru_inv view (dc_idx c)" using inv by (rule disk_inv_lru)
  obtain r c1 s1 where en: "disk_ensure c s = (r, c1, s1)" by (cases "disk_ensure c s") auto
  note k1 = disk_ensure_sub [OF lru en]
  obtain q c2 where np: "disk_newPath ''c'' c1 = (q, c2)" by (cases "disk_newPath ''c'' c1")
  obtain x s2 where ln: "os_Link p q s1 = (x, s2)" by (cases "os_Link p q s1")
  note inv1 = disk_sub_inv [OF inv k1]
  note k2 = disk_sub_trans [OF k1 newPath_sub [OF disk_inv_lru [OF inv1] np]]
  have lru2: "lru_inv view (dc_idx c2)" using k2 by (simp add: disk_sub_def)
  consider (sub) "disk_sub view c s c' s'"
    | (lnk) "x = None" "etag \<noteq> ''''" "disk_insert gc now k etag q n c2 s2 = (c', s')"
    using op en np ln k1 disk_sub_refl [OF lru shrinks_refl]
      disk_sub_trans [OF k2 disk_sub_refl [OF lru2 os_Link_error]]
    by (cases r; cases x) (auto simp: disk_adopt_def split: if_splits)
  then have "disk_inv view content c' s' \<and>
      (private_ino view c s i \<longrightarrow> dirents s p \<noteq> Some i \<longrightarrow> private_ino view c' s' i)"
  proof cases
    case sub
    then show ?thesis using disk_sub_inv [OF inv] disk_sub_private by blast
  next
    case lnk
    have sh: "shrinks s s1" using k1 by (simp add: disk_sub_def)
    then have "inodes s1 j = content etag" if "dirents s1 p = Some j" for j
      using src that by (simp add: shrinks_def)
    then show ?thesis
      using link_insert [OF inv1 np _ lnk(3)] ln lnk(1,2) n disk_sub_private [OF _ k1] sh
      unfolding shrinks_def by blast
  qed
  then show "disk_inv view content c' s'"
    "private_ino view c s i \<Longrightarrow> dirents s p \<noteq> Some i \<Longrightarrow> private_ino view c' s' i" by auto
qed

text \<open>A new file of the disk tier's own: no entry resolves to it.\<close>

lemma create_inv:
  assumes inv1: "disk_inv view content c1 s1" and np: "disk_newPath kind c1 = (q, c2)"
    and kind: "kind \<in> {''c'', ''w''}" and cr: "os_CreateExcl q s1 = (Inr f, s2)"
  shows "disk_inv view content c2 s2" and "private_ino view c2 s2 f"
    and "dirents s2 q = Some f" and "inodes s2 f = []" and "f = next_ino s1" and "next_ino s2 = Suc f"
    and "private_ino view c1 s1 i \<Longrightarrow> private_ino view c2 s2 i" and "cache_path c2 q"
    and "\<not> cache_path c1 q" and "dirents s2 = (dirents s1)(q \<mapsto> f)"
    and "j \<noteq> f \<Longrightarrow> inodes s2 j = inodes s1 j"
proof -
  note k2 = newPath_sub [OF disk_inv_lru [OF inv1] np, of s1]
  note inv2 = disk_sub_inv [OF inv1 k2]
  have f: "dirents s1 q = None" "dirents s2 = (dirents s1)(q \<mapsto> f)" "f = next_ino s1"
      "inodes s2 = (inodes s1)(f := [])" "next_ino s2 = Suc f"
    using os_CreateExcl_ok [OF cr] by auto
  have dir: "dc_dir c1 \<noteq> ''''" using inv1 by (simp add: disk_inv_def)
  show new: "\<not> cache_path c1 q" using fresh_path [OF dir _ np kind] by blast
  have idx: "dc_idx c2 = dc_idx c1" using np by (auto simp: disk_newPath_def)
  have fresh: "dk_path e \<noteq> q" if "(k', e) \<in> lru_entries view (dc_idx c2)" for k' e
    using that new inv1 by (auto simp: idx disk_inv_def entry_ok_def)
  have low: "j < f" if "dirents s1 p = Some j" for p j using inv2 that f(3) by (auto simp: disk_inv_def)
  have "entry_ok content c2 s2 e" if "(k', e) \<in> lru_entries view (dc_idx c2)" for k' e
    using that inv2 fresh [OF that] f low by (fastforce simp: disk_inv_def entry_ok_def)
  then show "disk_inv view content c2 s2" using inv2 f low by (auto simp: disk_inv_def less_Suc_eq)
  show "private_ino view c2 s2 f" using fresh f low unfolding private_ino_def by fastforce
  show "private_ino view c2 s2 i" if "private_ino view c1 s1 i"
    using disk_sub_private [OF that k2] fresh f by (simp add: private_ino_def)
  have "q = path_of (dc_dir c2) kind (dc_seq c2)" using np by (auto simp: disk_newPath_def)
  then show "cache_path c2 q" using kind unfolding cache_path_def by blast
  show "dirents s2 q = Some f" "inodes s2 f = []" "f = next_ino s1" "next_ino s2 = Suc f"
    "dirents s2 = (dirents s1)(q \<mapsto> f)" "j \<noteq> f \<Longrightarrow> inodes s2 j = inodes s1 j" using f by auto
qed

lemma newSpill_inv:
  assumes inv: "disk_inv view content c s" and op: "disk_newSpill c s = (r, c', s')"
  shows "disk_inv view content c' s'"
    and "r = Inr b \<Longrightarrow> private_ino view c' s' (fb_f b)"
    and "r = Inr b \<Longrightarrow> fb_sz b = 0 \<and> inodes s' (fb_f b) = [] \<and> dirents s' (fb_path b) = Some (fb_f b)"
    and "private_ino view c s i \<Longrightarrow> private_ino view c' s' i"
    and "next_ino s \<le> next_ino s'"
    and "r = Inr b \<Longrightarrow> fb_f b = next_ino s \<and> next_ino s < next_ino s'"
    and "i < next_ino s \<Longrightarrow> inodes s' i = inodes s i"
    and "r = Inr b \<Longrightarrow> cache_path c' (fb_path b)"
proof -
  have lru: "lru_inv view (dc_idx c)" using inv by (rule disk_inv_lru)
  obtain r1 c1 s1 where en: "disk_ensure c s = (r1, c1, s1)" by (cases "disk_ensure c s") auto
  note k1 = disk_ensure_sub [OF lru en]
  note inv1 = disk_sub_inv [OF inv k1]
  obtain q c2 where np: "disk_newPath ''w'' c1 = (q, c2)" by (cases "disk_newPath ''w'' c1")
  note k2 = newPath_sub [OF disk_inv_lru [OF inv1] np]
  note inv2 = disk_sub_inv [OF inv1 k2]
  obtain x s2 where cr: "os_CreateExcl q s1 = (x, s2)" by (cases "os_CreateExcl q s1")
  have lru2: "lru_inv view (dc_idx c2)" using k2 by (simp add: disk_sub_def)
  have nx: "next_ino s1 = next_ino s" "inodes s1 = inodes s" using k1 by (auto simp: disk_sub_def shrinks_def)
  consider (sub) "\<exists>e. r = Inl e" "disk_sub view c s c' s'"
    | (ok) f where "x = Inr f" "r1 = None" "r = Inr \<lparr>fb_f = f, fb_path = q, fb_sz = 0\<rparr>" "c' = c2" "s' = s2"
    using op en np cr k1 disk_sub_trans [OF disk_sub_trans [OF k1 k2] disk_sub_refl [OF lru2 os_CreateExcl_error]]
    by (cases r1; cases x) (auto simp: disk_newSpill_def)
  then have "disk_inv view content c' s' \<and> (r = Inr b \<longrightarrow> private_ino view c' s' (fb_f b)) \<and>
     (r = Inr b \<longrightarrow> fb_sz b = 0 \<and> inodes s' (fb_f b) = [] \<and> dirents s' (fb_path b) = Some (fb_f b)) \<and>
     (private_ino view c s i \<longrightarrow> private_ino view c' s' i) \<and> next_ino s \<le> next_ino s' \<and>
     (r = Inr b \<longrightarrow> fb_f b = next_ino s \<and> next_ino s < next_ino s') \<and>
     (i < next_ino s \<longrightarrow> inodes s' i = inodes s i) \<and> (r = Inr b \<longrightarrow> cache_path c' (fb_path b))"
  proof cases
    case sub
    then show ?thesis using disk_sub_inv [OF inv sub(2)] disk_sub_private [OF _ sub(2)]
      by (auto simp: disk_sub_def shrinks_def)
  next
    case ok
    note cv = create_inv [OF inv1 np _ cr [unfolded ok(1)]]
    have "private_ino view c2 s2 i" if "private_ino view c s i"
      using cv(7) disk_sub_private [OF that k1] by simp
    moreover have "inodes s2 i = inodes s i" if "i < next_ino s" using cv(5,11) that nx by simp
    moreover have "cache_path c2 q" using cv(8) by simp
    moreover have "fb_path b = q" "fb_f b = f" if "r = Inr b" using that ok(3) by auto
    ultimately show ?thesis using ok cv(1-6) nx by auto
  qed
  then show "disk_inv view content c' s'" "r = Inr b \<Longrightarrow> private_ino view c' s' (fb_f b)"
    "r = Inr b \<Longrightarrow> fb_sz b = 0 \<and> inodes s' (fb_f b) = [] \<and> dirents s' (fb_path b) = Some (fb_f b)"
    "private_ino view c s i \<Longrightarrow> private_ino view c' s' i" "next_ino s \<le> next_ino s'"
    "r = Inr b \<Longrightarrow> fb_f b = next_ino s \<and> next_ino s < next_ino s'"
    "i < next_ino s \<Longrightarrow> inodes s' i = inodes s i"
    "r = Inr b \<Longrightarrow> cache_path c' (fb_path b)" by auto
qed

end

text \<open>Writing the bytes of an inode no entry resolves to leaves every entry as it is.\<close>

lemma private_write:
  assumes "disk_inv view content c s" "private_ino view c s i"
    "dirents s' = dirents s" "next_ino s' = next_ino s" "\<And>j. j \<noteq> i \<Longrightarrow> inodes s' j = inodes s j"
  shows "disk_inv view content c s'"
  using assms unfolding disk_inv_def entry_ok_def private_ino_def by metis

lemma fileBuf_writeAt_frame:
  "fileBuf_writeAt p off b m = (r, b', m') \<Longrightarrow>
     dirents (mos m') = dirents (mos m) \<and> next_ino (mos m') = next_ino (mos m) \<and>
     (\<forall>j. j \<noteq> fb_f b \<longrightarrow> inodes (mos m') j = inodes (mos m) j) \<and>
     fb_f b' = fb_f b \<and> fb_path b' = fb_path b"
  by (auto simp: fileBuf_writeAt_def Let_def dest: os_WriteAt_frame split: prod.splits if_splits)

lemma fileBuf_truncate_frame:
  "fileBuf_truncate n b m = (r, b', m') \<Longrightarrow>
     dirents (mos m') = dirents (mos m) \<and> next_ino (mos m') = next_ino (mos m) \<and>
     (\<forall>j. j \<noteq> fb_f b \<longrightarrow> inodes (mos m') j = inodes (mos m) j) \<and>
     fb_f b' = fb_f b \<and> fb_path b' = fb_path b"
  by (auto simp: fileBuf_truncate_def dest: os_Truncate_frame split: prod.splits option.splits)

lemma groupcache_diskI: "groupcache gc view \<Longrightarrow> disk_cache gc view"
  by (simp add: disk_cache_def lru_over_groupcache_def)

interpretation list_disk: disk_cache list_lru "\<lambda>c. c" tag_content
  by (rule groupcache_diskI) (rule list_cache.groupcache_axioms)

text \<open>A cache holding one body, and the machine it lives on.\<close>

definition demo_disk :: "(string \<times> diskEntry lruEntry) list diskCache" where
  "demo_disk = \<lparr>dc_dir = ''/t'', dc_maxBytes = 1000, dc_init = Some None, dc_seq = 1,
     dc_idx = \<lparr>maxBytes = 1000, ttl = 0,
       cache = [(''k'', \<lparr>val = \<lparr>dk_etag = ''v1'', dk_size = 1, dk_path = path_of ''/t'' ''c'' 1\<rparr>,
                        cost = 257, expires = 0\<rparr>)],
       used = 257\<rparr>\<rparr>"

definition demo_os :: osfs where
  "demo_os = \<lparr>dirents = [path_of ''/t'' ''c'' 1 \<mapsto> 0], inodes = (\<lambda>_. [])(0 := [49]),
     next_ino = 1, faults = []\<rparr>"

lemma demo_disk_inv: "disk_inv (\<lambda>c. c) tag_content demo_disk demo_os"
  by (auto simp: disk_inv_def demo_disk_def demo_os_def lru_inv_def lru_entries_def entry_ok_def
      cache_path_def tag_content_def split: if_splits)

lemma demo_open:
  "disk_open list_lru 5 ''k'' ''v1'' demo_disk demo_os = (Some 0, demo_disk, demo_os)"
  by (simp add: disk_open_def disk_get_def lruIndex_get_def list_lru_def demo_disk_def demo_os_def
      IsZero_def removeFiles_def os_Open_def next_fault_def)

section \<open>Properties\<close>

text \<open>
  C19: a hit of the disk tier serves exactly the bytes the requested entity tag stands for,
  and only a non-empty tag can hit. The lookup keeps the tier's invariant and changes no
  file's bytes.
\<close>

theorem disk_open_serves_tagged_bytes:
  assumes "groupcache gc view" "disk_inv view content c s"
    "disk_open gc now k etag c s = (Some f, c', s')"
  shows "inodes s' f = content etag \<and> etag \<noteq> '''' \<and> disk_inv view content c' s' \<and> inodes s' = inodes s"
proof -
  have d: "disk_cache gc view" using assms(1) by (rule groupcache_diskI)
  have sub: "disk_sub view c s c' s'"
    by (rule disk_cache.open_sub [OF d disk_inv_lru [OF assms(2)] assms(3)])
  then show ?thesis
    using disk_cache.open_hit [OF d assms(2,3)] disk_sub_inv [OF assms(2) sub]
    by (simp add: disk_sub_def shrinks_def)
qed

theorem disk_open_serves_tagged_bytes_witness:
  "disk_open list_lru 5 ''k'' ''v1'' demo_disk demo_os = (Some 0, demo_disk, demo_os) \<and>
   inodes demo_os 0 = tag_content ''v1''"
  using disk_open_serves_tagged_bytes [OF list_cache.groupcache_axioms demo_disk_inv demo_open] demo_open
  by simp




definition demo_disk_mach :: mach where
  "demo_disk_mach = \<lparr>mos = demo_os, dataPool = [], pool_picks = []\<rparr>"

lemma demo_newSpill:
  "disk_newSpill demo_disk demo_os =
     (Inr \<lparr>fb_f = 1, fb_path = path_of ''/t'' ''w'' 2, fb_sz = 0\<rparr>, demo_disk\<lparr>dc_seq := 2\<rparr>,
      demo_os\<lparr>dirents := (dirents demo_os)(path_of ''/t'' ''w'' 2 \<mapsto> 1), next_ino := 2\<rparr>)"
proof -
  have "path_of ''/t'' ''w'' 2 \<noteq> path_of ''/t'' ''c'' 1"
    using path_of_inj [of "''/t''" "''w''" "''c''" 2 1] by auto
  moreover have "(\<lambda>_. [])(0 := [49], Suc 0 := []) = ((\<lambda>_. [])(0 := [49]) :: ino \<Rightarrow> bytes)"
    by auto
  ultimately show ?thesis
    by (simp add: disk_newSpill_def disk_ensure_def disk_newPath_def os_CreateExcl_def next_fault_def
        demo_disk_def demo_os_def numeral_2_eq_2)
qed


end
