(* ===== verification/Lock.thy ===== *)
theory Lock
  imports Prelude
begin

text \<open>
  The lock manager of \<^verbatim>\<open>lock.go\<close>: flock-like locks on paths, owned by file handles, with
  blocking, cancellation and an optional cross-process backend. The critical sections under
  \<^verbatim>\<open>m.mu\<close> are functions on the manager; the methods are threads that run them one at a
  time, so every interleaving is a sequence of steps of \<open>lstep\<close>.
\<close>

section \<open>The manager\<close>

text \<open>
  A \<^verbatim>\<open>pathLock\<close> is an object the map points to and waiters keep a pointer to, so it has an
  address. The channel \<^verbatim>\<open>freed\<close> is closed and replaced on each release: it is represented
  by the number of releases so far, and the channel a waiter read is closed once the number
  has grown. Owners are handles, identified by numbers.
\<close>

type_synonym handle = nat
type_synonym addr = nat

record pathLock =
  pl_owner :: "handle option"
  pl_waiters :: int
  pl_freed :: nat

record lockManager =
  lm_locks :: "string \<rightharpoonup> addr"
  lm_heap :: "addr \<Rightarrow> pathLock"
  lm_next :: addr

definition newLockManager :: lockManager where
  "newLockManager =
     \<lparr>lm_locks = Map.empty, lm_heap = (\<lambda>_. \<lparr>pl_owner = None, pl_waiters = 0, pl_freed = 0\<rparr>), lm_next = 0\<rparr>"

definition upd :: "addr \<Rightarrow> (pathLock \<Rightarrow> pathLock) \<Rightarrow> lockManager \<Rightarrow> lockManager" where
  "upd a f m = m\<lparr>lm_heap := (lm_heap m)(a := f (lm_heap m a))\<rparr>"

definition cleanupLocked :: "string \<Rightarrow> addr \<Rightarrow> lockManager \<Rightarrow> lockManager" where
  "cleanupLocked path a m =
     (if pl_owner (lm_heap m a) = None \<and> pl_waiters (lm_heap m a) = 0
      then m\<lparr>lm_locks := (lm_locks m)(path := None)\<rparr> else m)"

definition holds :: "string \<Rightarrow> handle \<Rightarrow> lockManager \<Rightarrow> bool" where
  "holds path owner m =
     (case lm_locks m path of None \<Rightarrow> False | Some a \<Rightarrow> pl_owner (lm_heap m a) = Some owner)"

definition releaseLocal :: "string \<Rightarrow> handle \<Rightarrow> lockManager \<Rightarrow> lockManager" where
  "releaseLocal path owner m =
     (case lm_locks m path of
        None \<Rightarrow> m
      | Some a \<Rightarrow>
          if pl_owner (lm_heap m a) \<noteq> Some owner then m
          else cleanupLocked path a
                 (upd a (\<lambda>e. e\<lparr>pl_owner := None, pl_freed := pl_freed e + 1\<rparr>) m))"

text \<open>
  One turn of the loop of \<^verbatim>\<open>acquireLocal\<close>, up to taking the lock or starting to wait. A
  waiter remembers the address and the channel.
\<close>

datatype turn = Fresh | Reentrant | MustWait addr nat

definition entry_for :: "string \<Rightarrow> lockManager \<Rightarrow> addr \<times> lockManager" where
  "entry_for path m =
     (case lm_locks m path of
        Some a \<Rightarrow> (a, m)
      | None \<Rightarrow>
          (lm_next m,
           m\<lparr>lm_locks := (lm_locks m)(path \<mapsto> lm_next m),
             lm_heap := (lm_heap m)(lm_next m := \<lparr>pl_owner = None, pl_waiters = 0, pl_freed = 0\<rparr>),
             lm_next := lm_next m + 1\<rparr>))"

definition acquireTurn :: "string \<Rightarrow> handle \<Rightarrow> lockManager \<Rightarrow> turn \<times> lockManager" where
  "acquireTurn path owner m0 =
     (case entry_for path m0 of
        (a, m) \<Rightarrow>
          (case pl_owner (lm_heap m a) of
             None \<Rightarrow> (Fresh, upd a (\<lambda>e. e\<lparr>pl_owner := Some owner\<rparr>) m)
           | Some o1 \<Rightarrow>
               if o1 = owner then (Reentrant, m)
               else (MustWait a (pl_freed (lm_heap m a)),
                     upd a (\<lambda>e. e\<lparr>pl_waiters := pl_waiters e + 1\<rparr>) m)))"

definition stopWaiting :: "addr \<Rightarrow> lockManager \<Rightarrow> lockManager" where
  "stopWaiting a m = upd a (\<lambda>e. e\<lparr>pl_waiters := pl_waiters e - 1\<rparr>) m"

section \<open>Methods, run alone\<close>

text \<open>
  \<^verbatim>\<open>Locker\<close>, the pluggable backend, over a world \<open>'w\<close>. Called by a single thread,
  \<^verbatim>\<open>lock\<close> returns, or blocks because another handle owns the path.
\<close>

record 'w Locker =
  ext_Lock :: "string \<Rightarrow> 'w \<Rightarrow> goerr option \<times> 'w"
  ext_Unlock :: "string \<Rightarrow> 'w \<Rightarrow> goerr option \<times> 'w"

datatype lockOutcome = Returns "goerr option" | Blocks

definition lockManager_lock ::
    "'w Locker option \<Rightarrow> string \<Rightarrow> handle \<Rightarrow> lockManager \<Rightarrow> 'w \<Rightarrow> lockOutcome \<times> lockManager \<times> 'w" where
  "lockManager_lock ext path owner m w =
     (case acquireTurn path owner m of
        (MustWait _ _, m1) \<Rightarrow> (Blocks, m1, w)
      | (Reentrant, m1) \<Rightarrow> (Returns None, m1, w)
      | (Fresh, m1) \<Rightarrow>
          (case ext of
             None \<Rightarrow> (Returns None, m1, w)
           | Some l \<Rightarrow>
               (case ext_Lock l path w of
                  (Some e, w1) \<Rightarrow> (Returns (Some e), releaseLocal path owner m1, w1)
                | (None, w1) \<Rightarrow> (Returns None, m1, w1))))"

definition lockManager_unlock ::
    "'w Locker option \<Rightarrow> string \<Rightarrow> handle \<Rightarrow> lockManager \<Rightarrow> 'w \<Rightarrow> goerr option \<times> lockManager \<times> 'w" where
  "lockManager_unlock ext path owner m w =
     (if \<not> holds path owner m then (None, m, w)
      else case ext of
             None \<Rightarrow> (None, releaseLocal path owner m, w)
           | Some l \<Rightarrow>
               (case ext_Unlock l path w of
                  (Some e, w1) \<Rightarrow> (Some e, m, w1)
                | (None, w1) \<Rightarrow> (None, releaseLocal path owner m, w1)))"

definition releaseOnClose ::
    "'w Locker option \<Rightarrow> string \<Rightarrow> handle \<Rightarrow> lockManager \<Rightarrow> 'w \<Rightarrow> lockManager \<times> 'w" where
  "releaseOnClose ext path owner m w =
     (if \<not> holds path owner m then (m, w)
      else case ext of
             None \<Rightarrow> (releaseLocal path owner m, w)
           | Some l \<Rightarrow> (case ext_Unlock l path w of (_, w1) \<Rightarrow> (releaseLocal path owner m, w1)))"

section \<open>Threads\<close>

text \<open>
  Where a thread is in a call of \<^verbatim>\<open>lock\<close>, \<^verbatim>\<open>unlock\<close> or \<^verbatim>\<open>releaseOnClose\<close> (the flag of
  the last two tells them apart): between two critical sections, or in a call of the backend.
\<close>

datatype pc =
    Idle
  | Enter string handle
  | Waiting string handle addr nat
  | ExtLocking string handle
  | Checking string handle bool
  | ExtUnlocking string handle bool
  | Releasing string handle

fun pc_owner :: "pc \<Rightarrow> handle option" where
  "pc_owner Idle = None"
| "pc_owner (Enter p h) = Some h"
| "pc_owner (Waiting p h a g) = Some h"
| "pc_owner (ExtLocking p h) = Some h"
| "pc_owner (Checking p h b) = Some h"
| "pc_owner (ExtUnlocking p h b) = Some h"
| "pc_owner (Releasing p h) = Some h"

text \<open>
  \<open>granted\<close> is a history variable: the paths and handles for which \<^verbatim>\<open>lock\<close> has returned
  \<^verbatim>\<open>nil\<close> and no release has been started since.
\<close>

record lstate =
  ls_lm :: lockManager
  ls_pc :: "nat \<Rightarrow> pc"
  ls_granted :: "(string \<times> handle) set"

definition linit :: lstate where
  "linit = \<lparr>ls_lm = newLockManager, ls_pc = (\<lambda>_. Idle), ls_granted = {}\<rparr>"

text \<open>What a thread does after a turn of the loop, with or without a backend.\<close>

definition after_turn :: "bool \<Rightarrow> nat \<Rightarrow> string \<Rightarrow> handle \<Rightarrow> turn \<times> lockManager \<Rightarrow> lstate \<Rightarrow> lstate" where
  "after_turn ext t p h r s =
     (case r of
        (Fresh, m) \<Rightarrow>
          if ext then s\<lparr>ls_lm := m, ls_pc := (ls_pc s)(t := ExtLocking p h)\<rparr>
          else s\<lparr>ls_lm := m, ls_pc := (ls_pc s)(t := Idle), ls_granted := insert (p, h) (ls_granted s)\<rparr>
      | (Reentrant, m) \<Rightarrow>
          s\<lparr>ls_lm := m, ls_pc := (ls_pc s)(t := Idle), ls_granted := insert (p, h) (ls_granted s)\<rparr>
      | (MustWait a g, m) \<Rightarrow> s\<lparr>ls_lm := m, ls_pc := (ls_pc s)(t := Waiting p h a g)\<rparr>)"

text \<open>
  The steps. \<open>ext\<close> tells whether a backend is configured, whose calls may succeed or fail.
  \<open>solo\<close> restricts the callers to use a handle from one thread at a time.
\<close>

definition may_call :: "bool \<Rightarrow> nat \<Rightarrow> handle \<Rightarrow> lstate \<Rightarrow> bool" where
  "may_call solo t h s \<longleftrightarrow> ls_pc s t = Idle \<and> (solo \<longrightarrow> (\<forall>u. pc_owner (ls_pc s u) \<noteq> Some h))"

inductive lstep :: "bool \<Rightarrow> bool \<Rightarrow> lstate \<Rightarrow> lstate \<Rightarrow> bool" for ext solo where
  call_lock: "may_call solo t h s \<Longrightarrow> lstep ext solo s (s\<lparr>ls_pc := (ls_pc s)(t := Enter p h)\<rparr>)"
| turn: "ls_pc s t = Enter p h \<Longrightarrow>
     lstep ext solo s (after_turn ext t p h (acquireTurn p h (ls_lm s)) s)"
| wake: "ls_pc s t = Waiting p h a g \<Longrightarrow> g < pl_freed (lm_heap (ls_lm s) a) \<Longrightarrow>
     lstep ext solo s (after_turn ext t p h (acquireTurn p h (stopWaiting a (ls_lm s))) s)"
| cancel: "ls_pc s t = Waiting p h a g \<Longrightarrow>
     lstep ext solo s (s\<lparr>ls_lm := cleanupLocked p a (stopWaiting a (ls_lm s)), ls_pc := (ls_pc s)(t := Idle)\<rparr>)"
| ext_ok: "ls_pc s t = ExtLocking p h \<Longrightarrow>
     lstep ext solo s (s\<lparr>ls_pc := (ls_pc s)(t := Idle), ls_granted := insert (p, h) (ls_granted s)\<rparr>)"
| ext_fail: "ls_pc s t = ExtLocking p h \<Longrightarrow>
     lstep ext solo s (s\<lparr>ls_lm := releaseLocal p h (ls_lm s), ls_pc := (ls_pc s)(t := Idle)\<rparr>)"
| call_unlock: "may_call solo t h s \<Longrightarrow>
     lstep ext solo s (s\<lparr>ls_pc := (ls_pc s)(t := Checking p h onClose),
                        ls_granted := ls_granted s - {(p, h)}\<rparr>)"
| check: "ls_pc s t = Checking p h onClose \<Longrightarrow>
     lstep ext solo s (s\<lparr>ls_pc := (ls_pc s)(t :=
       if \<not> holds p h (ls_lm s) then Idle
       else if ext then ExtUnlocking p h onClose else Releasing p h)\<rparr>)"
| unlock_ok: "ls_pc s t = ExtUnlocking p h onClose \<Longrightarrow>
     lstep ext solo s (s\<lparr>ls_pc := (ls_pc s)(t := Releasing p h)\<rparr>)"
| unlock_fail: "ls_pc s t = ExtUnlocking p h onClose \<Longrightarrow>
     lstep ext solo s
       (if onClose then s\<lparr>ls_pc := (ls_pc s)(t := Releasing p h)\<rparr>
        else s\<lparr>ls_pc := (ls_pc s)(t := Idle), ls_granted := insert (p, h) (ls_granted s)\<rparr>)"
| release: "ls_pc s t = Releasing p h \<Longrightarrow>
     lstep ext solo s (s\<lparr>ls_lm := releaseLocal p h (ls_lm s), ls_pc := (ls_pc s)(t := Idle)\<rparr>)"

inductive_cases lstepE: "lstep ext solo s s'"

abbreviation lreach :: "bool \<Rightarrow> bool \<Rightarrow> lstate \<Rightarrow> bool" where
  "lreach ext solo \<equiv> (lstep ext solo)\<^sup>*\<^sup>* linit"

section \<open>Bookkeeping of entries and waiters\<close>

fun waiting :: "pc \<Rightarrow> bool" where
  "waiting (Waiting p h a g) = True"
| "waiting _ = False"

definition waiters_on :: "(nat \<Rightarrow> pc) \<Rightarrow> string \<Rightarrow> addr \<Rightarrow> nat set" where
  "waiters_on pcs p a = {t. \<exists>h g. pcs t = Waiting p h a g}"

text \<open>
  Entries have distinct addresses; a waiter's entry is the one in the map, its channel is
  still open only while the lock is owned, and the entry counts its waiters; an entry nobody
  owns or awaits is gone, except for the path a critical section is working on.
\<close>

definition lock_inv :: "string option \<Rightarrow> lockManager \<Rightarrow> (nat \<Rightarrow> pc) \<Rightarrow> bool" where
  "lock_inv busy m pcs \<longleftrightarrow>
     (\<forall>p a. lm_locks m p = Some a \<longrightarrow> a < lm_next m) \<and>
     (\<forall>p q a. lm_locks m p = Some a \<longrightarrow> lm_locks m q = Some a \<longrightarrow> p = q) \<and>
     (\<forall>t p h a g. pcs t = Waiting p h a g \<longrightarrow>
        lm_locks m p = Some a \<and> g \<le> pl_freed (lm_heap m a) \<and>
        (g = pl_freed (lm_heap m a) \<longrightarrow> pl_owner (lm_heap m a) \<noteq> None)) \<and>
     (\<forall>p a. lm_locks m p = Some a \<longrightarrow> pl_waiters (lm_heap m a) = int (card (waiters_on pcs p a))) \<and>
     (\<forall>p a. lm_locks m p = Some a \<longrightarrow> Some p \<noteq> busy \<longrightarrow>
        pl_owner (lm_heap m a) \<noteq> None \<or> pl_waiters (lm_heap m a) > 0) \<and>
     finite {t. pcs t \<noteq> Idle}"

lemma finite_waiters: "finite {t. pcs t \<noteq> Idle} \<Longrightarrow> finite (waiters_on pcs p a)"
  by (rule finite_subset) (auto simp: waiters_on_def)

lemma finite_active_upd: "finite {t. pcs t \<noteq> Idle} \<Longrightarrow> finite {u. (pcs(t := x)) u \<noteq> Idle}"
  by (rule finite_subset [of _ "insert t {t. pcs t \<noteq> Idle}"]) auto

lemma waiters_on_same: "\<not> waiting (pcs t) \<Longrightarrow> \<not> waiting x \<Longrightarrow> waiters_on (pcs(t := x)) p a = waiters_on pcs p a"
  by (auto simp: waiters_on_def)

lemma waiters_on_stop:
  "pcs t = Waiting p h a g \<Longrightarrow> \<not> waiting x \<Longrightarrow>
     waiters_on (pcs(t := x)) q b = (if q = p \<and> b = a then waiters_on pcs p a - {t} else waiters_on pcs q b)"
  by (auto simp: waiters_on_def)

lemma waiters_on_start:
  "\<not> waiting (pcs t) \<Longrightarrow>
     waiters_on (pcs(t := Waiting p h a g)) q b =
       (if q = p \<and> b = a then insert t (waiters_on pcs p a) else waiters_on pcs q b)"
  by (auto simp: waiters_on_def)

lemma lock_invI:
  assumes "\<And>p a. lm_locks m p = Some a \<Longrightarrow> a < lm_next m"
    "\<And>p q a. lm_locks m p = Some a \<Longrightarrow> lm_locks m q = Some a \<Longrightarrow> p = q"
    "\<And>t p h a g. pcs t = Waiting p h a g \<Longrightarrow>
        lm_locks m p = Some a \<and> g \<le> pl_freed (lm_heap m a) \<and>
        (g = pl_freed (lm_heap m a) \<longrightarrow> pl_owner (lm_heap m a) \<noteq> None)"
    "\<And>p a. lm_locks m p = Some a \<Longrightarrow> pl_waiters (lm_heap m a) = int (card (waiters_on pcs p a))"
    "\<And>p a. lm_locks m p = Some a \<Longrightarrow> Some p \<noteq> busy \<Longrightarrow>
        pl_owner (lm_heap m a) \<noteq> None \<or> pl_waiters (lm_heap m a) > 0"
    "finite {t. pcs t \<noteq> Idle}"
  shows "lock_inv busy m pcs"
  unfolding lock_inv_def using assms by blast

lemma lock_invD:
  assumes "lock_inv busy m pcs"
  shows "lm_locks m p = Some a \<Longrightarrow> a < lm_next m"
    and "lm_locks m p = Some a \<Longrightarrow> lm_locks m q = Some a \<Longrightarrow> p = q"
    and "pcs t = Waiting p h a g \<Longrightarrow>
        lm_locks m p = Some a \<and> g \<le> pl_freed (lm_heap m a) \<and>
        (g = pl_freed (lm_heap m a) \<longrightarrow> pl_owner (lm_heap m a) \<noteq> None)"
    and "lm_locks m p = Some a \<Longrightarrow> pl_waiters (lm_heap m a) = int (card (waiters_on pcs p a))"
    and "finite {t. pcs t \<noteq> Idle}"
  using assms unfolding lock_inv_def by blast+

lemma lock_inv_live:
  "lock_inv b m pcs \<Longrightarrow> lm_locks m p = Some a \<Longrightarrow> Some p \<noteq> b \<Longrightarrow>
     pl_owner (lm_heap m a) \<noteq> None \<or> pl_waiters (lm_heap m a) > 0"
  unfolding lock_inv_def by blast

lemma lock_inv_busy: "lock_inv None m pcs \<Longrightarrow> lock_inv (Some p) m pcs"
  unfolding lock_inv_def by blast

lemma lock_inv_pc:
  assumes inv: "lock_inv b m pcs" and x: "\<not> waiting (pcs t)" "\<not> waiting x"
  shows "lock_inv b m (pcs(t := x))"
proof (rule lock_invI)
  fix u p h a g assume "(pcs(t := x)) u = Waiting p h a g"
  then have "pcs u = Waiting p h a g" using x(2) by (auto split: if_splits)
  then show "lm_locks m p = Some a \<and> g \<le> pl_freed (lm_heap m a) \<and>
      (g = pl_freed (lm_heap m a) \<longrightarrow> pl_owner (lm_heap m a) \<noteq> None)"
    by (rule lock_invD(3) [OF inv])
qed (use lock_invD(1,2,4) [OF inv] lock_inv_live [OF inv] finite_active_upd [OF lock_invD(5) [OF inv]]
       waiters_on_same [of pcs t x, OF x] in auto)

lemma lock_inv_stop:
  assumes inv: "lock_inv None m pcs" and w: "pcs t = Waiting p h a g" and x: "\<not> waiting x"
  shows "lock_inv (Some p) (stopWaiting a m) (pcs(t := x))" and "lm_locks m p = Some a"
proof -
  show p: "lm_locks m p = Some a" using lock_invD(3) [OF inv w] by simp
  have fin: "finite (waiters_on pcs p a)" using finite_waiters [OF lock_invD(5) [OF inv]] .
  have t: "t \<in> waiters_on pcs p a" using w by (auto simp: waiters_on_def)
  then have card: "int (card (waiters_on pcs p a - {t})) = int (card (waiters_on pcs p a)) - 1"
    using fin card_gt_0_iff [of "waiters_on pcs p a"] by (auto simp: card_Diff_singleton)
  have uniq: "q = p" if "lm_locks m q = Some a" for q by (rule lock_invD(2) [OF inv that p])
  have frame: "pl_owner (lm_heap (stopWaiting a m) b) = pl_owner (lm_heap m b)"
    "pl_freed (lm_heap (stopWaiting a m) b) = pl_freed (lm_heap m b)"
    "lm_locks (stopWaiting a m) = lm_locks m" "lm_next (stopWaiting a m) = lm_next m"
    "pl_waiters (lm_heap (stopWaiting a m) b) = pl_waiters (lm_heap m b) - (if b = a then 1 else 0)" for b
    by (auto simp: stopWaiting_def upd_def)
  show "lock_inv (Some p) (stopWaiting a m) (pcs(t := x))"
  proof (rule lock_invI; (unfold frame(1-4))?)
    fix u q h' b g' assume "(pcs(t := x)) u = Waiting q h' b g'"
    then have "pcs u = Waiting q h' b g'" using x by (auto split: if_splits)
    then show "lm_locks m q = Some b \<and> g' \<le> pl_freed (lm_heap m b) \<and>
        (g' = pl_freed (lm_heap m b) \<longrightarrow> pl_owner (lm_heap m b) \<noteq> None)"
      by (rule lock_invD(3) [OF inv])
  next
    fix q b assume q: "lm_locks m q = Some b"
    then have "b = a \<Longrightarrow> q = p" using uniq by simp
    then show "pl_waiters (lm_heap (stopWaiting a m) b) = int (card (waiters_on (pcs(t := x)) q b))"
      using lock_invD(4) [OF inv q] card
      unfolding waiters_on_stop [of pcs t p h a g x, OF w x] frame(5) by auto
  next
    fix q b assume q: "lm_locks m q = Some b" "Some q \<noteq> Some p"
    then have "b \<noteq> a" using uniq by auto
    then show "pl_owner (lm_heap m b) \<noteq> None \<or> 0 < pl_waiters (lm_heap (stopWaiting a m) b)"
      using lock_inv_live [OF inv q(1)] frame(5) [of b] by simp
  next
    show "finite {u. (pcs(t := x)) u \<noteq> Idle}" by (rule finite_active_upd [OF lock_invD(5) [OF inv]])
  qed (use lock_invD(1,2) [OF inv] in auto)
qed

lemma lock_inv_cleanup:
  assumes inv: "lock_inv (Some p) m pcs" and p: "lm_locks m p = Some a"
  shows "lock_inv None (cleanupLocked p a m) pcs"
proof (cases "pl_owner (lm_heap m a) = None \<and> pl_waiters (lm_heap m a) = 0")
  case True
  have "finite (waiters_on pcs p a)" by (rule finite_waiters [OF lock_invD(5) [OF inv]])
  then have none: "waiters_on pcs p a = {}" using True lock_invD(4) [OF inv p] by simp
  have nw: "pcs t = Waiting q h b g \<Longrightarrow> q \<noteq> p" for t q h b g
    using lock_invD(3) [OF inv, of t p h b g] p none by (auto simp: waiters_on_def)
  let ?m = "m\<lparr>lm_locks := (lm_locks m)(p := None)\<rparr>"
  have loc: "lm_locks ?m q = Some b \<longleftrightarrow> lm_locks m q = Some b \<and> q \<noteq> p" for q b by auto
  have "lock_inv None ?m pcs"
  proof (rule lock_invI; (unfold loc)?)
    fix t q h b g assume w: "pcs t = Waiting q h b g"
    show "(lm_locks m q = Some b \<and> q \<noteq> p) \<and> g \<le> pl_freed (lm_heap ?m b) \<and>
        (g = pl_freed (lm_heap ?m b) \<longrightarrow> pl_owner (lm_heap ?m b) \<noteq> None)"
      using lock_invD(3) [OF inv w] nw [OF w] by simp
  next
    fix q b assume "lm_locks m q = Some b \<and> q \<noteq> p"
    then show "pl_owner (lm_heap ?m b) \<noteq> None \<or> 0 < pl_waiters (lm_heap ?m b)"
      using lock_inv_live [OF inv, of q b] by simp
  qed (use lock_invD(1,2,4,5) [OF inv] in auto)
  then show ?thesis using True by (simp add: cleanupLocked_def)
next
  case False
  have "pl_waiters (lm_heap m a) \<ge> 0" using lock_invD(4) [OF inv p] by simp
  then have ok: "pl_owner (lm_heap m a) \<noteq> None \<or> pl_waiters (lm_heap m a) > 0" using False by auto
  have "lock_inv None m pcs"
  proof (rule lock_invI)
    fix q b assume "lm_locks m q = Some b" "Some q \<noteq> None"
    then show "pl_owner (lm_heap m b) \<noteq> None \<or> 0 < pl_waiters (lm_heap m b)"
      using ok p lock_inv_live [OF inv, of q b] by (cases "q = p") auto
  qed (use lock_invD [OF inv] in auto)
  moreover have "cleanupLocked p a m = m" using False by (auto simp: cleanupLocked_def)
  ultimately show ?thesis by simp
qed

lemma lock_inv_release:
  assumes inv: "lock_inv None m pcs"
  shows "lock_inv None (releaseLocal p h m) pcs"
proof (cases "\<exists>a. lm_locks m p = Some a \<and> pl_owner (lm_heap m a) = Some h")
  case True
  then obtain a where a: "lm_locks m p = Some a" "pl_owner (lm_heap m a) = Some h" by blast
  let ?m = "upd a (\<lambda>e. e\<lparr>pl_owner := None, pl_freed := pl_freed e + 1\<rparr>) m"
  have uniq: "q = p" if "lm_locks m q = Some a" for q by (rule lock_invD(2) [OF inv that a(1)])
  have frame: "lm_locks ?m = lm_locks m" "lm_next ?m = lm_next m"
      "pl_waiters (lm_heap ?m b) = pl_waiters (lm_heap m b)"
      "b \<noteq> a \<Longrightarrow> lm_heap ?m b = lm_heap m b" "pl_freed (lm_heap ?m a) = pl_freed (lm_heap m a) + 1" for b
    by (auto simp: upd_def)
  have "lock_inv (Some p) ?m pcs"
  proof (rule lock_invI; (unfold frame(1-3))?)
    fix q b assume q: "lm_locks m q = Some b" "Some q \<noteq> Some p"
    then have "b \<noteq> a" using uniq by auto
    then show "pl_owner (lm_heap ?m b) \<noteq> None \<or> 0 < pl_waiters (lm_heap m b)"
      using lock_inv_live [OF inv, of q b] q frame(4) by simp
  next
    fix t q h' b g assume w: "pcs t = Waiting q h' b g"
    show "lm_locks m q = Some b \<and> g \<le> pl_freed (lm_heap ?m b) \<and>
        (g = pl_freed (lm_heap ?m b) \<longrightarrow> pl_owner (lm_heap ?m b) \<noteq> None)"
      using lock_invD(3) [OF inv w] frame(4,5) by (cases "b = a") auto
  qed (use lock_invD(1,2,4,5) [OF inv] in auto)
  then have "lock_inv None (cleanupLocked p a ?m) pcs" by (rule lock_inv_cleanup) (simp add: upd_def a)
  then show ?thesis using a by (simp add: releaseLocal_def)
next
  case False
  then show ?thesis using inv by (auto simp: releaseLocal_def split: option.splits)
qed

lemma lock_inv_entry:
  assumes inv: "lock_inv (Some p) m pcs" and e: "entry_for p m = (a, m')"
  shows "lock_inv (Some p) m' pcs" and "lm_locks m' p = Some a"
proof -
  have "lock_inv (Some p) m' pcs \<and> lm_locks m' p = Some a"
  proof (cases "lm_locks m p")
    case None
    have low: "lm_locks m q = Some b \<Longrightarrow> b < lm_next m" for q b using lock_invD(1) [OF inv] .
    have nw: "q \<noteq> p \<and> b < lm_next m" if "pcs t = Waiting q h b g" for t q h b g
      using lock_invD(3) [OF inv that] None low by auto
    have none: "waiters_on pcs p (lm_next m) = {}" using nw by (fastforce simp: waiters_on_def)
    have m': "m' = m\<lparr>lm_locks := (lm_locks m)(p \<mapsto> lm_next m),
        lm_heap := (lm_heap m)(lm_next m := \<lparr>pl_owner = None, pl_waiters = 0, pl_freed = 0\<rparr>),
        lm_next := lm_next m + 1\<rparr>" and a: "a = lm_next m"
      using e None by (auto simp: entry_for_def)
    have old: "(q = p \<and> b = lm_next m) \<or> (lm_locks m q = Some b \<and> b < lm_next m \<and> lm_heap m' b = lm_heap m b)"
      if "lm_locks m' q = Some b" for q b
      using that m' low [of q b] by (auto split: if_splits)
    have "lock_inv (Some p) m' pcs"
    proof (rule lock_invI)
      fix q b assume q: "lm_locks m' q = Some b"
      show "b < lm_next m'" using old [OF q] m' by auto
      show "pl_waiters (lm_heap m' b) = int (card (waiters_on pcs q b))"
        using old [OF q] lock_invD(4) [OF inv, of q b] none m' by auto
      show "pl_owner (lm_heap m' b) \<noteq> None \<or> 0 < pl_waiters (lm_heap m' b)" if "Some q \<noteq> Some p"
        using old [OF q] lock_inv_live [OF inv, of q b] that by auto
      fix r assume "lm_locks m' r = Some b"
      then show "q = r" using old [OF q] old [of r b] lock_invD(2) [OF inv] by auto
    next
      fix t q h b g assume w: "pcs t = Waiting q h b g"
      show "lm_locks m' q = Some b \<and> g \<le> pl_freed (lm_heap m' b) \<and>
          (g = pl_freed (lm_heap m' b) \<longrightarrow> pl_owner (lm_heap m' b) \<noteq> None)"
        using nw [OF w] lock_invD(3) [OF inv w] m' by simp
    qed (rule lock_invD(5) [OF inv])
    then show ?thesis using m' a by simp
  next
    case (Some b)
    then show ?thesis using e inv by (simp add: entry_for_def)
  qed
  then show "lock_inv (Some p) m' pcs" "lm_locks m' p = Some a" by auto
qed

text \<open>The pc a thread has after a turn.\<close>

definition turn_pc :: "bool \<Rightarrow> string \<Rightarrow> handle \<Rightarrow> turn \<Rightarrow> pc" where
  "turn_pc ext p h r =
     (case r of Fresh \<Rightarrow> if ext then ExtLocking p h else Idle | Reentrant \<Rightarrow> Idle | MustWait a g \<Rightarrow> Waiting p h a g)"

lemma lock_inv_turn:
  assumes inv: "lock_inv (Some p) m pcs" and t: "\<not> waiting (pcs t)" and r: "acquireTurn p h m = (r, m')"
  shows "lock_inv None m' (pcs(t := turn_pc ext p h r))"
proof -
  obtain a m1 where e: "entry_for p m = (a, m1)" by (cases "entry_for p m")
  note inv1 = lock_inv_entry(1) [OF inv e] and a = lock_inv_entry(2) [OF inv e]
  have uniq: "q = p" if "lm_locks m1 q = Some a" for q by (rule lock_invD(2) [OF inv1 that a])
  have clean: "lock_inv None m2 pcs" if m2: "lock_inv (Some p) m2 pcs" "lm_locks m2 = lm_locks m1"
      "pl_owner (lm_heap m2 a) \<noteq> None" for m2
  proof (rule lock_invI)
    fix q b assume "lm_locks m2 q = Some b" "Some q \<noteq> None"
    then show "pl_owner (lm_heap m2 b) \<noteq> None \<or> 0 < pl_waiters (lm_heap m2 b)"
      using m2 a lock_inv_live [OF m2(1), of q b] by (cases "q = p") auto
  qed (use lock_invD [OF m2(1)] in auto)
  show ?thesis
  proof (cases "pl_owner (lm_heap m1 a)")
    case None
    let ?m = "upd a (\<lambda>e. e\<lparr>pl_owner := Some h\<rparr>) m1"
    have "lock_inv (Some p) ?m pcs"
      by (rule lock_invI)
         (use lock_invD [OF inv1] lock_inv_live [OF inv1] in \<open>auto simp: upd_def\<close>)
    then have "lock_inv None ?m pcs" by (rule clean) (simp_all add: upd_def)
    then show ?thesis
      using r e None t lock_inv_pc by (auto simp: acquireTurn_def turn_pc_def)
  next
    case (Some o1)
    show ?thesis
    proof (cases "o1 = h")
      case True
      have "lock_inv None m1 pcs" by (rule clean [OF inv1]) (simp_all add: Some)
      then show ?thesis using r e Some True t lock_inv_pc by (auto simp: acquireTurn_def turn_pc_def)
    next
      case False
      let ?g = "pl_freed (lm_heap m1 a)"
      let ?m = "upd a (\<lambda>e. e\<lparr>pl_waiters := pl_waiters e + 1\<rparr>) m1"
      let ?pcs = "pcs(t := Waiting p h a ?g)"
      have frame: "lm_locks ?m = lm_locks m1" "lm_next ?m = lm_next m1"
          "pl_owner (lm_heap ?m b) = pl_owner (lm_heap m1 b)" "pl_freed (lm_heap ?m b) = pl_freed (lm_heap m1 b)"
          "pl_waiters (lm_heap ?m b) = pl_waiters (lm_heap m1 b) + (if b = a then 1 else 0)" for b
        by (auto simp: upd_def)
      have fin: "finite (waiters_on pcs p a)" by (rule finite_waiters [OF lock_invD(5) [OF inv1]])
      have new: "t \<notin> waiters_on pcs p a" using t by (auto simp: waiters_on_def)
      have "lock_inv None ?m ?pcs"
      proof (rule lock_invI; (unfold frame(1-4))?)
        fix u q h' b g assume w: "?pcs u = Waiting q h' b g"
        show "lm_locks m1 q = Some b \<and> g \<le> pl_freed (lm_heap m1 b) \<and>
            (g = pl_freed (lm_heap m1 b) \<longrightarrow> pl_owner (lm_heap m1 b) \<noteq> None)"
          using w a Some lock_invD(3) [OF inv1, of u q h' b g] by (auto split: if_splits)
      next
        fix q b assume q: "lm_locks m1 q = Some b"
        then have "b = a \<Longrightarrow> q = p" using uniq by simp
        then show "pl_waiters (lm_heap ?m b) = int (card (waiters_on ?pcs q b))"
          using lock_invD(4) [OF inv1 q] fin new
          unfolding waiters_on_start [of pcs t, OF t] frame(5) by auto
        show "pl_owner (lm_heap m1 b) \<noteq> None \<or> 0 < pl_waiters (lm_heap ?m b)"
          using lock_inv_live [OF inv1 q] frame(5) [of b] Some a q by (cases "q = p") auto
      qed (use lock_invD(1,2) [OF inv1] finite_active_upd [OF lock_invD(5) [OF inv1]] in auto)
      then show ?thesis using r e Some False by (auto simp: acquireTurn_def turn_pc_def)
    qed
  qed
qed

lemma after_turn_simps:
  "ls_lm (after_turn ext t p h (r, m) s) = m"
  "ls_pc (after_turn ext t p h (r, m) s) = (ls_pc s)(t := turn_pc ext p h r)"
  "ls_granted (after_turn ext t p h (r, m) s) =
     (if r = Reentrant \<or> (r = Fresh \<and> \<not> ext) then insert (p, h) (ls_granted s) else ls_granted s)"
  by (auto simp: after_turn_def turn_pc_def split: turn.split)

lemma lock_inv_step:
  assumes "lstep ext solo s s'" "lock_inv None (ls_lm s) (ls_pc s)"
  shows "lock_inv None (ls_lm s') (ls_pc s')"
  using assms
proof (induction rule: lstep.induct)
  case (turn s t p h)
  obtain r m where r: "acquireTurn p h (ls_lm s) = (r, m)" by (cases "acquireTurn p h (ls_lm s)")
  have "lock_inv None m ((ls_pc s)(t := turn_pc ext p h r))"
    using turn by (intro lock_inv_turn [OF lock_inv_busy _ r]) auto
  then show ?case unfolding r after_turn_simps .
next
  case (wake s t p h a g)
  have "lock_inv (Some p) (stopWaiting a (ls_lm s)) ((ls_pc s)(t := Idle))"
    using lock_inv_stop(1) [OF wake(3,1), of Idle] by simp
  moreover obtain r m where r: "acquireTurn p h (stopWaiting a (ls_lm s)) = (r, m)"
    by (cases "acquireTurn p h (stopWaiting a (ls_lm s))")
  ultimately have "lock_inv None m ((ls_pc s)(t := Idle, t := turn_pc ext p h r))"
    by (intro lock_inv_turn [OF _ _ r]) simp_all
  then show ?case unfolding r after_turn_simps fun_upd_upd .
next
  case (cancel s t p h a g)
  have "lock_inv (Some p) (stopWaiting a (ls_lm s)) ((ls_pc s)(t := Idle))" "lm_locks (ls_lm s) p = Some a"
    using lock_inv_stop [OF cancel(2,1), of Idle] by simp_all
  then have "lock_inv None (cleanupLocked p a (stopWaiting a (ls_lm s))) ((ls_pc s)(t := Idle))"
    by (intro lock_inv_cleanup) (simp_all add: stopWaiting_def upd_def)
  then show ?case by (simp add: fun_upd_def)
qed (auto simp: may_call_def intro!: lock_inv_pc lock_inv_release)

lemma lock_inv_init: "lock_inv None (ls_lm linit) (ls_pc linit)"
  by (rule lock_invI) (simp_all add: linit_def newLockManager_def)

lemma lock_inv_reach: "lreach ext solo s \<Longrightarrow> lock_inv None (ls_lm s) (ls_pc s)"
  by (induction rule: rtranclp_induct) (auto intro: lock_inv_init lock_inv_step)

section \<open>Ownership\<close>

definition owner_at :: "lockManager \<Rightarrow> string \<Rightarrow> handle option" where
  "owner_at m p = (case lm_locks m p of None \<Rightarrow> None | Some a \<Rightarrow> pl_owner (lm_heap m a))"

lemma owner_at_cleanup:
  "lm_locks m p = Some a \<Longrightarrow> owner_at (cleanupLocked p a m) q = owner_at m q"
  by (auto simp: owner_at_def cleanupLocked_def split: option.split)

lemma owner_at_stop: "owner_at (stopWaiting a m) q = owner_at m q"
  by (auto simp: owner_at_def stopWaiting_def upd_def split: option.split)

lemma owner_at_release:
  assumes "lock_inv b m pcs"
  shows "owner_at (releaseLocal p h m) q = (if q = p \<and> owner_at m p = Some h then None else owner_at m q)"
proof (cases "lm_locks m p")
  case (Some a)
  let ?m = "upd a (\<lambda>e. e\<lparr>pl_owner := None, pl_freed := pl_freed e + 1\<rparr>) m"
  have uniq: "q = p" if "lm_locks m q = Some a" for q by (rule lock_invD(2) [OF assms that Some])
  have "owner_at ?m q = (if q = p then None else owner_at m q)"
  proof (cases "lm_locks m q")
    case (Some b)
    then show ?thesis using uniq [of q] \<open>lm_locks m p = Some a\<close>
      by (cases "b = a") (auto simp: owner_at_def upd_def)
  qed (use Some in \<open>auto simp: owner_at_def upd_def\<close>)
  moreover have "owner_at (cleanupLocked p a ?m) q = owner_at ?m q"
    by (rule owner_at_cleanup) (simp add: upd_def Some)
  moreover have "owner_at m p = pl_owner (lm_heap m a)" using Some by (simp add: owner_at_def)
  ultimately show ?thesis using Some by (cases "q = p") (simp_all add: releaseLocal_def)
qed (simp add: releaseLocal_def owner_at_def)

lemma owner_at_turn:
  assumes inv: "lock_inv (Some p) m pcs" and r: "acquireTurn p h m = (r, m')"
  shows "owner_at m' q = (if q = p \<and> r = Fresh then Some h else owner_at m q)"
    and "r = Fresh \<longleftrightarrow> owner_at m p = None" and "r = Reentrant \<longleftrightarrow> owner_at m p = Some h"
proof -
  obtain a m1 where e: "entry_for p m = (a, m1)" by (cases "entry_for p m")
  note inv1 = lock_inv_entry(1) [OF inv e] and a = lock_inv_entry(2) [OF inv e]
  have uniq: "lm_locks m1 q = Some a \<Longrightarrow> q = p" for q using lock_invD(2) [OF inv1 _ a] by blast
  have same: "owner_at m1 q = owner_at m q" for q
    using e lock_invD(1) [OF inv, of q]
    by (auto simp: entry_for_def owner_at_def split: option.splits if_splits)
  have own: "owner_at m p = pl_owner (lm_heap m1 a)" using same [of p] a by (simp add: owner_at_def)
  show rs: "r = Fresh \<longleftrightarrow> owner_at m p = None" "r = Reentrant \<longleftrightarrow> owner_at m p = Some h"
    using r e unfolding own by (auto simp: acquireTurn_def split: option.splits if_splits)
  have u: "owner_at (upd a f m1) q = (if q = p then pl_owner (f (lm_heap m1 a)) else owner_at m1 q)" for f
    using a uniq [of q] by (cases "lm_locks m1 q") (auto simp: owner_at_def upd_def)
  show "owner_at m' q = (if q = p \<and> r = Fresh then Some h else owner_at m q)"
  proof (cases "pl_owner (lm_heap m1 a)")
    case None
    then show ?thesis using r e u same [of q] by (auto simp: acquireTurn_def)
  next
    case (Some o1)
    then show ?thesis using r e u same [of q] own
      by (cases "o1 = h"; cases "q = p") (auto simp: acquireTurn_def)
  qed
qed

lemma holds_owner_at: "holds p h m \<longleftrightarrow> owner_at m p = Some h"
  by (simp add: holds_def owner_at_def split: option.split)

text \<open>
  With handles used from one thread at a time: what is granted is owned, a thread that calls
  the backend or is about to release owns its path, and its grant is suspended meanwhile.
\<close>

fun pc_holds :: "pc \<Rightarrow> (string \<times> handle) option" where
  "pc_holds (ExtLocking p h) = Some (p, h)"
| "pc_holds (ExtUnlocking p h b) = Some (p, h)"
| "pc_holds (Releasing p h) = Some (p, h)"
| "pc_holds _ = None"

fun pc_suspends :: "pc \<Rightarrow> (string \<times> handle) option" where
  "pc_suspends (Checking p h b) = Some (p, h)"
| "pc_suspends x = pc_holds x"

definition solo_inv :: "lstate \<Rightarrow> bool" where
  "solo_inv s \<longleftrightarrow>
     (\<forall>p h. (p, h) \<in> ls_granted s \<longrightarrow> owner_at (ls_lm s) p = Some h) \<and>
     (\<forall>t p h. pc_holds (ls_pc s t) = Some (p, h) \<longrightarrow> owner_at (ls_lm s) p = Some h) \<and>
     (\<forall>t u h. pc_owner (ls_pc s t) = Some h \<longrightarrow> pc_owner (ls_pc s u) = Some h \<longrightarrow> t = u) \<and>
     (\<forall>t p h. pc_suspends (ls_pc s t) = Some (p, h) \<longrightarrow> (p, h) \<notin> ls_granted s)"

lemma pc_holds_suspends: "pc_holds x = Some ph \<Longrightarrow> pc_suspends x = Some ph"
  by (cases x) auto

lemma pc_suspends_owner: "pc_suspends x = Some (p, h) \<Longrightarrow> pc_owner x = Some h"
  by (cases x) auto

lemma solo_invD:
  assumes "solo_inv s"
  shows "(p, h) \<in> ls_granted s \<Longrightarrow> owner_at (ls_lm s) p = Some h"
    and "pc_holds (ls_pc s t) = Some (p, h) \<Longrightarrow> owner_at (ls_lm s) p = Some h"
    and "pc_owner (ls_pc s t) = Some h \<Longrightarrow> pc_owner (ls_pc s u) = Some h \<Longrightarrow> t = u"
    and "pc_suspends (ls_pc s t) = Some (p, h) \<Longrightarrow> (p, h) \<notin> ls_granted s"
  using assms unfolding solo_inv_def by blast+

text \<open>
  A step of thread \<open>t\<close>: ownership changes only where there was no owner, or where \<open>t\<close>
  gives up a lock whose grant it has suspended.
\<close>

lemma solo_inv_upd:
  assumes inv: "solo_inv s" and pc: "ls_pc s' = (ls_pc s)(t := x)"
    and own: "\<And>h u. pc_owner x = Some h \<Longrightarrow>
        pc_owner (ls_pc s t) = Some h \<or> pc_owner (ls_pc s u) \<noteq> Some h"
    and hold: "\<And>p h. pc_holds x = Some (p, h) \<Longrightarrow> owner_at (ls_lm s') p = Some h"
    and keep: "\<And>q h. owner_at (ls_lm s) q = Some h \<Longrightarrow>
        owner_at (ls_lm s') q = Some h \<or> pc_suspends (ls_pc s t) = Some (q, h)"
    and gr: "\<And>p h. (p, h) \<in> ls_granted s' \<Longrightarrow>
        (p, h) \<in> ls_granted s \<or> (owner_at (ls_lm s') p = Some h \<and> pc_owner (ls_pc s t) = Some h)"
    and sus: "\<And>p h. pc_suspends x = Some (p, h) \<Longrightarrow> (p, h) \<notin> ls_granted s'"
  shows "solo_inv s'"
proof -
  note D = solo_invD [OF inv]
  have a: "owner_at (ls_lm s') p = Some h" if "(p, h) \<in> ls_granted s'" for p h
    using gr [OF that] D(1) D(4) keep by blast
  have b: "owner_at (ls_lm s') p = Some h" if "pc_holds (ls_pc s' u) = Some (p, h)" for u p h
  proof (cases "u = t")
    case False
    then have u: "pc_holds (ls_pc s u) = Some (p, h)" using that pc by simp
    have "pc_suspends (ls_pc s t) \<noteq> Some (p, h)"
      using D(3) [of t h u] pc_suspends_owner pc_holds_suspends [OF u] False by blast
    then show ?thesis using keep [OF D(2) [OF u]] by simp
  qed (use that pc hold in simp)
  have c: "u = v" if "pc_owner (ls_pc s' u) = Some h" "pc_owner (ls_pc s' v) = Some h" for u v h
    using that pc own [of h u] own [of h v] D(3) [of u h v] D(3) [of t h v] D(3) [of u h t]
    by (auto split: if_splits)
  have d: "(p, h) \<notin> ls_granted s'" if "pc_suspends (ls_pc s' u) = Some (p, h)" for u p h
  proof (cases "u = t")
    case False
    then have u: "pc_suspends (ls_pc s u) = Some (p, h)" using that pc by simp
    then have "pc_owner (ls_pc s t) \<noteq> Some h" using D(3) [of t h u] pc_suspends_owner False by blast
    then show ?thesis using gr [of p h] D(4) [OF u] by blast
  qed (use that pc sus in simp)
  show ?thesis unfolding solo_inv_def using a b c d by blast
qed

lemma solo_inv_turn:
  assumes inv: "solo_inv s" and m: "\<And>q. owner_at m q = owner_at (ls_lm s) q" "lock_inv (Some p) m pcs"
    and t: "pc_owner (ls_pc s t) = Some h" "pc_suspends (ls_pc s t) = None"
  shows "solo_inv (after_turn ext t p h (acquireTurn p h m) s)"
proof -
  obtain r m' where r: "acquireTurn p h m = (r, m')" by (cases "acquireTurn p h m")
  note o' = owner_at_turn [OF m(2) r, unfolded m(1)]
  show ?thesis
    unfolding r
  proof (rule solo_inv_upd [OF inv after_turn_simps(2)], unfold after_turn_simps)
    fix h' u assume "pc_owner (turn_pc ext p h r) = Some h'"
    then show "pc_owner (ls_pc s t) = Some h' \<or> pc_owner (ls_pc s u) \<noteq> Some h'"
      using t by (auto simp: turn_pc_def split: turn.splits if_splits)
  next
    fix p' h' assume "pc_holds (turn_pc ext p h r) = Some (p', h')"
    then show "owner_at m' p' = Some h'"
      using o'(1) by (auto simp: turn_pc_def split: turn.splits if_splits)
  next
    fix q h' assume "owner_at (ls_lm s) q = Some h'"
    then show "owner_at m' q = Some h' \<or> pc_suspends (ls_pc s t) = Some (q, h')"
      using o'(1) [of q] o'(2) by (auto split: if_splits)
  next
    fix p' h' assume "(p', h') \<in> (if r = Reentrant \<or> r = Fresh \<and> \<not> ext
        then insert (p, h) (ls_granted s) else ls_granted s)"
    then show "(p', h') \<in> ls_granted s \<or> owner_at m' p' = Some h' \<and> pc_owner (ls_pc s t) = Some h'"
      using o' t by (auto split: if_splits)
  next
    fix p' h' assume x: "pc_suspends (turn_pc ext p h r) = Some (p', h')"
    then have "r = Fresh" "ext" "p' = p" "h' = h"
      by (auto simp: turn_pc_def split: turn.splits if_splits)
    moreover have "(p, h) \<notin> ls_granted s" using solo_invD(1) [OF inv, of p h] o'(2) \<open>r = Fresh\<close> by auto
    ultimately show "(p', h') \<notin> (if r = Reentrant \<or> r = Fresh \<and> \<not> ext
        then insert (p, h) (ls_granted s) else ls_granted s)" by simp
  qed
qed

lemma solo_inv_step:
  assumes "lstep ext True s s'" "lock_inv None (ls_lm s) (ls_pc s)" "solo_inv s"
  shows "solo_inv s'"
  using assms
proof (induction rule: lstep.induct)
  case (call_lock t h s p)
  show ?case
    by (rule solo_inv_upd [OF call_lock(3), where t = t and x = "Enter p h"])
       (use call_lock in \<open>auto simp: may_call_def\<close>)
next
  case (turn s t p h)
  show ?case
    by (rule solo_inv_turn [OF turn(3) refl lock_inv_busy [OF turn(2)]]) (simp_all add: turn(1))
next
  case (wake s t p h a g)
  show ?case
    by (rule solo_inv_turn [OF wake(4) owner_at_stop lock_inv_stop(1) [OF wake(3,1), of Idle]])
       (simp_all add: wake(1))
next
  case (cancel s t p h a g)
  have "lm_locks (stopWaiting a (ls_lm s)) p = Some a"
    using lock_inv_stop(2) [OF cancel(2,1), of Idle] by (simp add: stopWaiting_def upd_def)
  then have same: "owner_at (cleanupLocked p a (stopWaiting a (ls_lm s))) q = owner_at (ls_lm s) q" for q
    using owner_at_cleanup owner_at_stop by simp
  show ?case
    by (rule solo_inv_upd [OF cancel(3), where t = t and x = Idle]) (use same in auto)
next
  case (ext_ok s t p h)
  have "owner_at (ls_lm s) p = Some h" using solo_invD(2) [OF ext_ok(3), of t] ext_ok(1) by simp
  then show ?case
    by (intro solo_inv_upd [OF ext_ok(3), where t = t and x = Idle]) (auto simp: ext_ok(1))
next
  case (ext_fail s t p h)
  show ?case
    by (rule solo_inv_upd [OF ext_fail(3), where t = t and x = Idle])
       (auto simp: ext_fail(1) owner_at_release [OF ext_fail(2)])
next
  case (call_unlock t h s p b)
  show ?case
    by (rule solo_inv_upd [OF call_unlock(3), where t = t and x = "Checking p h b"])
       (use call_unlock in \<open>auto simp: may_call_def\<close>)
next
  case (check s t p h b)
  have n: "(p, h) \<notin> ls_granted s" using solo_invD(4) [OF check(3), of t] check(1) by simp
  show ?case
    by (rule solo_inv_upd [OF check(3), where t = t and
          x = "if \<not> holds p h (ls_lm s) then Idle else if ext then ExtUnlocking p h b else Releasing p h"])
       (use n in \<open>auto simp: check(1) holds_owner_at split: if_splits\<close>)
next
  case (unlock_ok s t p h b)
  have n: "(p, h) \<notin> ls_granted s" "owner_at (ls_lm s) p = Some h"
    using solo_invD(2,4) [OF unlock_ok(3), of t] unlock_ok(1) by simp_all
  show ?case
    by (rule solo_inv_upd [OF unlock_ok(3), where t = t and x = "Releasing p h"])
       (use n in \<open>auto simp: unlock_ok(1)\<close>)
next
  case (unlock_fail s t p h b)
  have n: "(p, h) \<notin> ls_granted s" "owner_at (ls_lm s) p = Some h"
    using solo_invD(2,4) [OF unlock_fail(3), of t] unlock_fail(1) by simp_all
  show ?case
    by (rule solo_inv_upd [OF unlock_fail(3), where t = t and x = "if b then Releasing p h else Idle"])
       (use n in \<open>auto simp: unlock_fail(1) split: if_splits\<close>)
next
  case (release s t p h)
  show ?case
    by (rule solo_inv_upd [OF release(3), where t = t and x = Idle])
       (auto simp: release(1) owner_at_release [OF release(2)])
qed

lemma solo_inv_reach:
  assumes "lreach ext True s" shows "solo_inv s"
  using assms
proof (induction rule: rtranclp_induct)
  case base
  show ?case by (simp add: solo_inv_def linit_def)
next
  case (step s s')
  then show ?case using solo_inv_step lock_inv_reach by blast
qed

section \<open>Runs\<close>

text \<open>
  Runs as functions, for the witnesses: a whole uncontended call of \<^verbatim>\<open>lock\<close> without backend
  takes two steps, and so does the start of a contended one.
\<close>

definition start_lock :: "bool \<Rightarrow> nat \<Rightarrow> string \<Rightarrow> handle \<Rightarrow> lstate \<Rightarrow> lstate" where
  "start_lock ext t p h s = after_turn ext t p h (acquireTurn p h (ls_lm s)) (s\<lparr>ls_pc := (ls_pc s)(t := Enter p h)\<rparr>)"

lemma start_lock_reach:
  assumes "lreach ext solo s" "may_call solo t h s"
  shows "lreach ext solo (start_lock ext t p h s)"
proof -
  let ?s = "s\<lparr>ls_pc := (ls_pc s)(t := Enter p h)\<rparr>"
  have "lreach ext solo ?s" using assms call_lock by (meson rtranclp.rtrancl_into_rtrancl)
  moreover have "lstep ext solo ?s (after_turn ext t p h (acquireTurn p h (ls_lm ?s)) ?s)"
    by (rule turn) simp
  ultimately show ?thesis unfolding start_lock_def by (simp add: rtranclp.rtrancl_into_rtrancl)
qed

lemmas lock_run_simps =
  start_lock_def after_turn_def acquireTurn_def entry_for_def upd_def linit_def newLockManager_def

text \<open>Handle 1 holds \<^verbatim>\<open>/f\<close> and handle 2 waits for it.\<close>

definition contended :: lstate where
  "contended = start_lock False 1 ''/f'' 2 (start_lock False 0 ''/f'' 1 linit)"

lemma contended_reach: "lreach False True contended"
  unfolding contended_def
  by (intro start_lock_reach) (auto simp: may_call_def lock_run_simps)

lemma contended_simps:
  "ls_granted contended = {(''/f'', 1)}" "ls_pc contended 1 = Waiting ''/f'' 2 0 0"
  "lm_locks (ls_lm contended) ''/f'' = Some 0"
  "lm_heap (ls_lm contended) 0 = \<lparr>pl_owner = Some 1, pl_waiters = 1, pl_freed = 0\<rparr>"
  by (simp_all add: contended_def lock_run_simps)

text \<open>Handle 1 is in the backend's \<^verbatim>\<open>Lock\<close>.\<close>

definition asking :: lstate where
  "asking = start_lock True 0 ''/f'' 1 linit"

lemma asking_reach: "lreach True solo asking"
  unfolding asking_def by (intro start_lock_reach) (auto simp: may_call_def linit_def)

section \<open>Properties\<close>

text \<open>
  C13: mutual exclusion. In every interleaving of \<^verbatim>\<open>lock\<close>, \<^verbatim>\<open>unlock\<close> and
  \<^verbatim>\<open>releaseOnClose\<close>, with cancellations and failures of the backend, at most one handle
  at a time has been granted a path, provided no handle is used from two threads at once.
\<close>

theorem lock_mutual_exclusion:
  assumes "lreach ext True s" "(p, h) \<in> ls_granted s" "(p, h') \<in> ls_granted s"
  shows "h = h' \<and> holds p h (ls_lm s)"
  using solo_invD(1) [OF solo_inv_reach [OF assms(1)] assms(2)]
    solo_invD(1) [OF solo_inv_reach [OF assms(1)] assms(3)]
  by (simp add: holds_owner_at)

theorem lock_mutual_exclusion_witness:
  "(''/f'', 1) \<in> ls_granted contended \<and> holds ''/f'' 1 (ls_lm contended)"
  using lock_mutual_exclusion [OF contended_reach, of "''/f''" 1 1] by (simp add: contended_simps)

text \<open>
  The backend's contract. Its \<^verbatim>\<open>Lock\<close> and \<^verbatim>\<open>Unlock\<close> are never called concurrently
  for the same name, as the interface promises its implementers, and while a call is under way
  no handle counts as holding the name, provided no handle is used from two threads at once.
\<close>

lemma lock_backend_serialized:
  assumes "lreach ext True s" "pc_holds (ls_pc s t) = Some (p, h)" "pc_holds (ls_pc s u) = Some (p, h')"
  shows "t = u \<and> (\<forall>k. (p, k) \<notin> ls_granted s)"
proof -
  note inv = solo_inv_reach [OF assms(1)]
  have own: "owner_at (ls_lm s) p = Some h" "h' = h"
    using solo_invD(2) [OF inv assms(2)] solo_invD(2) [OF inv assms(3)] by auto
  then have "t = u"
    using solo_invD(3) [OF inv] pc_suspends_owner pc_holds_suspends assms(2,3) by blast
  moreover have "(p, k) \<notin> ls_granted s" for k
    using solo_invD(1) [OF inv, of p k] solo_invD(4) [OF inv] pc_holds_suspends [OF assms(2)] own by auto
  ultimately show ?thesis by blast
qed

text \<open>
  C14: no lost wake-ups and exact bookkeeping, whatever the callers do. A waiter whose channel
  is still open waits for a current owner, so every release wakes it; its entry is still the
  one in the map; and an entry of the map counts its waiters and is owned or awaited.
\<close>

theorem lock_no_lost_wakeup:
  assumes "lreach ext solo s"
  shows "(ls_pc s t = Waiting p h a g \<longrightarrow>
            lm_locks (ls_lm s) p = Some a \<and>
            (g < pl_freed (lm_heap (ls_lm s) a) \<or> (\<exists>k. holds p k (ls_lm s)))) \<and>
         (lm_locks (ls_lm s) p = Some a \<longrightarrow>
            pl_waiters (lm_heap (ls_lm s) a) = int (card (waiters_on (ls_pc s) p a)) \<and>
            (pl_owner (lm_heap (ls_lm s) a) \<noteq> None \<or> waiters_on (ls_pc s) p a \<noteq> {}))"
proof -
  note inv = lock_inv_reach [OF assms]
  have "g < pl_freed (lm_heap (ls_lm s) a) \<or> (\<exists>k. holds p k (ls_lm s))"
    if "ls_pc s t = Waiting p h a g"
    using lock_invD(3) [OF inv that] by (auto simp: holds_def)
  moreover have "pl_owner (lm_heap (ls_lm s) a) \<noteq> None \<or> waiters_on (ls_pc s) p a \<noteq> {}"
    if "lm_locks (ls_lm s) p = Some a"
    using lock_inv_live [OF inv that] lock_invD(4) [OF inv that] by auto
  ultimately show ?thesis using lock_invD(3,4) [OF inv] by blast
qed

theorem lock_no_lost_wakeup_witness:
  "ls_pc contended 1 = Waiting ''/f'' 2 0 0 \<and> (\<exists>k. holds ''/f'' k (ls_lm contended)) \<and>
   card (waiters_on (ls_pc contended) ''/f'' 0) = 1"
  using lock_no_lost_wakeup [OF contended_reach, of 1 "''/f''" 2 0 0] contended_simps
  by (auto simp del: One_nat_def)

text \<open>
  C39: the proviso is needed. When one handle is used from two threads, the second \<^verbatim>\<open>Lock\<close>
  returns at once although the first is still in the backend's \<^verbatim>\<open>Lock\<close>; if that call then
  fails, the path is released under the second caller's feet and another handle can be granted
  it as well: two handles hold the lock.
\<close>

theorem lock_shared_handle_breaks_exclusion:
  "\<exists>s. lreach True False s \<and> {(''/f'', 1), (''/f'', 2)} \<subseteq> ls_granted s"
proof -
  let ?s1 = "start_lock True 1 ''/f'' 1 asking"
  have r1: "lreach True False ?s1"
    by (rule start_lock_reach [OF asking_reach]) (simp add: may_call_def asking_def lock_run_simps)
  have p1: "ls_pc ?s1 0 = ExtLocking ''/f'' 1" "(''/f'', 1) \<in> ls_granted ?s1"
    by (simp_all add: asking_def lock_run_simps)
  let ?s2 = "?s1\<lparr>ls_lm := releaseLocal ''/f'' 1 (ls_lm ?s1), ls_pc := (ls_pc ?s1)(0 := Idle)\<rparr>"
  have r2: "lreach True False ?s2"
    using r1 ext_fail [OF p1(1)] by (rule rtranclp.rtrancl_into_rtrancl)
  let ?s3 = "start_lock True 2 ''/f'' 2 ?s2"
  have r3: "lreach True False ?s3"
    by (rule start_lock_reach [OF r2]) (simp add: may_call_def asking_def lock_run_simps)
  have p3: "ls_pc ?s3 2 = ExtLocking ''/f'' 2" "(''/f'', 1) \<in> ls_granted ?s3"
    by (simp_all add: asking_def lock_run_simps releaseLocal_def cleanupLocked_def)
  let ?s4 = "?s3\<lparr>ls_pc := (ls_pc ?s3)(2 := Idle), ls_granted := insert (''/f'', 2) (ls_granted ?s3)\<rparr>"
  have "lreach True False ?s4"
    using r3 ext_ok [OF p3(1)] by (rule rtranclp.rtrancl_into_rtrancl)
  moreover have "{(''/f'', 1), (''/f'', 2)} \<subseteq> ls_granted ?s4" using p3(2) by simp
  ultimately show ?thesis by blast
qed

end
