(* ===== verification/Fs.thy ===== *)
theory Fs
  imports Mem Disk Lock
begin

text \<open>
  The state of a filesystem: the fields of \<^verbatim>\<open>S3FS\<close> (\<^verbatim>\<open>s3fs.go\<close>) that the request
  primitives use, together with what the process shares with it, the world behind the S3
  client and the local machine. The S3 client, the two entry-count LRU caches and the
  cross-process lock backend are not part of the repository: they are the fields of an
  environment every definition takes. File handles are told apart by numbers, as the lock
  manager compares them by identity.
\<close>

record ('w, 'c, 'd) env =
  client :: "'w Client"
  mem_lru :: "'c mem_gc"
  disk_lru :: "'d disk_gc"
  locker :: "'w Locker option"

record ('w, 'c, 'd) S3FS =
  fs_bucket :: string
  fs_prefix :: string
  fs_world :: 'w
  fs_mach :: mach
  fs_mem :: "'c memCache option"
  fs_disk :: "'d diskCache option"
  fs_locks :: lockManager
  fs_nextid :: handle

definition now :: "('w, 'c, 'd) env \<Rightarrow> ('w, 'c, 'd, 'z) S3FS_scheme \<Rightarrow> instant" where
  "now E s = time_Now (client E) (fs_world s)"

text \<open>A request: the world moves, the rest of the state stays.\<close>

definition request ::
    "('w \<Rightarrow> 'r \<times> 'w) \<Rightarrow> ('w, 'c, 'd, 'z) S3FS_scheme \<Rightarrow> 'r \<times> ('w, 'c, 'd, 'z) S3FS_scheme" where
  "request f s = (case f (fs_world s) of (r, w) \<Rightarrow> (r, s\<lparr>fs_world := w\<rparr>))"

text \<open>A call of the memory or disk tier, skipped when the tier is not configured.\<close>

definition with_mem ::
    "('c memCache \<Rightarrow> 'c memCache) \<Rightarrow> ('w, 'c, 'd, 'z) S3FS_scheme \<Rightarrow> ('w, 'c, 'd, 'z) S3FS_scheme" where
  "with_mem f s = (case fs_mem s of None \<Rightarrow> s | Some c \<Rightarrow> s\<lparr>fs_mem := Some (f c)\<rparr>)"

definition mem_find ::
    "('w, 'c, 'd) env \<Rightarrow> string \<Rightarrow> ('w, 'c, 'd, 'z) S3FS_scheme
       \<Rightarrow> memEntry option \<times> ('w, 'c, 'd, 'z) S3FS_scheme" where
  "mem_find E k s =
     (case fs_mem s of
        None \<Rightarrow> (None, s)
      | Some c \<Rightarrow> (case mem_lookup (mem_lru E) (now E s) k c of (r, c1) \<Rightarrow> (r, s\<lparr>fs_mem := Some c1\<rparr>)))"

definition set_os :: "osfs \<Rightarrow> ('w, 'c, 'd, 'z) S3FS_scheme \<Rightarrow> ('w, 'c, 'd, 'z) S3FS_scheme" where
  "set_os o1 s = s\<lparr>fs_mach := (fs_mach s)\<lparr>mos := o1\<rparr>\<rparr>"

definition with_disk ::
    "('d diskCache \<Rightarrow> osfs \<Rightarrow> 'd diskCache \<times> osfs) \<Rightarrow> ('w, 'c, 'd, 'z) S3FS_scheme
       \<Rightarrow> ('w, 'c, 'd, 'z) S3FS_scheme" where
  "with_disk f s =
     (case fs_disk s of
        None \<Rightarrow> s
      | Some c \<Rightarrow> (case f c (mos (fs_mach s)) of (c1, o1) \<Rightarrow> set_os o1 (s\<lparr>fs_disk := Some c1\<rparr>)))"

definition disk_run ::
    "'r \<Rightarrow> ('d diskCache \<Rightarrow> osfs \<Rightarrow> 'r \<times> 'd diskCache \<times> osfs) \<Rightarrow> ('w, 'c, 'd, 'z) S3FS_scheme
       \<Rightarrow> 'r \<times> ('w, 'c, 'd, 'z) S3FS_scheme" where
  "disk_run absent f s =
     (case fs_disk s of
        None \<Rightarrow> (absent, s)
      | Some c \<Rightarrow> (case f c (mos (fs_mach s)) of (r, c1, o1) \<Rightarrow> (r, set_os o1 (s\<lparr>fs_disk := Some c1\<rparr>))))"

text \<open>A new handle, and the lock manager called by a handle of a path.\<close>

definition new_handle :: "('w, 'c, 'd, 'z) S3FS_scheme \<Rightarrow> handle \<times> ('w, 'c, 'd, 'z) S3FS_scheme" where
  "new_handle s = (fs_nextid s, s\<lparr>fs_nextid := fs_nextid s + 1\<rparr>)"

definition fs_release ::
    "('w, 'c, 'd) env \<Rightarrow> string \<Rightarrow> handle \<Rightarrow> ('w, 'c, 'd, 'z) S3FS_scheme \<Rightarrow> ('w, 'c, 'd, 'z) S3FS_scheme" where
  "fs_release E p h s =
     (case releaseOnClose (locker E) p h (fs_locks s) (fs_world s) of
        (m, w) \<Rightarrow> s\<lparr>fs_locks := m, fs_world := w\<rparr>)"

definition fs_lock ::
    "('w, 'c, 'd) env \<Rightarrow> string \<Rightarrow> handle \<Rightarrow> ('w, 'c, 'd, 'z) S3FS_scheme
       \<Rightarrow> lockOutcome \<times> ('w, 'c, 'd, 'z) S3FS_scheme" where
  "fs_lock E p h s =
     (case lockManager_lock (locker E) p h (fs_locks s) (fs_world s) of
        (r, m, w) \<Rightarrow> (r, s\<lparr>fs_locks := m, fs_world := w\<rparr>))"

definition fs_unlock ::
    "('w, 'c, 'd) env \<Rightarrow> string \<Rightarrow> handle \<Rightarrow> ('w, 'c, 'd, 'z) S3FS_scheme
       \<Rightarrow> goerr option \<times> ('w, 'c, 'd, 'z) S3FS_scheme" where
  "fs_unlock E p h s =
     (case lockManager_unlock (locker E) p h (fs_locks s) (fs_world s) of
        (r, m, w) \<Rightarrow> (r, s\<lparr>fs_locks := m, fs_world := w\<rparr>))"

text \<open>The methods \<^verbatim>\<open>Lock\<close> and \<^verbatim>\<open>Unlock\<close> of every handle type: refused once closed, errors wrapped.\<close>

definition handle_Lock ::
    "('w, 'c, 'd) env \<Rightarrow> bool \<Rightarrow> string \<Rightarrow> handle \<Rightarrow> ('w, 'c, 'd, 'z) S3FS_scheme
       \<Rightarrow> lockOutcome \<times> ('w, 'c, 'd, 'z) S3FS_scheme" where
  "handle_Lock E closed name h s =
     (if closed then (Returns (Some (PathError ''lock'' name ErrClosed)), s)
      else case fs_lock E name h s of
        (Returns (Some err), s1) \<Rightarrow> (Returns (Some (PathError ''lock'' name err)), s1)
      | (r, s1) \<Rightarrow> (r, s1))"

definition handle_Unlock ::
    "('w, 'c, 'd) env \<Rightarrow> bool \<Rightarrow> string \<Rightarrow> handle \<Rightarrow> ('w, 'c, 'd, 'z) S3FS_scheme
       \<Rightarrow> goerr option \<times> ('w, 'c, 'd, 'z) S3FS_scheme" where
  "handle_Unlock E closed name h s =
     (if closed then (Some (PathError ''unlock'' name ErrClosed), s)
      else case fs_unlock E name h s of
        (Some err, s1) \<Rightarrow> (Some (PathError ''unlock'' name err), s1)
      | (None, s1) \<Rightarrow> (None, s1))"

section \<open>The invariant\<close>

text \<open>
  The caches of a filesystem agree with the store and with the local files. Bucket names have
  no percent sign, and the key prefix is one \<^verbatim>\<open>WithPrefix\<close> sets.
\<close>

definition fs_ok ::
    "('w \<Rightarrow> objects) \<Rightarrow> (string \<Rightarrow> bytes) \<Rightarrow> ('c \<Rightarrow> (string \<times> memEntry lruEntry) list)
       \<Rightarrow> ('d \<Rightarrow> (string \<times> diskEntry lruEntry) list) \<Rightarrow> ('w, 'c, 'd, 'z) S3FS_scheme \<Rightarrow> bool" where
  "fs_ok objs content mview dview s \<longleftrightarrow>
     CHR ''%'' \<notin> set (fs_bucket s) \<and> (\<exists>p. fs_prefix s = WithPrefix p) \<and>
     (\<forall>c. fs_mem s = Some c \<longrightarrow> mem_ok mview content (objs (fs_world s)) c) \<and>
     (\<forall>c. fs_disk s = Some c \<longrightarrow> disk_inv dview content c (mos (fs_mach s)))"

text \<open>
  The environment the operations run in: the documented behaviour of S3, of the two LRU
  caches, and of a lock backend that keeps its objects outside the filesystem's keys.
\<close>

locale s3fs =
  s3_store "client E" objs content rest pages +
  mem: mem_cache "mem_lru E" mview content +
  disk: disk_cache "disk_lru E" dview content
  for E :: "('w, 'c, 'd) env" and objs content rest pages mview dview +
  assumes locker_Lock: "locker E = Some l \<Longrightarrow> ext_Lock l p w = (r, w') \<Longrightarrow> objs w' = objs w"
    and locker_Unlock: "locker E = Some l \<Longrightarrow> ext_Unlock l p w = (r, w') \<Longrightarrow> objs w' = objs w"
begin

abbreviation (input) ok where "ok \<equiv> fs_ok objs content mview dview"

abbreviation (input) store where "store s \<equiv> objs (fs_world s)"

lemma mem_find_ok:
  assumes "ok s" "mem_find E k s = (r, s')"
  shows "ok s'" and "fs_world s' = fs_world s" and "fs_prefix s' = fs_prefix s"
    and "r = Some e \<Longrightarrow> mem_coh content (store s) k e"
proof -
  have "ok s' \<and> fs_world s' = fs_world s \<and> fs_prefix s' = fs_prefix s \<and> (r = Some e \<longrightarrow> mem_coh content (store s) k e)"
  proof (cases "fs_mem s")
    case None
    then show ?thesis using assms by (simp add: mem_find_def)
  next
    case (Some c)
    obtain c1 where c1: "mem_lookup (mem_lru E) (now E s) k c = (r, c1)" "s' = s\<lparr>fs_mem := Some c1\<rparr>"
      using assms(2) Some by (auto simp: mem_find_def split: prod.splits)
    have "mem_ok mview content (store s) c" using assms(1) Some by (simp add: fs_ok_def)
    then show ?thesis
      using mem.lookup_ok [OF _ c1(1)] c1(2) assms(1) by (auto simp: fs_ok_def)
  qed
  then show "ok s'" "fs_world s' = fs_world s" "fs_prefix s' = fs_prefix s"
    "r = Some e \<Longrightarrow> mem_coh content (store s) k e" by auto
qed

lemma release_ok:
  "ok s \<Longrightarrow> ok (fs_release E p h s) \<and> store (fs_release E p h s) = store s"
  by (auto simp: fs_release_def releaseOnClose_def fs_ok_def dest: locker_Unlock
      split: prod.splits if_splits option.splits)

end

text \<open>The executable environment of the witnesses.\<close>

definition fake_env :: "(fake, (string \<times> memEntry lruEntry) list, (string \<times> diskEntry lruEntry) list) env" where
  "fake_env = \<lparr>client = fake_client, mem_lru = list_lru, disk_lru = list_lru, locker = None\<rparr>"

interpretation fake_fs: s3fs fake_env fake_objs tag_content fake_rest "\<lambda>m pre tok. 0" "\<lambda>c. c" "\<lambda>c. c"
  by (simp add: s3fs_def s3fs_axioms_def fake_env_def fake.s3_store_axioms list_mem.mem_cache_axioms
      list_disk.disk_cache_axioms)

text \<open>A filesystem without caches over a bucket with one object.\<close>

definition demo_fs :: "(fake, (string \<times> memEntry lruEntry) list, (string \<times> diskEntry lruEntry) list) S3FS" where
  "demo_fs = \<lparr>fs_bucket = ''b'', fs_prefix = '''',
     fs_world = \<lparr>bucket_objs = [(''d/f'', \<lparr>odata = [49, 50, 51], ometa = [], oetag = tag_of [49, 50, 51]\<rparr>)], fake_clock = 9\<rparr>,
     fs_mach = demo_disk_mach, fs_mem = None, fs_disk = None, fs_locks = newLockManager, fs_nextid = 0\<rparr>"

lemma demo_fs_ok: "fs_ok fake_objs tag_content (\<lambda>c. c) (\<lambda>c. c) demo_fs"
proof -
  have "WithPrefix '''' = ''''" by code_simp
  then have "\<exists>p. '''' = WithPrefix p" by metis
  then show ?thesis by (simp add: fs_ok_def demo_fs_def)
qed

end
