(* ===== verification/FileRead.thy ===== *)
theory FileRead
  imports Fs
begin

text \<open>
  Files opened for reading, \<^verbatim>\<open>file_read.go\<close>: the three backends a \<^verbatim>\<open>readOnlyFile\<close> can
  have (a stream from S3, a body in memory, a local file) and its methods. The locale
  \<open>read_backend\<close> states what the methods need of a backend over the bytes it serves; the
  lemmas show that sequential reads deliver exactly those bytes whatever the backend.
\<close>

section \<open>Backends\<close>

record s3Backend =
  sb_key :: string
  sb_size :: int
  sb_body :: "body option"
  sb_bodyPos :: int

datatype readBackend = S3Backend s3Backend | BytesBackend bytes | FileBackend ino

type_synonym read_result = "bytes \<times> goerr option"

text \<open>Reading on from an open stream.\<close>

definition stream_read :: "nat \<Rightarrow> body \<Rightarrow> s3Backend \<Rightarrow> read_result \<times> s3Backend" where
  "stream_read n bd b =
     (case body_Read n bd of
        ((d, err), bd1) \<Rightarrow>
          let pos = wrap64 (sb_bodyPos b + int (length d))
          in if err = Some EOF \<and> pos < sb_size b
             then ((d, None), b\<lparr>sb_body := None, sb_bodyPos := pos\<rparr>)
             else ((d, err), b\<lparr>sb_body := Some bd1, sb_bodyPos := pos\<rparr>))"

definition s3Backend_read ::
    "('w, 'c, 'd) env \<Rightarrow> nat \<Rightarrow> int \<Rightarrow> s3Backend \<Rightarrow> ('w, 'c, 'd, 'z) S3FS_scheme
       \<Rightarrow> read_result \<times> s3Backend \<times> ('w, 'c, 'd, 'z) S3FS_scheme" where
  "s3Backend_read E n off b0 s =
     (let b = (if sb_body b0 \<noteq> None \<and> sb_bodyPos b0 \<noteq> off then b0\<lparr>sb_body := None\<rparr> else b0)
      in case sb_body b of
           Some bd \<Rightarrow> (case stream_read n bd b of (r, b1) \<Rightarrow> (r, b1, s))
         | None \<Rightarrow>
             (case request (GetObject (client E) (fs_bucket s) (sb_key b) (Some (off, None))) s of
                (Inl e, s1) \<Rightarrow> (([], Some e), b, s1)
              | (Inr out, s1) \<Rightarrow>
                  (case stream_read n (Body out) (b\<lparr>sb_bodyPos := off\<rparr>) of (r, b1) \<Rightarrow> (r, b1, s1))))"

text \<open>\<^verbatim>\<open>io.ReadFull\<close> on a response body.\<close>

definition ReadFull :: "nat \<Rightarrow> body \<Rightarrow> read_result" where
  "ReadFull n bd =
     (let d = concat (chunks bd)
      in if n \<le> length d then (take n d, None)
         else (d, Some (if body_end bd = EOF \<and> d \<noteq> [] then ErrUnexpectedEOF else body_end bd)))"

definition s3Backend_readAt ::
    "('w, 'c, 'd) env \<Rightarrow> nat \<Rightarrow> int \<Rightarrow> s3Backend \<Rightarrow> ('w, 'c, 'd, 'z) S3FS_scheme
       \<Rightarrow> read_result \<times> ('w, 'c, 'd, 'z) S3FS_scheme" where
  "s3Backend_readAt E n off b s =
     (case request (GetObject (client E) (fs_bucket s) (sb_key b)
                     (Some (off, Some (wrap64 (wrap64 (off + int n) - 1))))) s of
        (Inl e, s1) \<Rightarrow> (([], Some e), s1)
      | (Inr out, s1) \<Rightarrow>
          (case ReadFull n (Body out) of
             (d, err) \<Rightarrow>
               ((d, if err = Some ErrUnexpectedEOF \<or> (err = None \<and> length d < n) then Some EOF else err), s1)))"

definition s3Backend_close :: "s3Backend \<Rightarrow> goerr option \<times> s3Backend" where
  "s3Backend_close b =
     (case sb_body b of Some bd \<Rightarrow> (close_err bd, b\<lparr>sb_body := None\<rparr>) | None \<Rightarrow> (None, b))"

text \<open>\<^verbatim>\<open>b[off:]\<close> panics for a negative offset; the file methods never pass one.\<close>

definition bytesBackend_readAt :: "nat \<Rightarrow> int \<Rightarrow> bytes \<Rightarrow> read_result" where
  "bytesBackend_readAt n off b =
     (if off \<ge> int (length b) then ([], Some EOF)
      else if off < 0 then ([], Some Panic)
      else let d = take n (drop (nat off) b) in (d, if length d < n then Some EOF else None))"

definition fileBackend_readAt ::
    "nat \<Rightarrow> int \<Rightarrow> ino \<Rightarrow> ('w, 'c, 'd, 'z) S3FS_scheme \<Rightarrow> read_result \<times> ('w, 'c, 'd, 'z) S3FS_scheme" where
  "fileBackend_readAt n off f s =
     (case os_ReadAt n off f (mos (fs_mach s)) of (r, o1) \<Rightarrow> (r, set_os o1 s))"

fun back_read ::
    "('w, 'c, 'd) env \<Rightarrow> nat \<Rightarrow> int \<Rightarrow> readBackend \<Rightarrow> ('w, 'c, 'd, 'z) S3FS_scheme
       \<Rightarrow> read_result \<times> readBackend \<times> ('w, 'c, 'd, 'z) S3FS_scheme" where
  "back_read E n off (S3Backend b) s = (case s3Backend_read E n off b s of (r, b1, s1) \<Rightarrow> (r, S3Backend b1, s1))"
| "back_read E n off (BytesBackend d) s = (bytesBackend_readAt n off d, BytesBackend d, s)"
| "back_read E n off (FileBackend f) s = (case fileBackend_readAt n off f s of (r, s1) \<Rightarrow> (r, FileBackend f, s1))"

fun back_readAt ::
    "('w, 'c, 'd) env \<Rightarrow> nat \<Rightarrow> int \<Rightarrow> readBackend \<Rightarrow> ('w, 'c, 'd, 'z) S3FS_scheme
       \<Rightarrow> read_result \<times> ('w, 'c, 'd, 'z) S3FS_scheme" where
  "back_readAt E n off (S3Backend b) s = s3Backend_readAt E n off b s"
| "back_readAt E n off (BytesBackend d) s = (bytesBackend_readAt n off d, s)"
| "back_readAt E n off (FileBackend f) s = fileBackend_readAt n off f s"

fun back_close ::
    "readBackend \<Rightarrow> ('w, 'c, 'd, 'z) S3FS_scheme
       \<Rightarrow> goerr option \<times> readBackend \<times> ('w, 'c, 'd, 'z) S3FS_scheme" where
  "back_close (S3Backend b) s = (case s3Backend_close b of (e, b1) \<Rightarrow> (e, S3Backend b1, s))"
| "back_close (BytesBackend d) s = (None, BytesBackend d, s)"
| "back_close (FileBackend f) s =
     (case os_Close f (mos (fs_mach s)) of (e, o1) \<Rightarrow> (e, FileBackend f, set_os o1 s))"

section \<open>The file\<close>

record readOnlyFile =
  ro_id :: handle
  ro_name :: string
  ro_info :: fileInfo
  ro_back :: readBackend
  ro_pos :: int
  ro_closed :: bool

definition ro_new ::
    "string \<Rightarrow> fileInfo \<Rightarrow> readBackend \<Rightarrow> ('w, 'c, 'd, 'z) S3FS_scheme
       \<Rightarrow> readOnlyFile \<times> ('w, 'c, 'd, 'z) S3FS_scheme" where
  "ro_new name info back s =
     (case new_handle s of
        (h, s1) \<Rightarrow> (\<lparr>ro_id = h, ro_name = name, ro_info = info, ro_back = back, ro_pos = 0, ro_closed = False\<rparr>, s1))"

definition newReadFile ::
    "string \<Rightarrow> HeadObjectOutput \<Rightarrow> body option \<Rightarrow> ('w, 'c, 'd, 'z) S3FS_scheme
       \<Rightarrow> readOnlyFile \<times> ('w, 'c, 'd, 'z) S3FS_scheme" where
  "newReadFile p h bd s =
     (let info = infoFromHeadValue (path_Base p) h
      in ro_new p info
           (S3Backend \<lparr>sb_key = key (fs_prefix s) p, sb_size = fi_size info, sb_body = bd, sb_bodyPos = 0\<rparr>) s)"

definition newMemReadFile ::
    "string \<Rightarrow> fileInfo \<Rightarrow> bytes \<Rightarrow> ('w, 'c, 'd, 'z) S3FS_scheme
       \<Rightarrow> readOnlyFile \<times> ('w, 'c, 'd, 'z) S3FS_scheme" where
  "newMemReadFile name info d s = ro_new name (info\<lparr>fi_size := int (length d)\<rparr>) (BytesBackend d) s"

definition newDiskReadFile ::
    "ino \<Rightarrow> string \<Rightarrow> fileInfo \<Rightarrow> ('w, 'c, 'd, 'z) S3FS_scheme
       \<Rightarrow> readOnlyFile \<times> ('w, 'c, 'd, 'z) S3FS_scheme" where
  "newDiskReadFile f name info s = ro_new name info (FileBackend f) s"

definition readOnlyFile_Stat :: "readOnlyFile \<Rightarrow> fileInfo" where
  "readOnlyFile_Stat f = ro_info f"

text \<open>
  A sequential read at a position, as every kind of read handle does it: nothing is left at
  or past the size, and \<^verbatim>\<open>io.EOF\<close> that comes with bytes is held back.
\<close>

definition seq_read ::
    "(nat \<Rightarrow> int \<Rightarrow> 'b \<Rightarrow> 's \<Rightarrow> read_result \<times> 'b \<times> 's) \<Rightarrow> nat \<Rightarrow> int \<Rightarrow> int \<Rightarrow> 'b \<Rightarrow> 's
       \<Rightarrow> read_result \<times> int \<times> 'b \<times> 's" where
  "seq_read read n size0 pos back s =
     (if pos \<ge> size0 then (([], Some EOF), pos, back, s)
      else case read n pos back s of
        ((d, err), back1, s1) \<Rightarrow>
          ((d, if err = Some EOF \<and> d \<noteq> [] then None else err), wrap64 (pos + int (length d)), back1, s1))"

definition readOnlyFile_Read ::
    "('w, 'c, 'd) env \<Rightarrow> nat \<Rightarrow> readOnlyFile \<Rightarrow> ('w, 'c, 'd, 'z) S3FS_scheme
       \<Rightarrow> read_result \<times> readOnlyFile \<times> ('w, 'c, 'd, 'z) S3FS_scheme" where
  "readOnlyFile_Read E n f s =
     (if ro_closed f then (([], Some (PathError ''read'' (ro_name f) ErrClosed)), f, s)
      else case seq_read (back_read E) n (fi_size (ro_info f)) (ro_pos f) (ro_back f) s of
        (r, pos, back, s1) \<Rightarrow> (r, f\<lparr>ro_back := back, ro_pos := pos\<rparr>, s1))"

definition readOnlyFile_ReadAt ::
    "('w, 'c, 'd) env \<Rightarrow> nat \<Rightarrow> int \<Rightarrow> readOnlyFile \<Rightarrow> ('w, 'c, 'd, 'z) S3FS_scheme
       \<Rightarrow> read_result \<times> ('w, 'c, 'd, 'z) S3FS_scheme" where
  "readOnlyFile_ReadAt E n off f s =
     (if ro_closed f then (([], Some (PathError ''read'' (ro_name f) ErrClosed)), s)
      else if off < 0 then (([], Some (PathError ''readat'' (ro_name f) ErrInvalid)), s)
      else if n = 0 then (([], None), s)
      else if off \<ge> fi_size (ro_info f) then (([], Some EOF), s)
      else back_readAt E n off (ro_back f) s)"

text \<open>\<^verbatim>\<open>seekPos\<close>; \<^verbatim>\<open>io.SeekStart\<close>, \<^verbatim>\<open>io.SeekCurrent\<close> and \<^verbatim>\<open>io.SeekEnd\<close> are 0, 1 and 2.\<close>

definition seekPos :: "int \<Rightarrow> int \<Rightarrow> int \<Rightarrow> int \<Rightarrow> goerr + int" where
  "seekPos pos size0 offset whence =
     (if whence \<notin> {0, 1, 2} then Inl ErrInvalid
      else let abs0 = (if whence = 0 then offset
                       else if whence = 1 then wrap64 (pos + offset) else wrap64 (size0 + offset))
           in if abs0 < 0 then Inl ErrInvalid else Inr abs0)"

definition readOnlyFile_Seek :: "int \<Rightarrow> int \<Rightarrow> readOnlyFile \<Rightarrow> (goerr + int) \<times> readOnlyFile" where
  "readOnlyFile_Seek offset whence f =
     (if ro_closed f then (Inl (PathError ''seek'' (ro_name f) ErrClosed), f)
      else case seekPos (ro_pos f) (fi_size (ro_info f)) offset whence of
        Inl e \<Rightarrow> (Inl (PathError ''seek'' (ro_name f) e), f)
      | Inr a \<Rightarrow> (Inr a, f\<lparr>ro_pos := a\<rparr>))"

definition readOnlyFile_Write :: "bytes \<Rightarrow> readOnlyFile \<Rightarrow> nat \<times> goerr option" where
  "readOnlyFile_Write p f = (0, Some (PathError ''write'' (ro_name f) ErrPermission))"

definition readOnlyFile_WriteAt :: "bytes \<Rightarrow> int \<Rightarrow> readOnlyFile \<Rightarrow> nat \<times> goerr option" where
  "readOnlyFile_WriteAt p off f = (0, Some (PathError ''writeat'' (ro_name f) ErrPermission))"

definition readOnlyFile_Truncate :: "int \<Rightarrow> readOnlyFile \<Rightarrow> goerr option" where
  "readOnlyFile_Truncate n f = Some (PathError ''truncate'' (ro_name f) ErrPermission)"

definition readOnlyFile_Close ::
    "('w, 'c, 'd) env \<Rightarrow> readOnlyFile \<Rightarrow> ('w, 'c, 'd, 'z) S3FS_scheme
       \<Rightarrow> goerr option \<times> readOnlyFile \<times> ('w, 'c, 'd, 'z) S3FS_scheme" where
  "readOnlyFile_Close E f s =
     (if ro_closed f then (Some (PathError ''close'' (ro_name f) ErrClosed), f, s)
      else case back_close (ro_back f) (fs_release E (ro_name f) (ro_id f) s) of
        (e, back, s1) \<Rightarrow> (e, f\<lparr>ro_closed := True, ro_back := back\<rparr>, s1))"

definition readOnlyFile_Lock ::
    "('w, 'c, 'd) env \<Rightarrow> readOnlyFile \<Rightarrow> ('w, 'c, 'd, 'z) S3FS_scheme
       \<Rightarrow> lockOutcome \<times> ('w, 'c, 'd, 'z) S3FS_scheme" where
  "readOnlyFile_Lock E f s = handle_Lock E (ro_closed f) (ro_name f) (ro_id f) s"

definition readOnlyFile_Unlock ::
    "('w, 'c, 'd) env \<Rightarrow> readOnlyFile \<Rightarrow> ('w, 'c, 'd, 'z) S3FS_scheme
       \<Rightarrow> goerr option \<times> ('w, 'c, 'd, 'z) S3FS_scheme" where
  "readOnlyFile_Unlock E f s = handle_Unlock E (ro_closed f) (ro_name f) (ro_id f) s"

section \<open>The contract of a backend\<close>

text \<open>
  \<open>serves b s d\<close>: backend \<open>b\<close> in state \<open>s\<close> stands for the bytes \<open>d\<close>. A read may
  be short and may fail, but what it returns is the bytes at its offset, and it reports the end
  of the file only at the end.
\<close>

locale read_backend =
  fixes read :: "nat \<Rightarrow> int \<Rightarrow> 'b \<Rightarrow> 's \<Rightarrow> read_result \<times> 'b \<times> 's"
    and serves :: "'b \<Rightarrow> 's \<Rightarrow> bytes \<Rightarrow> bool"
  assumes serves_int64: "serves b s d \<Longrightarrow> int64 (int (length d))"
    and read_piece: "serves b s d \<Longrightarrow> 0 \<le> off \<Longrightarrow> off < int (length d) \<Longrightarrow>
          read n off b s = ((x, err), b', s') \<Longrightarrow>
          prefix x (drop (nat off) d) \<and> length x \<le> n \<and> serves b' s' d \<and>
          (err = Some EOF \<longrightarrow> nat off + length x = length d)"
begin

lemma seq_read_spec:
  assumes "serves b s d" "0 \<le> pos" "pos \<le> int (length d)"
    "seq_read read n (int (length d)) pos b s = ((x, err), pos', b', s')"
  shows "pos' = pos + int (length x) \<and> take (nat pos') d = take (nat pos) d @ x \<and> length x \<le> n \<and>
         serves b' s' d \<and> pos' \<le> int (length d) \<and> (err = Some EOF \<longrightarrow> x = [] \<and> pos' = int (length d))"
proof (cases "pos \<ge> int (length d)")
  case True
  then show ?thesis using assms by (auto simp: seq_read_def)
next
  case False
  then obtain err0 where r: "read n pos b s = ((x, err0), b', s')"
      and e: "err = (if err0 = Some EOF \<and> x \<noteq> [] then None else err0)" "pos' = wrap64 (pos + int (length x))"
    using assms(4) by (auto simp: seq_read_def split: prod.splits)
  have p: "prefix x (drop (nat pos) d)" "length x \<le> n" "serves b' s' d"
      "err0 = Some EOF \<longrightarrow> nat pos + length x = length d"
    using read_piece [OF assms(1,2) _ r] False by auto
  have len: "nat pos + length x \<le> length d" using prefix_length_le [OF p(1)] False by simp
  then have "int64 (pos + int (length x))" using serves_int64 [OF assms(1)] assms(2) by (simp add: int64_def)
  then have pos': "pos' = pos + int (length x)" using e by simp
  then have "nat pos' = nat pos + length x" using assms(2) by simp
  moreover have "take (nat pos + length x) d = take (nat pos) d @ x"
    using p(1) by (auto simp: take_add prefix_def)
  ultimately show ?thesis using p e pos' len False assms(2) by (auto split: if_splits)
qed

end

subsection \<open>The backends meet the contract\<close>

lemma body_Read_spec:
  "body_Read n bd = ((x, err), bd') \<Longrightarrow>
     concat (chunks bd) = x @ concat (chunks bd') \<and> length x \<le> n"
  by (auto simp: body_Read_def split: list.splits if_splits)

fun back_serves :: "('w \<Rightarrow> objects) \<Rightarrow> readBackend \<Rightarrow> ('w, 'c, 'd, 'z) S3FS_scheme \<Rightarrow> bytes \<Rightarrow> bool" where
  "back_serves objs (S3Backend b) s d \<longleftrightarrow>
     int64 (int (length d)) \<and> sb_size b = int (length d) \<and>
     map_option odata (objs (fs_world s) (sb_key b)) = Some d \<and>
     (\<forall>bd. sb_body b = Some bd \<longrightarrow> 0 \<le> sb_bodyPos b \<and> sb_bodyPos b \<le> int (length d) \<and>
        prefix (concat (chunks bd)) (drop (nat (sb_bodyPos b)) d))"
| "back_serves objs (BytesBackend x) s d \<longleftrightarrow> int64 (int (length d)) \<and> x = d"
| "back_serves objs (FileBackend f) s d \<longleftrightarrow> int64 (int (length d)) \<and> inodes (mos (fs_mach s)) f = d"

text \<open>A stream positioned at \<open>off\<close>.\<close>

lemma stream_read_spec:
  assumes b: "back_serves objs (S3Backend (b\<lparr>sb_body := None\<rparr>)) s d"
    and off: "sb_bodyPos b = off" "0 \<le> off" "off < int (length d)"
    and bd: "prefix (concat (chunks bd)) (drop (nat off) d)"
    and r: "stream_read n bd b = ((x, err), b')"
  shows "prefix x (drop (nat off) d) \<and> length x \<le> n \<and> back_serves objs (S3Backend b') s d \<and>
         (err = Some EOF \<longrightarrow> nat off + length x = length d)"
proof -
  obtain err0 bd' where br: "body_Read n bd = ((x, err0), bd')"
    using r by (auto simp: stream_read_def Let_def split: prod.splits if_splits)
  have x: "concat (chunks bd) = x @ concat (chunks bd')" "length x \<le> n" using body_Read_spec [OF br] by auto
  then obtain z where z: "drop (nat off) d = x @ concat (chunks bd') @ z" using bd by (auto simp: prefix_def)
  have len: "nat off + length x \<le> length d" using arg_cong [OF z, of length] off(3) by simp
  then have "int (nat off + length x) \<le> int (length d)" by (simp only: of_nat_le_iff)
  then have "int64 (off + int (length x))" using b off by (auto simp: int64_def)
  then have w: "wrap64 (off + int (length x)) = off + int (length x)" by simp
  have "drop (nat (off + int (length x))) d = concat (chunks bd') @ z"
    using arg_cong [OF z, of "drop (length x)"] off(2) by (simp add: nat_add_distrib add.commute)
  then have "prefix (concat (chunks bd')) (drop (nat (off + int (length x))) d)" by simp
  then show ?thesis
    using r br x b off len z w
    by (auto simp: stream_read_def Let_def prefix_def split: if_splits)
qed

context s3fs
begin

lemma s3Backend_read_piece:
  assumes b: "back_serves objs (S3Backend b) s d" and off: "0 \<le> off" "off < int (length d)"
    and r: "s3Backend_read E n off b s = ((x, err), b', s')"
  shows "prefix x (drop (nat off) d) \<and> length x \<le> n \<and> back_serves objs (S3Backend b') s' d \<and>
         (err = Some EOF \<longrightarrow> nat off + length x = length d)"
proof (cases "sb_body b \<noteq> None \<and> sb_bodyPos b = off")
  case True
  then obtain bd where bd: "sb_body b = Some bd" "sb_bodyPos b = off" by auto
  then have "stream_read n bd b = ((x, err), b')" "s' = s"
    using r by (auto simp: s3Backend_read_def split: prod.splits)
  then show ?thesis
    using stream_read_spec [of objs b s d off bd n x err b'] b bd off by simp
next
  case False
  define c where "c = b\<lparr>sb_body := None\<rparr>"
  have c: "(if sb_body b \<noteq> None \<and> sb_bodyPos b \<noteq> off then b\<lparr>sb_body := None\<rparr> else b) = c"
    using False by (auto simp: c_def)
  have cs: "back_serves objs (S3Backend c) t d" if "objs (fs_world t) = objs (fs_world s)" for t :: "('w,'c,'d,'z) S3FS_scheme"
    using b that by (simp add: c_def)
  obtain g w where g: "GetObject (client E) (fs_bucket s) (sb_key c) (Some (off, None)) (fs_world s) = (g, w)"
    by (cases "GetObject (client E) (fs_bucket s) (sb_key c) (Some (off, None)) (fs_world s)")
  have w: "objs w = objs (fs_world s)" by (rule GetObject_objs [OF g])
  have cb: "sb_body c = None" by (simp add: c_def)
  show ?thesis
  proof (cases g)
    case (Inl e)
    then have "x = []" "err = Some e" "b' = c" "s' = s\<lparr>fs_world := w\<rparr>"
      using r g c cb by (auto simp: s3Backend_read_def request_def Let_def)
    moreover have "e \<noteq> EOF" by (rule GetObject_error [OF g [unfolded Inl]])
    ultimately show ?thesis using cs [of s'] w by simp
  next
    case (Inr out)
    then have sr: "stream_read n (Body out) (c\<lparr>sb_bodyPos := off\<rparr>) = ((x, err), b')" "s' = s\<lparr>fs_world := w\<rparr>"
      using r g c cb by (auto simp: s3Backend_read_def request_def Let_def split: prod.splits)
    obtain obj where obj: "objs (fs_world s) (sb_key c) = Some obj" "delivers (Body out) (drop (nat off) (odata obj))"
      using GetObject_range [OF g [unfolded Inr] off(1)] by auto
    then have "odata obj = d" using b by (simp add: c_def)
    then have "prefix (concat (chunks (Body out))) (drop (nat off) d)" using obj by (simp add: delivers_def)
    then show ?thesis
      using stream_read_spec [OF _ _ off, of objs "c\<lparr>sb_bodyPos := off\<rparr>" s' "Body out" n x err b']
        cs [of s'] w sr by (simp add: c_def)
  qed
qed

lemma back_read_piece:
  assumes "back_serves objs b s d" "0 \<le> off" "off < int (length d)"
    "back_read E n off b s = ((x, err), b', s')"
  shows "prefix x (drop (nat off) d) \<and> length x \<le> n \<and> back_serves objs b' s' d \<and>
         (err = Some EOF \<longrightarrow> nat off + length x = length d)"
proof (cases b)
  case (S3Backend c)
  then obtain c' where "s3Backend_read E n off c s = ((x, err), c', s')" "b' = S3Backend c'"
    using assms(4) by (auto split: prod.splits)
  then show ?thesis using s3Backend_read_piece assms(1-3) S3Backend by blast
next
  case (BytesBackend y)
  then have "x = take n (drop (nat off) d)" "err = (if length x < n then Some EOF else None)"
      "b' = b" "s' = s"
    using assms by (auto simp: bytesBackend_readAt_def Let_def)
  then show ?thesis using assms(1-3) take_is_prefix by (auto split: if_splits)
next
  case (FileBackend f)
  obtain o1 where r: "os_ReadAt n off f (mos (fs_mach s)) = ((x, err), o1)" "b' = b" "s' = set_os o1 s"
    using assms(4) FileBackend by (auto simp: fileBackend_readAt_def split: prod.splits)
  have "inodes o1 = inodes (mos (fs_mach s))" using os_ReadAt_frame [OF r(1)] by simp
  moreover have "prefix x (drop (nat off) (inodes (mos (fs_mach s)) f)) \<and> length x \<le> n \<and>
      (err = Some EOF \<longrightarrow> nat off + length x = length (inodes (mos (fs_mach s)) f))"
    using r(1) assms(1-3) FileBackend take_is_prefix
    by (auto simp: os_ReadAt_def Let_def dest!: next_fault_frame split: if_splits prod.splits option.splits)
  ultimately show ?thesis using assms(1) r FileBackend by (auto simp: set_os_def)
qed

end

sublocale s3fs \<subseteq> rd: read_backend "back_read E" "back_serves objs"
proof
  show "back_serves objs b s d \<Longrightarrow> int64 (int (length d))" for b s d by (cases b) auto
qed (rule back_read_piece)

section \<open>Sequential reads\<close>

text \<open>A run of \<^verbatim>\<open>Read\<close> calls with buffers of the given sizes.\<close>

fun ro_reads ::
    "('w, 'c, 'd) env \<Rightarrow> nat list \<Rightarrow> readOnlyFile \<Rightarrow> ('w, 'c, 'd, 'z) S3FS_scheme
       \<Rightarrow> read_result list \<times> readOnlyFile \<times> ('w, 'c, 'd, 'z) S3FS_scheme" where
  "ro_reads E [] f s = ([], f, s)"
| "ro_reads E (n # ns) f s =
     (case readOnlyFile_Read E n f s of
        (r, f1, s1) \<Rightarrow> (case ro_reads E ns f1 s1 of (rs, f2, s2) \<Rightarrow> (r # rs, f2, s2)))"

definition ro_serves :: "('w \<Rightarrow> objects) \<Rightarrow> readOnlyFile \<Rightarrow> ('w, 'c, 'd, 'z) S3FS_scheme \<Rightarrow> bytes \<Rightarrow> bool" where
  "ro_serves objs f s d \<longleftrightarrow>
     \<not> ro_closed f \<and> back_serves objs (ro_back f) s d \<and> fi_size (ro_info f) = int (length d) \<and>
     0 \<le> ro_pos f \<and> ro_pos f \<le> int (length d)"

context s3fs
begin

lemma Read_spec:
  assumes f: "ro_serves objs f s d" and r: "readOnlyFile_Read E n f s = ((x, err), f', s')"
  shows "ro_serves objs f' s' d \<and> take (nat (ro_pos f')) d = take (nat (ro_pos f)) d @ x \<and>
         length x \<le> n \<and> (err = Some EOF \<longrightarrow> ro_pos f' = int (length d))"
proof -
  obtain pos bk where q: "seq_read (back_read E) n (int (length d)) (ro_pos f) (ro_back f) s = ((x, err), pos, bk, s')"
      "f' = f\<lparr>ro_back := bk, ro_pos := pos\<rparr>"
    using f r by (auto simp: readOnlyFile_Read_def ro_serves_def split: prod.splits)
  have b: "back_serves objs (ro_back f) s d" "0 \<le> ro_pos f" "ro_pos f \<le> int (length d)"
    using f by (auto simp: ro_serves_def)
  show ?thesis using rd.seq_read_spec [OF b q(1)] q(2) f by (auto simp: ro_serves_def)
qed

lemma ro_reads_spec:
  assumes "ro_serves objs f s d" "ro_reads E ns f s = (rs, f', s')"
  shows "ro_serves objs f' s' d \<and>
         take (nat (ro_pos f')) d = take (nat (ro_pos f)) d @ concat (map fst rs) \<and>
         (Some EOF \<in> snd ` set rs \<longrightarrow> ro_pos f' = int (length d))"
  using assms
proof (induction ns arbitrary: f s rs)
  case (Cons n ns)
  obtain x err f1 s1 where r: "readOnlyFile_Read E n f s = ((x, err), f1, s1)"
    by (cases "readOnlyFile_Read E n f s") auto
  obtain rs1 where rs: "ro_reads E ns f1 s1 = (rs1, f', s')" "rs = (x, err) # rs1"
    using Cons.prems(2) r by (auto split: prod.splits)
  note s1 = Read_spec [OF Cons.prems(1) r]
  then have ih: "ro_serves objs f' s' d"
      "take (nat (ro_pos f')) d = take (nat (ro_pos f1)) d @ concat (map fst rs1)"
      "Some EOF \<in> snd ` set rs1 \<longrightarrow> ro_pos f' = int (length d)"
    using Cons.IH [OF _ rs(1)] by auto
  have "ro_pos f' = int (length d)" if "err = Some EOF"
  proof -
    have "take (nat (ro_pos f')) d = d @ concat (map fst rs1)" using ih(2) s1 that by simp
    then have "length d \<le> length (take (nat (ro_pos f')) d)" by simp
    then show ?thesis using ih(1) by (auto simp: ro_serves_def)
  qed
  then show ?case using ih s1 rs(2) by auto
qed simp

end

section \<open>Random access\<close>

text \<open>A body that delivers a range, read with \<^verbatim>\<open>io.ReadFull\<close>.\<close>

lemma ReadFull_spec:
  assumes "delivers bd (take n d)" "ReadFull n bd = (x, err)"
  shows "prefix x (take n d)" and "err = None \<Longrightarrow> x = take n d \<and> n \<le> length d"
    and "err \<in> {Some EOF, Some ErrUnexpectedEOF} \<Longrightarrow> body_end bd \<noteq> ErrUnexpectedEOF \<Longrightarrow>
         x = take n d \<and> length x < n"
proof -
  let ?c = "concat (chunks bd)"
  have c: "prefix ?c (take n d)" "body_end bd = EOF \<Longrightarrow> ?c = take n d"
    using assms(1) by (auto simp: delivers_def)
  have full: "?c = take n d \<and> n \<le> length d" if "n \<le> length ?c"
  proof -
    obtain zs where zs: "take n d = ?c @ zs" using c(1) by (auto simp: prefix_def)
    have len: "length (take n d) = length ?c + length zs" by (simp only: zs length_append)
    have "length zs = 0" "n \<le> length d" using that len unfolding length_take by arith+
    then show ?thesis using zs by simp
  qed
  show "prefix x (take n d)" "err = None \<Longrightarrow> x = take n d \<and> n \<le> length d"
    "err \<in> {Some EOF, Some ErrUnexpectedEOF} \<Longrightarrow> body_end bd \<noteq> ErrUnexpectedEOF \<Longrightarrow>
         x = take n d \<and> length x < n"
    using assms(2) full c by (auto simp: ReadFull_def Let_def split: if_splits)
qed

definition clean_bodies :: "'w Client \<Rightarrow> bool" where
  "clean_bodies cl \<longleftrightarrow>
     (\<forall>b k rg w g w'. GetObject cl b k rg w = (Inr g, w') \<longrightarrow> body_end (Body g) \<noteq> ErrUnexpectedEOF)"

context s3fs
begin

lemma s3Backend_readAt_spec:
  assumes b: "back_serves objs (S3Backend b) s d" and off: "0 \<le> off" "0 < n" "int64 (off + int n)"
    and clean: "clean_bodies (client E)"
    and r: "s3Backend_readAt E n off b s = ((x, err), s')"
  shows "err \<in> {None, Some EOF} \<Longrightarrow>
      x = take n (drop (nat off) d) \<and> err = (if length x < n then Some EOF else None)"
proof -
  assume err: "err \<in> {None, Some EOF}"
  let ?rg = "Some (off, Some (off + int n - 1))"
  have "wrap64 (wrap64 (off + int n) - 1) = off + int n - 1" using off by (simp add: int64_def)
  then obtain g w where g: "GetObject (client E) (fs_bucket s) (sb_key b) ?rg (fs_world s) = (g, w)"
      and r': "((x, err), s') = (case g of Inl e \<Rightarrow> (([], Some e), s\<lparr>fs_world := w\<rparr>)
        | Inr out \<Rightarrow> (case ReadFull n (Body out) of (d, er) \<Rightarrow>
            ((d, if er = Some ErrUnexpectedEOF \<or> (er = None \<and> length d < n) then Some EOF else er), s\<lparr>fs_world := w\<rparr>)))"
    using r by (auto simp: s3Backend_readAt_def request_def split: prod.splits sum.splits)
  show ?thesis
  proof (cases g)
    case (Inl e)
    then have "e \<noteq> EOF" using GetObject_error g by blast
    then show ?thesis using Inl r' err by auto
  next
    case (Inr out)
    obtain y er where rf: "ReadFull n (Body out) = (y, er)" by (cases "ReadFull n (Body out)")
    obtain obj where "objs (fs_world s) (sb_key b) = Some obj"
        "delivers (Body out) (take (nat (off + int n - 1 + 1 - off)) (drop (nat off) (odata obj)))"
      using GetObject_range [OF g [unfolded Inr] off(1)] by auto
    then have "delivers (Body out) (take n (drop (nat off) d))" using b by simp
    note y = ReadFull_spec [OF this rf]
    have "x = y" "err = (if er = Some ErrUnexpectedEOF \<or> (er = None \<and> length y < n) then Some EOF else er)"
      using r' Inr rf by auto
    moreover have "body_end (Body out) \<noteq> ErrUnexpectedEOF" using clean g Inr unfolding clean_bodies_def by blast
    ultimately show ?thesis using y(2,3) err by (auto split: if_splits)
  qed
qed

lemma back_readAt_spec:
  assumes b: "back_serves objs b s d" and off: "0 \<le> off" "0 < n" "int64 (off + int n)"
    and clean: "clean_bodies (client E)"
    and r: "back_readAt E n off b s = ((x, err), s')" and err: "err \<in> {None, Some EOF}"
  shows "x = take n (drop (nat off) d) \<and> err = (if length x < n then Some EOF else None)"
proof (cases b)
  case (S3Backend c)
  then have "s3Backend_readAt E n off c s = ((x, err), s')" using r by simp
  from s3Backend_readAt_spec [OF b [unfolded S3Backend] off clean this err] show ?thesis .
next
  case (BytesBackend y)
  then show ?thesis using b r off by (auto simp: bytesBackend_readAt_def Let_def split: if_splits)
next
  case (FileBackend f)
  then obtain o1 where "os_ReadAt n off f (mos (fs_mach s)) = ((x, err), o1)"
    using r by (auto simp: fileBackend_readAt_def split: prod.splits)
  then show ?thesis using os_ReadAt_ok off(1) err b FileBackend by fastforce
qed

end

section \<open>Properties\<close>

text \<open>
  C22: sequential reads deliver the file. Whatever the backend (a stream from S3 that may be
  short, end early or fail, a cached body, a local file) and whatever the buffer sizes, the
  bytes returned by successive \<^verbatim>\<open>Read\<close> calls from the start are a prefix of the contents,
  and once \<^verbatim>\<open>io.EOF\<close> has been reported they are all of it.
\<close>

theorem sequential_reads_deliver_contents:
  assumes "s3fs E objs content rest pages mview dview" "ro_serves objs f s d" "ro_pos f = 0"
    "ro_reads E ns f s = (rs, f', s')"
  shows "prefix (concat (map fst rs)) d \<and> (Some EOF \<in> snd ` set rs \<longrightarrow> concat (map fst rs) = d)"
proof -
  have "ro_serves objs f' s' d" "take (nat (ro_pos f')) d = concat (map fst rs)"
      "Some EOF \<in> snd ` set rs \<longrightarrow> ro_pos f' = int (length d)"
    using s3fs.ro_reads_spec [OF assms(1,2,4)] assms(3) by auto
  then show ?thesis using take_is_prefix [of "nat (ro_pos f')" d] by (auto simp: ro_serves_def)
qed

definition demo_ro :: readOnlyFile where
  "demo_ro = fst (newReadFile ''/d/f'' \<lparr>ContentLength = Some 3, ETag = None, LastModified = None, Metadata = []\<rparr> None demo_fs)"

lemma demo_ro_eq:
  "demo_ro = \<lparr>ro_id = 0, ro_name = ''/d/f'', ro_info = \<lparr>fi_name = ''f'', fi_size = 3, fi_mode = 420, fi_modTime = 0\<rparr>,
     ro_back = S3Backend \<lparr>sb_key = ''d/f'', sb_size = 3, sb_body = None, sb_bodyPos = 0\<rparr>, ro_pos = 0, ro_closed = False\<rparr>"
  by code_simp

lemma demo_ro_serves: "ro_serves fake_objs demo_ro demo_fs [49, 50, 51]"
  by (simp add: ro_serves_def demo_ro_eq demo_fs_def int64_def)

theorem sequential_reads_deliver_contents_witness:
  "\<exists>rs f' s'. ro_reads fake_env [2, 4, 1] demo_ro demo_fs = (rs, f', s') \<and>
     Some EOF \<in> snd ` set rs \<and> concat (map fst rs) = [49, 50, 51]"
proof -
  obtain rs f' s' where r: "ro_reads fake_env [2, 4, 1] demo_ro demo_fs = (rs, f', s')"
    using prod_cases3 by blast
  have "Some EOF \<in> snd ` set (fst (ro_reads fake_env [2, 4, 1] demo_ro demo_fs))"
    unfolding demo_ro_eq by code_simp
  moreover have "ro_pos demo_ro = 0" by (simp add: demo_ro_eq)
  ultimately show ?thesis
    using sequential_reads_deliver_contents [OF fake_fs.s3fs_axioms demo_ro_serves _ r] r by simp
qed


lemma fake_bodies_end_cleanly: "clean_bodies (client fake_env)"
  by (auto simp: clean_bodies_def fake_env_def fake_client_def body_end_def HeadObjectOutput.defs
      split: option.splits)


text \<open>
  C40: the proviso of the previous property is needed. A transfer cut off in the middle, which
  the HTTP client reports as \<^verbatim>\<open>io.ErrUnexpectedEOF\<close>, is indistinguishable from the end of
  the file for the caller of \<^verbatim>\<open>ReadAt\<close>: it gets the bytes received so far with
  \<^verbatim>\<open>io.EOF\<close>, although more bytes follow.
\<close>

theorem readAt_hides_truncated_transfer:
  assumes "GetObject (client E) (fs_bucket s) (sb_key b) (Some (off, Some (wrap64 (wrap64 (off + int n) - 1))))
             (fs_world s) = (Inr g, w)"
    "concat (chunks (Body g)) = part" "fin (Body g) = Some ErrUnexpectedEOF" "part \<noteq> []" "length part < n"
  shows "fst (s3Backend_readAt E n off b s) = (part, Some EOF)"
  using assms by (auto simp: s3Backend_readAt_def request_def ReadFull_def body_end_def split: prod.splits)

definition broken_get :: GetObjectOutput where
  "broken_get = \<lparr>ContentLength = Some 3, ETag = None, LastModified = None, Metadata = [],
     Body = \<lparr>chunks = [[49]], fin = Some ErrUnexpectedEOF, eager = False, close_err = None\<rparr>\<rparr>"

definition broken_client :: "fake Client" where
  "broken_client = fake_client\<lparr>GetObject := (\<lambda>b k rg w. (Inr broken_get, w))\<rparr>"

theorem readAt_hides_truncated_transfer_witness:
  "fst (s3Backend_readAt (fake_env\<lparr>client := broken_client\<rparr>) 3 0
     \<lparr>sb_key = ''d/f'', sb_size = 3, sb_body = None, sb_bodyPos = 0\<rparr> demo_fs) = ([49], Some EOF)"
  by (rule readAt_hides_truncated_transfer [where g = broken_get and w = "fs_world demo_fs"])
     (simp_all add: broken_client_def broken_get_def)

text \<open>
  C35: \<^verbatim>\<open>seekPos\<close> is exact on 64-bit positions: it returns the sum of the base selected by
  \<^verbatim>\<open>whence\<close> and the offset when that is a position, and rejects the seek when the sum is
  negative or overflows.
\<close>

theorem seekPos_exact:
  assumes "int64 pos" "int64 size0" "int64 offset" "0 \<le> pos" "0 \<le> size0"
  shows "seekPos pos size0 offset whence =
    (if whence \<in> {0, 1, 2} \<and> 0 \<le> [0, pos, size0] ! nat whence + offset
        \<and> [0, pos, size0] ! nat whence + offset < 2 ^ 63
     then Inr ([0, pos, size0] ! nat whence + offset) else Inl ErrInvalid)"
proof -
  have wrap: "(if wrap64 (base + offset) < 0 then Inl ErrInvalid else Inr (wrap64 (base + offset))) =
      (if 0 \<le> base + offset \<and> base + offset < 2 ^ 63 then Inr (base + offset) else Inl ErrInvalid)"
    if "0 \<le> base" "int64 base" for base :: int
  proof (cases "base + offset < 2 ^ 63")
    case True
    then show ?thesis using that assms(3) by (simp add: int64_def)
  next
    case False
    have "(base + offset + 2 ^ 63) mod 2 ^ 64 = base + offset - 2 ^ 63"
      using False that assms(3) by (simp add: int64_def mod_pos_geq zmod_trivial_iff)
    then show ?thesis using False that assms(3) by (simp add: wrap64_def int64_def)
  qed
  consider "whence = 0" | "whence = 1" | "whence = 2" | "whence \<notin> {0, 1, 2}" by blast
  then show ?thesis
  proof cases
    case 1
    then show ?thesis using assms(3) by (simp add: seekPos_def int64_def)
  next
    case 2
    then show ?thesis using wrap [OF assms(4,1)] by (simp add: seekPos_def)
  next
    case 3
    then show ?thesis using wrap [OF assms(5,2)] by (simp add: seekPos_def)
  qed (simp add: seekPos_def)
qed

theorem seekPos_exact_witness:
  "seekPos 5 9 (-3) 1 = Inr 2 \<and> seekPos 5 9 (2 ^ 63 - 1) 1 = Inl ErrInvalid"
  using seekPos_exact [of 5 9 "-3" 1] seekPos_exact [of 5 9 "2 ^ 63 - 1" 1] by (simp add: int64_def)

end
