(* ===== verification/S3ops.thy ===== *)
theory S3ops
  imports FileRead
begin

text \<open>
  The request primitives of \<^verbatim>\<open>s3ops.go\<close>, each with its cache bookkeeping, and
  \<^verbatim>\<open>copyStream\<close> of \<^verbatim>\<open>pool.go\<close>. The lemmas relate each primitive to the map of objects in
  the bucket: what it returns is true of the map, it changes the map as its name says, and the
  cache tiers stay coherent with the map (\<open>fs_ok\<close>).
\<close>

section \<open>Heads, uploads, downloads\<close>

text \<open>A cached negative lookup.\<close>

definition negative :: "memEntry option \<Rightarrow> bool" where
  "negative e = (case e of Some x \<Rightarrow> \<not> me_exists x | None \<Rightarrow> False)"

definition S3FS_head ::
    "('w, 'c, 'd) env \<Rightarrow> string \<Rightarrow> ('w, 'c, 'd, 'z) S3FS_scheme
       \<Rightarrow> (goerr + HeadObjectOutput) \<times> ('w, 'c, 'd, 'z) S3FS_scheme" where
  "S3FS_head E k s =
     (case mem_find E k s of
        (e, s1) \<Rightarrow>
          if negative e then (Inl NotFound, s1)
          else case Option.bind e me_head of
            Some h \<Rightarrow> (Inr h, s1)
          | None \<Rightarrow>
              (case request (HeadObject (client E) (fs_bucket s1) k) s1 of
                 (Inr out, s2) \<Rightarrow> (Inr out, with_mem (mem_store (mem_lru E) (now E s2) k True (Some out) None) s2)
               | (Inl err, s2) \<Rightarrow>
                   (Inl err, if isNotFound err
                             then with_mem (mem_store (mem_lru E) (now E s2) k False None None) s2 else s2)))"

definition S3FS_put ::
    "('w, 'c, 'd) env \<Rightarrow> string \<Rightarrow> bytes option \<Rightarrow> strmap \<Rightarrow> ('w, 'c, 'd, 'z) S3FS_scheme
       \<Rightarrow> goerr option \<times> ('w, 'c, 'd, 'z) S3FS_scheme" where
  "S3FS_put E k data meta s =
     (let body0 = (case data of None \<Rightarrow> [] | Some d \<Rightarrow> d)
      in case request (PutObject (client E)
           \<lparr>put_Bucket = fs_bucket s, put_Key = k, put_Body = body0, put_ContentLength = None,
            put_Metadata = meta, put_IfNoneMatch = None, put_IfMatch = None\<rparr>) s of
           (Inl err, s1) \<Rightarrow> (Some err, s1)
         | (Inr etag, s1) \<Rightarrow>
             let s2 = with_mem (mem_storeWrite (mem_lru E) (now E s1) k (int (length body0)) (ToString etag)
                                  (Some body0) meta) s1
             in (None, with_disk (disk_dropDeleted (disk_lru E) k) s2))"

definition S3FS_putSpill ::
    "('w, 'c, 'd) env \<Rightarrow> string \<Rightarrow> fileBuf \<Rightarrow> strmap \<Rightarrow> ('w, 'c, 'd, 'z) S3FS_scheme
       \<Rightarrow> (goerr + string) \<times> ('w, 'c, 'd, 'z) S3FS_scheme" where
  "S3FS_putSpill E k fb meta s0 =
     (case os_SeekStart (fb_f fb) (mos (fs_mach s0)) of
        (Some err, o1) \<Rightarrow> (Inl err, set_os o1 s0)
      | (None, o1) \<Rightarrow>
          let s = set_os o1 s0
          in case request (PutObject (client E)
               \<lparr>put_Bucket = fs_bucket s, put_Key = k, put_Body = inodes (mos (fs_mach s)) (fb_f fb),
                put_ContentLength = Some (fb_sz fb),
                put_Metadata = meta, put_IfNoneMatch = None, put_IfMatch = None\<rparr>) s of
               (Inl err, s1) \<Rightarrow> (Inl err, s1)
             | (Inr t, s1) \<Rightarrow>
                 let etag = ToString t;
                     s2 = with_mem (mem_storeWrite (mem_lru E) (now E s1) k (fb_sz fb) etag None meta) s1
                 in (Inr etag, with_disk (disk_dropDeleted (disk_lru E) k) s2))"

definition spillThreshold :: "('w, 'c, 'd, 'z) S3FS_scheme \<Rightarrow> int" where
  "spillThreshold s = (case fs_mem s of Some c \<Rightarrow> maxDataBytes c | None \<Rightarrow> defaultSpillLimit)"

definition S3FS_getAll ::
    "('w, 'c, 'd) env \<Rightarrow> string \<Rightarrow> ('w, 'c, 'd, 'z) S3FS_scheme
       \<Rightarrow> (goerr + bytes) \<times> ('w, 'c, 'd, 'z) S3FS_scheme" where
  "S3FS_getAll E k s =
     (case request (GetObject (client E) (fs_bucket s) k None) s of
        (Inl err, s1) \<Rightarrow> (Inl err, s1)
      | (Inr out, s1) \<Rightarrow> (ReadAll (Body out), s1))"

text \<open>
  \<^verbatim>\<open>copyStream\<close> into a new file: chunks of at most \<^verbatim>\<open>copyBufSize\<close> bytes, written one after
  another. It returns the number of bytes written and the error, if any.
\<close>

definition body_measure :: "body \<Rightarrow> nat" where
  "body_measure b = sum_list (map (\<lambda>c. Suc (length c)) (chunks b))"

lemma body_Read_measure:
  "body_Read n b = ((d, None), b') \<Longrightarrow> 0 < n \<Longrightarrow> body_measure b' < body_measure b"
  by (auto simp: body_Read_def body_measure_def split: list.splits if_splits)

function copyStream :: "ino \<Rightarrow> int \<Rightarrow> body \<Rightarrow> osfs \<Rightarrow> (int \<times> goerr option) \<times> osfs" where
  "copyStream f written b s =
     (case body_Read copyBufSize b of
        ((d, er), b1) \<Rightarrow>
          (case (if d = [] then ((0, None), s) else os_WriteAt d written f s) of
             ((nw, ew), s1) \<Rightarrow>
               let w = written + int nw
               in if ew \<noteq> None then ((w, ew), s1)
                  else case er of
                    None \<Rightarrow> copyStream f w b1 s1
                  | Some e \<Rightarrow> ((w, if e = EOF then None else Some e), s1)))"
  by auto
termination
  by (relation "measure (\<lambda>(f, w, b, s). body_measure b)")
     (auto simp: copyBufSize_def dest!: sym [of _ "body_Read _ _"] intro: body_Read_measure)

declare copyStream.simps [simp del]

text \<open>
  Loading an object's contents for a read-modify-write: a new spill file filled from a body,
  or memory. An array read by \<^verbatim>\<open>io.ReadAll\<close> is taken to have no spare capacity, which a
  buffer does not show. Closing a file ends its use; only the name of a dropped spill file
  matters.
\<close>

definition loadSpill ::
    "body \<Rightarrow> fileBuf \<Rightarrow> ('w, 'c, 'd, 'z) S3FS_scheme
       \<Rightarrow> (goerr + writeBuf) \<times> ('w, 'c, 'd, 'z) S3FS_scheme" where
  "loadSpill bd fb s =
     (case copyStream (fb_f fb) 0 bd (mos (fs_mach s)) of
        ((n, Some err), o1) \<Rightarrow>
          (let s1 = set_os o1 s in (Inl err, s1\<lparr>fs_mach := fileBuf_destroy fb (fs_mach s1)\<rparr>))
      | ((n, None), o1) \<Rightarrow> (Inr (FileBuf (fb\<lparr>fb_sz := n\<rparr>)), set_os o1 s))"

definition memBuf_of ::
    "(goerr + bytes) \<times> ('w, 'c, 'd, 'z) S3FS_scheme \<Rightarrow> (goerr + writeBuf) \<times> ('w, 'c, 'd, 'z) S3FS_scheme" where
  "memBuf_of r =
     (case r of
        (Inl err, s) \<Rightarrow> (Inl err, s)
      | (Inr d, s) \<Rightarrow> (case newMemBuf (Some d) (fs_mach s) of (b, m) \<Rightarrow> (Inr (MemBuf b), s\<lparr>fs_mach := m\<rparr>)))"

definition bufForExisting ::
    "('w, 'c, 'd) env \<Rightarrow> string \<Rightarrow> HeadObjectOutput \<Rightarrow> ('w, 'c, 'd, 'z) S3FS_scheme
       \<Rightarrow> (goerr + writeBuf) \<times> ('w, 'c, 'd, 'z) S3FS_scheme" where
  "bufForExisting E p h s =
     (let k = key (fs_prefix s) p
      in if fs_disk s = None \<or> ToInt64 (ContentLength h) \<le> spillThreshold s
         then memBuf_of (S3FS_getAll E k s)
         else case disk_run (Inl OsError) disk_newSpill s of
           (Inl _, s1) \<Rightarrow> memBuf_of (S3FS_getAll E k s1)
         | (Inr fb, s1) \<Rightarrow>
             (case request (GetObject (client E) (fs_bucket s1) k None) s1 of
                (Inl err, s2) \<Rightarrow> (Inl err, s2\<lparr>fs_mach := fileBuf_destroy fb (fs_mach s2)\<rparr>)
              | (Inr out, s2) \<Rightarrow> loadSpill (Body out) fb s2))"

definition bufFromGet ::
    "HeadObjectOutput \<Rightarrow> GetObjectOutput \<Rightarrow> ('w, 'c, 'd, 'z) S3FS_scheme
       \<Rightarrow> (goerr + writeBuf) \<times> ('w, 'c, 'd, 'z) S3FS_scheme" where
  "bufFromGet h g s =
     (if fs_disk s = None \<or> ToInt64 (ContentLength h) \<le> spillThreshold s
      then memBuf_of (ReadAll (Body g), s)
      else case disk_run (Inl OsError) disk_newSpill s of
        (Inl _, s1) \<Rightarrow> memBuf_of (ReadAll (Body g), s1)
      | (Inr fb, s1) \<Rightarrow> loadSpill (Body g) fb s1)"

definition S3FS_delete ::
    "('w, 'c, 'd) env \<Rightarrow> string \<Rightarrow> ('w, 'c, 'd, 'z) S3FS_scheme
       \<Rightarrow> goerr option \<times> ('w, 'c, 'd, 'z) S3FS_scheme" where
  "S3FS_delete E k s =
     (case request (DeleteObject (client E) (fs_bucket s) k) s of
        (Some err, s1) \<Rightarrow> (Some err, s1)
      | (None, s1) \<Rightarrow>
          (None, with_disk (disk_dropDeleted (disk_lru E) k) (with_mem (mem_dropDeleted (mem_lru E) k) s1)))"

definition copySource :: "string \<Rightarrow> string \<Rightarrow> string" where
  "copySource bucket srcKey = bucket @ ''/'' @ join_slash (map PathEscape (split_slash srcKey))"

definition S3FS_copy ::
    "('w, 'c, 'd) env \<Rightarrow> string \<Rightarrow> string \<Rightarrow> ('w, 'c, 'd, 'z) S3FS_scheme
       \<Rightarrow> goerr option \<times> ('w, 'c, 'd, 'z) S3FS_scheme" where
  "S3FS_copy E srcKey dstKey s =
     (case request (CopyObject (client E) (fs_bucket s) dstKey (copySource (fs_bucket s) srcKey)) s of
        (Some err, s1) \<Rightarrow> (Some err, s1)
      | (None, s1) \<Rightarrow>
          let s2 = with_mem (mem_storeCopied (mem_lru E) (now E s1) srcKey dstKey) s1
          in (None, with_disk (disk_copied (disk_lru E) (now E s2) srcKey dstKey) s2))"

section \<open>Listing\<close>

text \<open>
  \<^verbatim>\<open>listAllKeys\<close> runs until a page is not truncated. The fuel bounds the number of pages;
  \<open>None\<close> is a run that has not ended after that many.
\<close>

fun listLoop ::
    "('w, 'c, 'd) env \<Rightarrow> nat \<Rightarrow> ListObjectsV2Input \<Rightarrow> string list \<Rightarrow> ('w, 'c, 'd, 'z) S3FS_scheme
       \<Rightarrow> ((goerr + string list) \<times> ('w, 'c, 'd, 'z) S3FS_scheme) option" where
  "listLoop E 0 inp keys s = None"
| "listLoop E (Suc fuel) inp keys s =
     (case request (ListObjectsV2 (client E) inp) s of
        (Inl err, s1) \<Rightarrow> Some (Inl err, s1)
      | (Inr out, s1) \<Rightarrow>
          let keys1 = keys @ map (\<lambda>x. ToString (obj_Key x)) (Contents out)
          in if ToBool (IsTruncated out)
             then listLoop E fuel (inp\<lparr>list_ContinuationToken := NextContinuationToken out\<rparr>) keys1 s1
             else Some (Inr keys1, s1))"

definition listAllKeys ::
    "('w, 'c, 'd) env \<Rightarrow> nat \<Rightarrow> string \<Rightarrow> ('w, 'c, 'd, 'z) S3FS_scheme
       \<Rightarrow> ((goerr + string list) \<times> ('w, 'c, 'd, 'z) S3FS_scheme) option" where
  "listAllKeys E fuel pre s =
     listLoop E fuel \<lparr>list_Bucket = fs_bucket s, list_Prefix = pre, list_Delimiter = None,
                      list_MaxKeys = None, list_ContinuationToken = None\<rparr> [] s"

definition dirExists ::
    "('w, 'c, 'd) env \<Rightarrow> string \<Rightarrow> ('w, 'c, 'd, 'z) S3FS_scheme
       \<Rightarrow> (goerr + bool) \<times> ('w, 'c, 'd, 'z) S3FS_scheme" where
  "dirExists E p s =
     (if cleanPath p = ''/'' then (Inr True, s)
      else let pre = listPrefix (fs_prefix s) p
           in case mem_find E pre s of
                (Some e, s1) \<Rightarrow> (Inr (me_exists e), s1)
              | (None, s1) \<Rightarrow>
                  (case request (ListObjectsV2 (client E)
                     \<lparr>list_Bucket = fs_bucket s1, list_Prefix = pre, list_Delimiter = None,
                      list_MaxKeys = Some 1, list_ContinuationToken = None\<rparr>) s1 of
                     (Inl err, s2) \<Rightarrow> (Inl err, s2)
                   | (Inr out, s2) \<Rightarrow>
                       let ex = (Contents out \<noteq> [] \<or> ToBool (IsTruncated out))
                       in (Inr ex, with_mem (mem_store (mem_lru E) (now E s2) pre ex None None) s2)))"

section \<open>Resolving symlinks\<close>

text \<open>
  \<^verbatim>\<open>resolve\<close> follows symlinks on the final component. The hop counter is bounded, so the
  loop ends; the result is the path, the head of the object found there, the hops, the error.
\<close>

definition nextHop :: "string \<Rightarrow> string \<Rightarrow> string" where
  "nextHop p target = (if path_IsAbs target then path_Clean target else path_Join [path_Dir p, target])"

function resolveLoop ::
    "('w, 'c, 'd) env \<Rightarrow> string \<Rightarrow> string \<Rightarrow> nat \<Rightarrow> ('w, 'c, 'd, 'z) S3FS_scheme
       \<Rightarrow> (string \<times> HeadObjectOutput option \<times> nat \<times> goerr option) \<times> ('w, 'c, 'd, 'z) S3FS_scheme" where
  "resolveLoop E opn p hops s =
     (if p = ''/'' then ((p, None, hops, None), s)
      else case S3FS_head E (key (fs_prefix s) p) s of
        (Inl err, s1) \<Rightarrow> ((p, None, hops, if isNotFound err then None else Some err), s1)
      | (Inr h, s1) \<Rightarrow>
          (case symlinkTarget (Some h) of
             None \<Rightarrow> ((p, Some h, hops, None), s1)
           | Some target \<Rightarrow>
               if Suc hops > maxSymlinkDepth
               then ((p, None, Suc hops, Some (PathError opn p ErrTooManySymlinks)), s1)
               else resolveLoop E opn (nextHop p target) (Suc hops) s1))"
  by auto
termination
  by (relation "measure (\<lambda>(E, opn, p, hops, s). Suc maxSymlinkDepth - hops)") auto

declare resolveLoop.simps [simp del]

definition resolve ::
    "('w, 'c, 'd) env \<Rightarrow> string \<Rightarrow> string \<Rightarrow> ('w, 'c, 'd, 'z) S3FS_scheme
       \<Rightarrow> (string \<times> HeadObjectOutput option \<times> nat \<times> goerr option) \<times> ('w, 'c, 'd, 'z) S3FS_scheme" where
  "resolve E opn p s = resolveLoop E opn (cleanPath p) 0 s"

definition headOrGet ::
    "('w, 'c, 'd) env \<Rightarrow> string \<Rightarrow> ('w, 'c, 'd, 'z) S3FS_scheme
       \<Rightarrow> (goerr + HeadObjectOutput \<times> GetObjectOutput option) \<times> ('w, 'c, 'd, 'z) S3FS_scheme" where
  "headOrGet E k s =
     (case mem_find E k s of
        (e, s1) \<Rightarrow>
          if negative e then (Inl NotFound, s1)
          else case Option.bind e me_head of
            Some h \<Rightarrow> (Inr (h, None), s1)
          | None \<Rightarrow>
              (case disk_run False (disk_has (disk_lru E) (now E s1) k) s1 of
                 (True, s2) \<Rightarrow>
                   (case S3FS_head E k s2 of
                      (Inl err, s3) \<Rightarrow> (Inl err, s3)
                    | (Inr h, s3) \<Rightarrow> (Inr (h, None), s3))
               | (False, s2) \<Rightarrow>
                   (case request (GetObject (client E) (fs_bucket s2) k None) s2 of
                      (Inl err, s3) \<Rightarrow>
                        (Inl err, if isNotFound err
                                  then with_mem (mem_store (mem_lru E) (now E s3) k False None None) s3 else s3)
                    | (Inr out, s3) \<Rightarrow>
                        (Inr (headFromGet out, Some out),
                         with_mem (mem_store (mem_lru E) (now E s3) k True (Some (headFromGet out)) None) s3))))"

function resolveForReadLoop ::
    "('w, 'c, 'd) env \<Rightarrow> string \<Rightarrow> string \<Rightarrow> nat \<Rightarrow> ('w, 'c, 'd, 'z) S3FS_scheme
       \<Rightarrow> (string \<times> HeadObjectOutput option \<times> GetObjectOutput option \<times> nat \<times> goerr option)
           \<times> ('w, 'c, 'd, 'z) S3FS_scheme" where
  "resolveForReadLoop E opn p hops s =
     (if p = ''/'' then ((p, None, None, hops, None), s)
      else case headOrGet E (key (fs_prefix s) p) s of
        (Inl err, s1) \<Rightarrow> ((p, None, None, hops, if isNotFound err then None else Some err), s1)
      | (Inr (h, g), s1) \<Rightarrow>
          (case symlinkTarget (Some h) of
             None \<Rightarrow> ((p, Some h, g, hops, None), s1)
           | Some target \<Rightarrow>
               if Suc hops > maxSymlinkDepth
               then ((p, None, None, Suc hops, Some (PathError opn p ErrTooManySymlinks)), s1)
               else resolveForReadLoop E opn (nextHop p target) (Suc hops) s1))"
  by auto
termination
  by (relation "measure (\<lambda>(E, opn, p, hops, s). Suc maxSymlinkDepth - hops)") auto

declare resolveForReadLoop.simps [simp del]

definition resolveForRead ::
    "('w, 'c, 'd) env \<Rightarrow> string \<Rightarrow> string \<Rightarrow> ('w, 'c, 'd, 'z) S3FS_scheme
       \<Rightarrow> (string \<times> HeadObjectOutput option \<times> GetObjectOutput option \<times> nat \<times> goerr option)
           \<times> ('w, 'c, 'd, 'z) S3FS_scheme" where
  "resolveForRead E opn p s = resolveForReadLoop E opn (cleanPath p) 0 s"

section \<open>Opening for reading\<close>

text \<open>
  The results are a file, if one was opened (\<^verbatim>\<open>ok\<close>), or an error; \<open>Inr None\<close> is
  \<^verbatim>\<open>ok=false\<close> with a nil error.
\<close>

type_synonym 's open_result = "(goerr + readOnlyFile option) \<times> 's"

definition opened :: "readOnlyFile \<times> 's \<Rightarrow> 's open_result" where
  "opened r = (Inr (Some (fst r)), snd r)"

definition diskFill ::
    "('w, 'c, 'd) env \<Rightarrow> string \<Rightarrow> string \<Rightarrow> HeadObjectOutput \<Rightarrow> string \<Rightarrow> body
       \<Rightarrow> ('w, 'c, 'd, 'z) S3FS_scheme \<Rightarrow> ('w, 'c, 'd, 'z) S3FS_scheme open_result" where
  "diskFill E k etag h p bd s =
     (case disk_run (Some OsError) disk_ensure s of
        (Some _, s1) \<Rightarrow> (Inr None, s1)
      | (None, s1) \<Rightarrow>
          (case disk_run '''' (\<lambda>c o1. case disk_newPath ''c'' c of (q, c1) \<Rightarrow> (q, c1, o1)) s1 of
             (tmp, s2) \<Rightarrow>
               (case os_CreateExcl tmp (mos (fs_mach s2)) of
                  (Inl _, o1) \<Rightarrow> (Inr None, set_os o1 s2)
                | (Inr f, o1) \<Rightarrow>
                    (case copyStream f 0 bd o1 of
                       ((size0, Some err), o2) \<Rightarrow> (Inl err, set_os (snd (os_Remove tmp o2)) s2)
                     | ((size0, None), o2) \<Rightarrow>
                         let info = (infoFromHeadValue (path_Base p) h)\<lparr>fi_size := size0\<rparr>
                         in if etag = ''''
                            then opened (newDiskReadFile f p info (set_os (snd (os_Remove tmp o2)) s2))
                            else opened (newDiskReadFile f p info
                                   (with_disk (disk_insert (disk_lru E) (now E s2) k etag tmp size0) (set_os o2 s2)))))))"

definition diskFetch ::
    "('w, 'c, 'd) env \<Rightarrow> string \<Rightarrow> HeadObjectOutput \<Rightarrow> string
       \<Rightarrow> ('w, 'c, 'd, 'z) S3FS_scheme \<Rightarrow> ('w, 'c, 'd, 'z) S3FS_scheme open_result" where
  "diskFetch E k h p s =
     (case disk_run (Some OsError) disk_ensure s of
        (Some _, s1) \<Rightarrow> (Inr None, s1)
      | (None, s1) \<Rightarrow>
          (case request (GetObject (client E) (fs_bucket s1) k None) s1 of
             (Inl err, s2) \<Rightarrow> (Inl (if isNotFound err then PathError ''open'' p ErrNotExist else err), s2)
           | (Inr out, s2) \<Rightarrow>
               diskFill E k (if ToString (ETag out) = '''' then ToString (ETag h) else ToString (ETag out))
                 h p (Body out) s2))"

text \<open>Whether a body fits a tier: \<^verbatim>\<open>size <= s.mem.maxDataBytes()\<close>, \<^verbatim>\<open>size+entryOverhead <= s.disk.maxBytes\<close>.\<close>

definition fits_mem :: "int \<Rightarrow> ('w, 'c, 'd, 'z) S3FS_scheme \<Rightarrow> bool" where
  "fits_mem size0 s = (case fs_mem s of None \<Rightarrow> False | Some c \<Rightarrow> size0 \<le> maxDataBytes c)"

definition fits_disk :: "int \<Rightarrow> ('w, 'c, 'd, 'z) S3FS_scheme \<Rightarrow> bool" where
  "fits_disk size0 s = (case fs_disk s of None \<Rightarrow> False | Some c \<Rightarrow> wrap64 (size0 + entryOverhead) \<le> dc_maxBytes c)"

definition cachedOpen ::
    "('w, 'c, 'd) env \<Rightarrow> string \<Rightarrow> HeadObjectOutput
       \<Rightarrow> ('w, 'c, 'd, 'z) S3FS_scheme \<Rightarrow> ('w, 'c, 'd, 'z) S3FS_scheme open_result" where
  "cachedOpen E p h s =
     (let size0 = ToInt64 (ContentLength h); k = key (fs_prefix s) p; info = infoFromHeadValue (path_Base p) h
      in if fits_mem size0 s then
           (case mem_find E k s of
              (e, s1) \<Rightarrow>
                (case (if negative e then None else Option.bind e me_data) of
                   Some d \<Rightarrow> opened (newMemReadFile p info d s1)
                 | None \<Rightarrow>
                     (case S3FS_getAll E k s1 of
                        (Inl err, s2) \<Rightarrow> (Inl (if isNotFound err then PathError ''open'' p ErrNotExist else err), s2)
                      | (Inr d, s2) \<Rightarrow>
                          opened (newMemReadFile p info d
                            (with_mem (mem_store (mem_lru E) (now E s2) k True (Some h) (Some d)) s2)))))
         else if fits_disk size0 s then
           (case disk_run None (disk_open (disk_lru E) (now E s) k (ToString (ETag h))) s of
              (Some f, s1) \<Rightarrow> opened (newDiskReadFile f p info s1)
            | (None, s1) \<Rightarrow> diskFetch E k h p s1)
         else (Inr None, s))"

definition openFromGet ::
    "('w, 'c, 'd) env \<Rightarrow> string \<Rightarrow> HeadObjectOutput \<Rightarrow> GetObjectOutput
       \<Rightarrow> ('w, 'c, 'd, 'z) S3FS_scheme \<Rightarrow> (goerr + readOnlyFile) \<times> ('w, 'c, 'd, 'z) S3FS_scheme" where
  "openFromGet E p h g s =
     (let size0 = ToInt64 (ContentLength h); k = key (fs_prefix s) p; info = infoFromHeadValue (path_Base p) h
      in if fits_mem size0 s then
           (case ReadAll (Body g) of
              Inl err \<Rightarrow> (Inl err, s)
            | Inr d \<Rightarrow>
                (case newMemReadFile p info d
                        (with_mem (mem_store (mem_lru E) (now E s) k True (Some h) (Some d)) s) of
                   (f, s1) \<Rightarrow> (Inr f, s1)))
         else if fits_disk size0 s then
           (case diskFill E k (ToString (ETag h)) h p (Body g) s of
              (Inl err, s1) \<Rightarrow> (Inl err, s1)
            | (Inr (Some f), s1) \<Rightarrow> (Inr f, s1)
            | (Inr None, s1) \<Rightarrow> (case newReadFile p h (Some (Body g)) s1 of (f, s2) \<Rightarrow> (Inr f, s2)))
         else (case newReadFile p h (Some (Body g)) s of (f, s1) \<Rightarrow> (Inr f, s1)))"

section \<open>Keys of files and directories\<close>

lemma last_join_slash:
  "xs \<noteq> [] \<Longrightarrow> last xs \<noteq> [] \<Longrightarrow> join_slash xs \<noteq> [] \<and> last (join_slash xs) = last (last xs)"
  by (induction xs rule: join_slash.induct) auto

lemma TrimSlashes_last: "TrimSlashes s \<noteq> [] \<Longrightarrow> last (TrimSlashes s) \<noteq> slash"
proof -
  assume ne: "TrimSlashes s \<noteq> []"
  let ?r = "dropWhile (\<lambda>c. c = slash) (rev (dropWhile (\<lambda>c. c = slash) s))"
  have "?r \<noteq> []" using ne by (simp add: TrimSlashes_def)
  then have "hd ?r \<noteq> slash" by (rule hd_dropWhile)
  then show ?thesis using \<open>?r \<noteq> []\<close> by (simp add: TrimSlashes_def last_rev)
qed

lemma key_not_dir: "\<not> dir_key (key (WithPrefix q) p)"
proof (cases "elems p = []")
  case True
  then show ?thesis
    using TrimSlashes_last [of "path_Clean (''/'' @ ReplaceBackslash q)"]
    by (auto simp: key_eq dir_key_def WithPrefix_def)
next
  case False
  let ?xs = "(if WithPrefix q = '''' then [] else [WithPrefix q]) @ elems p"
  have "elem_ok (last (elems p))" using False elems_ok by (metis last_in_set)
  then have l: "last ?xs = last (elems p)" "last (elems p) \<noteq> []" "slash \<notin> set (last (elems p))"
    using False by (auto simp: elem_ok_def)
  then have "last (join_slash ?xs) = last (last (elems p))"
    using last_join_slash [of ?xs] False by auto
  then have "last (join_slash ?xs) \<noteq> slash" using l(2,3) by (metis last_in_set)
  then show ?thesis by (simp add: key_eq dir_key_def)
qed

lemma listPrefix_dir: "listPrefix pre p \<noteq> '''' \<Longrightarrow> dir_key (listPrefix pre p)"
  by (auto simp: listPrefix_def dir_key_def Let_def)

section \<open>The primitives and the object map\<close>

text \<open>The parts of the state a primitive does not touch.\<close>

definition same_conf :: "('w, 'c, 'd, 'z) S3FS_scheme \<Rightarrow> ('w, 'c, 'd, 'z) S3FS_scheme \<Rightarrow> bool" where
  "same_conf s s' \<longleftrightarrow>
     fs_bucket s' = fs_bucket s \<and> fs_prefix s' = fs_prefix s \<and> (fs_mem s' = None) = (fs_mem s = None) \<and>
     (fs_disk s' = None) = (fs_disk s = None) \<and> fs_locks s' = fs_locks s \<and> fs_nextid s \<le> fs_nextid s' \<and>
     S3FS.more s' = S3FS.more s"

lemma same_conf_refl [simp]: "same_conf s s"
  by (simp add: same_conf_def)

lemma same_conf_trans: "same_conf a b \<Longrightarrow> same_conf b c \<Longrightarrow> same_conf a c"
  by (auto simp: same_conf_def)

lemma same_conf_world [simp]: "same_conf s (s\<lparr>fs_world := w\<rparr>)"
  by (simp add: same_conf_def)

lemma with_mem_frame [simp]:
  "fs_world (with_mem f s) = fs_world s" "fs_mach (with_mem f s) = fs_mach s"
  "fs_disk (with_mem f s) = fs_disk s" "same_conf s (with_mem f s)"
  by (auto simp: with_mem_def same_conf_def split: option.split)

lemma with_disk_frame [simp]:
  "fs_world (with_disk g s) = fs_world s" "fs_mem (with_disk g s) = fs_mem s" "same_conf s (with_disk g s)"
  by (auto simp: with_disk_def set_os_def same_conf_def split: option.split prod.split)

lemma mem_find_frame:
  "mem_find E k s = (e, s') \<Longrightarrow>
     fs_world s' = fs_world s \<and> fs_mach s' = fs_mach s \<and> fs_disk s' = fs_disk s \<and> same_conf s s'"
  by (auto simp: mem_find_def same_conf_def split: option.splits prod.splits)

lemma request_eq: "request f s = (r, s') \<longleftrightarrow> (\<exists>w. f (fs_world s) = (r, w) \<and> s' = s\<lparr>fs_world := w\<rparr>)"
  by (auto simp: request_def split: prod.splits)

lemma unescape_plain_append:
  "CHR ''%'' \<notin> set s \<Longrightarrow> unescape False (s @ r) = map_option ((@) s) (unescape False r)"
  by (cases "unescape False r"; induction s) auto

lemma PathEscape_Cons:
  "PathEscape (c # s) = (if unreserved c \<or> c \<in> set ''$&+=:@'' then [c] else percent c) @ PathEscape s"
  by (simp add: PathEscape_def)

lemma unescape_PathEscape_append:
  "unescape False (PathEscape s @ r) = map_option ((@) s) (unescape False r)"
proof (induction s)
  case (Cons c s)
  have "\<not> unreserved CHR ''%''" by code_simp
  then have "c \<noteq> CHR ''%''" if "unreserved c \<or> c \<in> set ''$&+=:@''" using that by auto
  then show ?case
    using Cons by (cases "unescape False r") (auto simp: PathEscape_Cons simp del: set_simps)
qed (cases "unescape False r"; simp add: PathEscape_def)

lemma unescape_segments:
  "xs \<noteq> [] \<Longrightarrow> unescape False (join_slash (map PathEscape xs)) = Some (join_slash xs)"
proof (induction xs rule: join_slash.induct)
  case (2 x)
  then show ?case using unescape_PathEscape_append [of x "[]"] by simp
qed (auto simp: unescape_PathEscape_append)

text \<open>The copy source decodes to the source key, whatever characters the key has.\<close>

lemma copySource_decodes:
  "CHR ''%'' \<notin> set b \<Longrightarrow> PathUnescape (copySource b k) = Some (b @ ''/'' @ k)"
  using unescape_plain_append [of "b @ ''/''" "join_slash (map PathEscape (split_slash k))"]
    unescape_segments [of "split_slash k"]
  by (simp add: PathUnescape_def copySource_def join_split)

text \<open>\<^verbatim>\<open>dirExists\<close>: the root, or a directory with something below it.\<close>

definition dir_in :: "objects \<Rightarrow> string \<Rightarrow> string \<Rightarrow> bool" where
  "dir_in m pre p \<longleftrightarrow> cleanPath p = ''/'' \<or> keys_under m (listPrefix pre p) \<noteq> {}"

text \<open>
  What following symlinks means on the map of objects, with at most \<open>n\<close> hops: the path
  reached, the object there, and the hops; \<open>None\<close> when there are too many.
\<close>

definition link_of :: "obj \<Rightarrow> string option" where
  "link_of ob = (case metaValue (ometa ob) symlinkMetaKey of None \<Rightarrow> None | Some enc \<Rightarrow> QueryUnescape enc)"

fun follow :: "objects \<Rightarrow> string \<Rightarrow> nat \<Rightarrow> string \<Rightarrow> (string \<times> obj option \<times> nat) option" where
  "follow m pre n p =
     (if p = ''/'' then Some (p, None, 0)
      else case m (key pre p) of
        None \<Rightarrow> Some (p, None, 0)
      | Some ob \<Rightarrow>
          (case link_of ob of
             None \<Rightarrow> Some (p, Some ob, 0)
           | Some target \<Rightarrow>
               (case n of
                  0 \<Rightarrow> None
                | Suc n1 \<Rightarrow> map_option (\<lambda>(q, o1, h). (q, o1, Suc h)) (follow m pre n1 (nextHop p target)))))"

declare follow.simps [simp del]

lemma follow_hop:
  "p \<noteq> ''/'' \<Longrightarrow> m (key pre p) = Some ob \<Longrightarrow> link_of ob = Some target \<Longrightarrow>
     follow m pre (Suc n) p = map_option (\<lambda>(q, o1, h). (q, o1, Suc h)) (follow m pre n (nextHop p target))"
  by (simp add: follow.simps [of m pre "Suc n" p])

definition heads_agree :: "(string \<Rightarrow> bytes) \<Rightarrow> obj option \<Rightarrow> HeadObjectOutput option \<Rightarrow> bool" where
  "heads_agree content ob h =
     (case (ob, h) of (Some o1, Some h1) \<Rightarrow> head_agrees content o1 h1 | (None, None) \<Rightarrow> True | _ \<Rightarrow> False)"

lemma symlinkTarget_link: "head_agrees content ob h \<Longrightarrow> symlinkTarget (Some h) = link_of ob"
proof -
  assume "head_agrees content ob h"
  then have "metaValue (Metadata h) symlinkMetaKey = metaValue (ometa ob) symlinkMetaKey"
    using meta_sim_simps(1) unfolding head_agrees_def by blast
  then show ?thesis by (simp add: symlinkTarget_def link_of_def)
qed

lemma disk_run_frame:
  "disk_run a f s = (r, s') \<Longrightarrow> fs_world s' = fs_world s \<and> fs_mem s' = fs_mem s \<and> same_conf s s' \<and>
     fs_nextid s' = fs_nextid s"
  by (auto simp: disk_run_def set_os_def same_conf_def split: option.splits prod.splits)

text \<open>\<^verbatim>\<open>copyStream\<close> appends the stream to the file, and touches nothing else.\<close>

lemma body_Read_end: "body_Read n b = (r, b') \<Longrightarrow> body_end b' = body_end b"
  by (auto simp: body_Read_def body_end_def split: list.splits if_splits)

lemma body_Read_err:
  "body_Read n b = ((d, Some e), b') \<Longrightarrow> e = body_end b \<and> chunks b' = []"
  by (auto simp: body_Read_def split: list.splits if_splits)

lemma copyStream_frame:
  assumes "copyStream f w b s = (r, s')"
  shows "dirents s' = dirents s \<and> next_ino s' = next_ino s \<and> (\<forall>j. j \<noteq> f \<longrightarrow> inodes s' j = inodes s j)"
  using assms
proof (induction f w b s arbitrary: r s' rule: copyStream.induct)
  case (1 f w b s)
  obtain d er b1 where rd: "body_Read copyBufSize b = ((d, er), b1)" by (metis prod.exhaust)
  obtain nw ew s1 where wr: "(if d = [] then ((0, None), s) else os_WriteAt d w f s) = ((nw, ew), s1)"
    by (metis prod.exhaust)
  have fr: "dirents s1 = dirents s \<and> next_ino s1 = next_ino s \<and> (\<forall>j. j \<noteq> f \<longrightarrow> inodes s1 j = inodes s j)"
    using wr os_WriteAt_frame [of d w f s "(nw, ew)" s1] by (auto split: if_splits)
  show ?case
  proof (cases "ew = None \<and> er = None")
    case True
    then have "copyStream f (w + int nw) b1 s1 = (r, s')"
      using "1.prems" rd wr by (subst (asm) copyStream.simps) simp
    from "1.IH" [OF rd [symmetric] refl wr [symmetric] refl refl _ _ this] True fr rd wr show ?thesis by auto
  next
    case False
    then have "s' = s1"
      using "1.prems" rd wr by (subst (asm) copyStream.simps) (auto simp: Let_def split: option.splits if_splits)
    then show ?thesis using fr by simp
  qed
qed

lemma copyStream_ok:
  assumes "copyStream f w b s = ((n, None), s')" "w = int (length (inodes s f))"
  shows "inodes s' f = inodes s f @ concat (chunks b) \<and> n = int (length (inodes s' f)) \<and> body_end b = EOF"
  using assms
proof (induction f w b s arbitrary: n s' rule: copyStream.induct)
  case (1 f w b s)
  obtain d er b1 where rd: "body_Read copyBufSize b = ((d, er), b1)" by (metis prod.exhaust)
  obtain nw ew s1 where wr: "(if d = [] then ((0, None), s) else os_WriteAt d w f s) = ((nw, ew), s1)"
    by (metis prod.exhaust)
  note sp = body_Read_spec [OF rd] and en = body_Read_end [OF rd]
  have ew: "ew = None"
    using "1.prems"(1) rd wr by (subst (asm) copyStream.simps) (auto simp: Let_def split: if_splits)
  have s1: "inodes s1 f = inodes s f @ d \<and> nw = length d"
    using wr ew "1.prems"(2) os_WriteAt_ok [of d w f s nw s1] by (auto simp: overlay_append split: if_splits)
  show ?case
  proof (cases er)
    case None
    then have "copyStream f (w + int nw) b1 s1 = ((n, None), s')"
      using "1.prems"(1) rd wr ew by (subst (asm) copyStream.simps) simp
    from "1.IH" [OF rd [symmetric] refl wr [symmetric] refl refl _ _ this] ew None rd wr s1 "1.prems"(2)
    show ?thesis using sp en by auto
  next
    case (Some e)
    then have "s' = s1" "e = EOF" "n = w + int nw"
      using "1.prems"(1) rd wr ew by (subst (asm) copyStream.simps, auto simp: Let_def split: if_splits)+
    then show ?thesis using s1 sp body_Read_err [OF rd [unfolded Some]] "1.prems"(2) by simp
  qed
qed

text \<open>
  A write buffer that is ready for use: its size field is right, and a spill file is an inode
  the disk tier does not share, its name still leading to it if it leads anywhere.
\<close>

definition buf_ok ::
    "('d \<Rightarrow> (string \<times> diskEntry lruEntry) list) \<Rightarrow> ('w, 'c, 'd, 'z) S3FS_scheme \<Rightarrow> writeBuf \<Rightarrow> bool" where
  "buf_ok dview s b \<longleftrightarrow>
     buf_wf (fs_mach s) b \<and>
     (case b of
        MemBuf _ \<Rightarrow> True
      | FileBuf fb \<Rightarrow>
          fb_f fb < next_ino (mos (fs_mach s)) \<and>
          (\<forall>i. dirents (mos (fs_mach s)) (fb_path fb) = Some i \<longrightarrow> i = fb_f fb) \<and>
          (\<exists>c. fs_disk s = Some c \<and> private_ino dview c (mos (fs_mach s)) (fb_f fb) \<and>
               cache_path c (fb_path fb)))"

definition buf_data :: "('w, 'c, 'd, 'z) S3FS_scheme \<Rightarrow> writeBuf \<Rightarrow> bytes" where
  "buf_data s b = buf_contents (fs_mach s) b"

lemma set_os_simps [simp]:
  "fs_world (set_os o1 s) = fs_world s" "fs_mem (set_os o1 s) = fs_mem s" "fs_disk (set_os o1 s) = fs_disk s"
  "mos (fs_mach (set_os o1 s)) = o1" "same_conf s (set_os o1 s)" "fs_prefix (set_os o1 s) = fs_prefix s"
  "fs_bucket (set_os o1 s) = fs_bucket s"
  by (simp_all add: set_os_def same_conf_def)

text \<open>Recording what a metadata request answered about a file's key.\<close>

definition answers :: "(string \<Rightarrow> bytes) \<Rightarrow> objects \<Rightarrow> string \<Rightarrow> goerr + HeadObjectOutput \<Rightarrow> bool" where
  "answers content m k r \<longleftrightarrow>
     (case r of
        Inr h \<Rightarrow> (\<exists>obj. m k = Some obj \<and> head_agrees content obj h)
      | Inl e \<Rightarrow> isNotFound e \<longrightarrow> m k = None)"

definition record_answer ::
    "('w, 'c, 'd) env \<Rightarrow> string \<Rightarrow> goerr + HeadObjectOutput \<Rightarrow> ('w, 'c, 'd, 'z) S3FS_scheme \<Rightarrow> ('w, 'c, 'd, 'z) S3FS_scheme" where
  "record_answer E k r s =
     (case r of
        Inr h \<Rightarrow> with_mem (mem_store (mem_lru E) (now E s) k True (Some h) None) s
      | Inl e \<Rightarrow> if isNotFound e then with_mem (mem_store (mem_lru E) (now E s) k False None None) s else s)"

lemma record_answer_frame [simp]:
  "fs_world (record_answer E k r s) = fs_world s" "fs_mach (record_answer E k r s) = fs_mach s"
  "same_conf s (record_answer E k r s)" "fs_disk (record_answer E k r s) = fs_disk s"
  by (auto simp: record_answer_def split: sum.split)

context s3fs
begin

text \<open>The invariant without the memory tier does not mention the store.\<close>

abbreviation (input) ok0 where "ok0 s \<equiv> ok (s\<lparr>fs_mem := None\<rparr>)"

lemma ok_ok0: "ok s \<Longrightarrow> ok0 s"
  by (simp add: fs_ok_def)

lemma ok0_world: "ok0 s \<Longrightarrow> ok0 (s\<lparr>fs_world := w\<rparr>)"
  by (simp add: fs_ok_def)

lemma ok_world: "ok s \<Longrightarrow> objs w = store s \<Longrightarrow> ok (s\<lparr>fs_world := w\<rparr>)"
  by (simp add: fs_ok_def)

lemma with_mem_ok:
  assumes "ok0 s" "\<And>c. fs_mem s = Some c \<Longrightarrow> mem_ok mview content (store s) (f c)"
  shows "ok (with_mem f s)"
  using assms by (cases "fs_mem s") (auto simp: with_mem_def fs_ok_def)

lemma with_disk_ok:
  assumes "ok s" "\<And>c c' o'. disk_inv dview content c (mos (fs_mach s)) \<Longrightarrow>
     g c (mos (fs_mach s)) = (c', o') \<Longrightarrow> disk_inv dview content c' o'"
  shows "ok (with_disk g s)"
  using assms by (cases "fs_disk s") (auto simp: with_disk_def set_os_def fs_ok_def split: prod.splits)

lemma drop_disk_ok: "ok s \<Longrightarrow> ok (with_disk (disk_dropDeleted (disk_lru E) k) s)"
  using with_disk_ok disk.drop_sub(1) disk_inv_lru disk_sub_inv by (metis (no_types, lifting))

lemma copied_disk_ok: "ok s \<Longrightarrow> ok (with_disk (disk_copied (disk_lru E) t k k') s)"
  using with_disk_ok disk.copied_inv(1) by (metis (no_types, lifting))

lemma mem_fact: "ok s \<Longrightarrow> fs_mem s = Some c \<Longrightarrow> mem_ok mview content (store s) c"
  by (simp add: fs_ok_def)

lemma cache_head:
  assumes "ok s" "store s k = Some obj" "head_agrees content obj h" "d = None \<or> d = Some (odata obj)"
  shows "ok (with_mem (mem_store (mem_lru E) t k True (Some h) d) s)"
proof (rule with_mem_ok [OF ok_ok0 [OF assms(1)]])
  fix c assume "fs_mem s = Some c"
  then show "mem_ok mview content (store s) (mem_store (mem_lru E) t k True (Some h) d c)"
    using assms by (intro mem.store_ok mem_fact) (auto simp: mem_coh_def)
qed

lemma cache_missing:
  assumes "ok s" "store s k = None" "\<not> dir_key k"
  shows "ok (with_mem (mem_store (mem_lru E) t k False None None) s)"
proof (rule with_mem_ok [OF ok_ok0 [OF assms(1)]])
  fix c assume "fs_mem s = Some c"
  then show "mem_ok mview content (store s) (mem_store (mem_lru E) t k False None None c)"
    using assms by (intro mem.store_ok mem_fact) (auto simp: mem_coh_def)
qed

lemma cached_negative:
  "mem_coh content m k e \<Longrightarrow> \<not> me_exists e \<Longrightarrow> m k = None"
  by (auto simp: mem_coh_def keys_under_def split: option.splits if_splits)

lemma cached_head:
  "mem_coh content m k e \<Longrightarrow> me_head e = Some h \<Longrightarrow> \<exists>obj. m k = Some obj \<and> head_agrees content obj h"
  by (auto simp: mem_coh_def)

lemma record_answer_ok:
  assumes "ok s" "answers content (store s) k r" "\<not> dir_key k"
  shows "ok (record_answer E k r s)"
proof (cases r)
  case (Inr h)
  then show ?thesis using assms cache_head [OF assms(1)] by (auto simp: answers_def record_answer_def)
next
  case (Inl e)
  then show ?thesis using assms cache_missing [OF assms(1)] by (auto simp: answers_def record_answer_def)
qed

lemma cached_answer:
  assumes "ok s" "mem_find E k s = (e, s1)" "negative e \<or> Option.bind e me_head = Some h"
  shows "answers content (store s) k (if negative e then Inl NotFound else Inr h)"
proof -
  obtain x where x: "e = Some x" using assms(3) by (cases e) (auto simp: negative_def)
  have "mem_coh content (store s) k x" by (rule mem_find_ok(4) [OF assms(1,2) x])
  then show ?thesis
    using assms(3) x cached_negative cached_head by (auto simp: answers_def negative_def)
qed

lemma head_eq:
  "S3FS_head E k s =
     (case mem_find E k s of (e, s1) \<Rightarrow>
        if negative e then (Inl NotFound, s1)
        else case Option.bind e me_head of
          Some h \<Rightarrow> (Inr h, s1)
        | None \<Rightarrow> (case request (HeadObject (client E) (fs_bucket s1) k) s1 of (r, s2) \<Rightarrow> (r, record_answer E k r s2)))"
  by (simp add: S3FS_head_def record_answer_def split: prod.split option.split sum.split)

lemma HeadObject_answers:
  "HeadObject (client E) b k w = (r, w') \<Longrightarrow> answers content (objs w) k r \<and> objs w' = objs w"
  using HeadObject_objs HeadObject_ok HeadObject_missing by (auto simp: answers_def split: sum.splits)

text \<open>\<^verbatim>\<open>head\<close>: the head of the object, or not found exactly when it is missing.\<close>

lemma head_spec:
  assumes "ok s" "S3FS_head E k s = (r, s')" "\<not> dir_key k"
  shows "ok s'" and "store s' = store s" and "same_conf s s'" and "fs_mach s' = fs_mach s"
    and "answers content (store s) k r"
proof -
  obtain e s1 where f: "mem_find E k s = (e, s1)" by (cases "mem_find E k s")
  note s1 = mem_find_ok(1,2) [OF assms(1) f] and fr = mem_find_frame [OF f]
  consider (cached) h where "negative e \<or> Option.bind e me_head = Some h"
      "r = (if negative e then Inl NotFound else Inr h)" "s' = s1"
    | (asked) w where "HeadObject (client E) (fs_bucket s1) k (fs_world s1) = (r, w)"
      "s' = record_answer E k r (s1\<lparr>fs_world := w\<rparr>)"
    using assms(2) f unfolding head_eq
    by (auto simp: request_def split: prod.splits if_splits option.splits)
  then have "ok s' \<and> store s' = store s \<and> same_conf s s' \<and> fs_mach s' = fs_mach s \<and> answers content (store s) k r"
  proof cases
    case cached
    then show ?thesis using cached_answer [OF assms(1) f cached(1)] s1 fr by simp
  next
    case asked
    note a = HeadObject_answers [OF asked(1)]
    have "ok (s1\<lparr>fs_world := w\<rparr>)" using ok_world [OF s1(1)] a by simp
    then have "ok s'" unfolding asked(2) by (rule record_answer_ok) (use a assms(3) in simp_all)
    moreover have "same_conf s s'"
      unfolding asked(2) using fr by (blast intro: same_conf_trans same_conf_world record_answer_frame(3))
    ultimately show ?thesis using a asked(2) s1 fr by simp
  qed
  then show "ok s'" "store s' = store s" "same_conf s s'" "fs_mach s' = fs_mach s" "answers content (store s) k r"
    by auto
qed

text \<open>\<^verbatim>\<open>put\<close>, \<^verbatim>\<open>delete\<close>, \<^verbatim>\<open>copy\<close>: the map changes as asked, and the caches with it.\<close>

lemma put_ok:
  assumes "ok s" "S3FS_put E k data meta s = (None, s')"
  shows "ok s'" and "same_conf s s'"
    and "\<exists>obj. store s' = (store s)(k \<mapsto> obj) \<and> odata obj = (case data of None \<Rightarrow> [] | Some d \<Rightarrow> d) \<and>
               meta_sim (ometa obj) meta"
proof -
  define d where "d = (case data of None \<Rightarrow> [] | Some d \<Rightarrow> d)"
  let ?i = "\<lparr>put_Bucket = fs_bucket s, put_Key = k, put_Body = d, put_ContentLength = None,
            put_Metadata = meta, put_IfNoneMatch = None, put_IfMatch = None\<rparr>"
  obtain etag w where rq: "PutObject (client E) ?i (fs_world s) = (Inr etag, w)"
      and s': "s' = with_disk (disk_dropDeleted (disk_lru E) k)
        (with_mem (mem_storeWrite (mem_lru E) (now E (s\<lparr>fs_world := w\<rparr>)) k (int (length d)) (ToString etag) (Some d) meta)
           (s\<lparr>fs_world := w\<rparr>))"
    using assms(2) unfolding d_def by (auto simp: S3FS_put_def request_def Let_def split: prod.splits sum.splits)
  obtain obj where obj: "objs w = (store s)(k \<mapsto> obj)" "odata obj = d" "meta_sim (ometa obj) meta"
      "ToString etag \<noteq> '''' \<Longrightarrow> content (ToString etag) = odata obj"
    using PutObject_ok [OF rq] by auto
  have "ok (with_mem (mem_storeWrite (mem_lru E) (now E (s\<lparr>fs_world := w\<rparr>)) k (int (length d)) (ToString etag) (Some d) meta)
           (s\<lparr>fs_world := w\<rparr>))"
  proof (rule with_mem_ok [OF ok0_world [OF ok_ok0 [OF assms(1)]], simplified])
    fix c assume "fs_mem s = Some c"
    then have "mem_ok mview content (store s) c" using assms(1) by (rule mem_fact [rotated])
    then show "mem_ok mview content (objs w)
        (mem_storeWrite (mem_lru E) (now E (s\<lparr>fs_world := w\<rparr>)) k (int (length d)) (ToString etag) (Some d) meta c)"
      unfolding obj(1) using obj by (intro mem.storeWrite_ok) (auto intro: meta_sim_sym)
  qed
  then show "ok s'" unfolding s' by (rule drop_disk_ok)
  show "same_conf s s'" unfolding s'
    by (blast intro: same_conf_trans same_conf_world with_mem_frame(4) with_disk_frame(3))
  show "\<exists>obj. store s' = (store s)(k \<mapsto> obj) \<and> odata obj = (case data of None \<Rightarrow> [] | Some d \<Rightarrow> d) \<and>
               meta_sim (ometa obj) meta"
    using obj unfolding s' d_def by auto
qed

lemma delete_ok:
  assumes "ok s" "S3FS_delete E k s = (None, s')"
  shows "ok s'" and "same_conf s s'" and "store s' = (store s)(k := None)"
proof -
  obtain w where rq: "DeleteObject (client E) (fs_bucket s) k (fs_world s) = (None, w)"
      and s': "s' = with_disk (disk_dropDeleted (disk_lru E) k)
        (with_mem (mem_dropDeleted (mem_lru E) k) (s\<lparr>fs_world := w\<rparr>))"
    using assms(2) by (auto simp: S3FS_delete_def request_def split: prod.splits option.splits)
  have w: "objs w = (store s)(k := None)" by (rule DeleteObject_ok [OF rq])
  have "ok (with_mem (mem_dropDeleted (mem_lru E) k) (s\<lparr>fs_world := w\<rparr>))"
  proof (rule with_mem_ok [OF ok0_world [OF ok_ok0 [OF assms(1)]], simplified])
    fix c assume "fs_mem s = Some c"
    then show "mem_ok mview content (objs w) (mem_dropDeleted (mem_lru E) k c)"
      unfolding w by (intro mem.dropDeleted_ok mem_fact [OF assms(1)])
  qed
  then show "ok s'" unfolding s' by (rule drop_disk_ok)
  show "same_conf s s'" unfolding s'
    by (blast intro: same_conf_trans same_conf_world with_mem_frame(4) with_disk_frame(3))
  show "store s' = (store s)(k := None)" unfolding s' using w by simp
qed

lemma copy_ok:
  assumes "ok s" "S3FS_copy E src dst s = (None, s')"
  shows "ok s'" and "same_conf s s'"
    and "\<exists>obj obj'. store s src = Some obj \<and> store s' = (store s)(dst \<mapsto> obj') \<and>
               odata obj' = odata obj \<and> ometa obj' = ometa obj"
proof -
  obtain w s2 where rq: "CopyObject (client E) (fs_bucket s) dst (copySource (fs_bucket s) src) (fs_world s) = (None, w)"
      and s2: "s2 = with_mem (mem_storeCopied (mem_lru E) (now E (s\<lparr>fs_world := w\<rparr>)) src dst) (s\<lparr>fs_world := w\<rparr>)"
      and s': "s' = with_disk (disk_copied (disk_lru E) (now E s2) src dst) s2"
    using assms(2) by (auto simp: S3FS_copy_def request_def Let_def split: prod.splits option.splits)
  have "PathUnescape (copySource (fs_bucket s) src) = Some (fs_bucket s @ ''/'' @ src)"
    using assms(1) by (intro copySource_decodes) (simp add: fs_ok_def)
  then obtain obj obj' where o: "store s src = Some obj" "objs w = (store s)(dst \<mapsto> obj')"
      "odata obj' = odata obj" "ometa obj' = ometa obj"
    using CopyObject_ok [OF rq] by blast
  have "ok s2"
    unfolding s2
  proof (rule with_mem_ok [OF ok0_world [OF ok_ok0 [OF assms(1)]], simplified])
    fix c assume "fs_mem s = Some c"
    then show "mem_ok mview content (objs w) (mem_storeCopied (mem_lru E) (now E (s\<lparr>fs_world := w\<rparr>)) src dst c)"
      unfolding o(2) by (intro mem.storeCopied_ok mem_fact [OF assms(1)]) (use o in simp_all)
  qed
  then show "ok s'" unfolding s' by (rule copied_disk_ok)
  show "same_conf s s'" unfolding s' s2
    by (blast intro: same_conf_trans same_conf_world with_mem_frame(4) with_disk_frame(3))
  show "\<exists>obj obj'. store s src = Some obj \<and> store s' = (store s)(dst \<mapsto> obj') \<and>
               odata obj' = odata obj \<and> ometa obj' = ometa obj"
    unfolding s' s2 using o by auto
qed

text \<open>Listing: every key under the prefix, once, and the loop ends.\<close>

lemma listLoop_spec:
  assumes "ok s" "listLoop E fuel inp keys s = Some (r, s')" "list_Delimiter inp = None"
  shows "ok s' \<and> store s' = store s \<and> same_conf s s' \<and> fs_mach s' = fs_mach s \<and>
         (\<forall>ks. r = Inr ks \<longrightarrow> ks = keys @ rest (store s) (list_Prefix inp) (list_ContinuationToken inp))"
  using assms
proof (induction fuel arbitrary: inp keys s)
  case (Suc fuel)
  obtain r1 w where rq: "ListObjectsV2 (client E) inp (fs_world s) = (r1, w)"
    by (cases "ListObjectsV2 (client E) inp (fs_world s)")
  have w: "objs w = store s" by (rule ListObjectsV2_objs [OF rq])
  have okw: "ok (s\<lparr>fs_world := w\<rparr>)" by (rule ok_world [OF Suc.prems(1) w])
  show ?case
  proof (cases r1)
    case (Inl e)
    then show ?thesis using Suc.prems rq okw w by (auto simp: request_def)
  next
    case (Inr out)
    let ?inp = "inp\<lparr>list_ContinuationToken := NextContinuationToken out\<rparr>"
    let ?keys = "keys @ map (\<lambda>x. ToString (obj_Key x)) (Contents out)"
    note page = ListObjectsV2_page [OF rq [unfolded Inr] Suc.prems(3)]
    show ?thesis
    proof (cases "ToBool (IsTruncated out)")
      case True
      then have "listLoop E fuel ?inp ?keys (s\<lparr>fs_world := w\<rparr>) = Some (r, s')"
        using Suc.prems rq Inr by (simp add: request_def Let_def)
      from Suc.IH [OF okw this] Suc.prems(3) show ?thesis
        using w page True by (auto intro: same_conf_trans [OF same_conf_world])
    next
      case False
      then show ?thesis using Suc.prems rq Inr okw w page by (auto simp: request_def Let_def)
    qed
  qed
qed simp

lemma listLoop_ends:
  assumes "pages (store s) (list_Prefix inp) (list_ContinuationToken inp) < fuel" "list_Delimiter inp = None"
  shows "listLoop E fuel inp keys s \<noteq> None"
  using assms
proof (induction fuel arbitrary: inp keys s)
  case (Suc fuel)
  obtain r1 w where rq: "ListObjectsV2 (client E) inp (fs_world s) = (r1, w)"
    by (cases "ListObjectsV2 (client E) inp (fs_world s)")
  have w: "objs w = store s" by (rule ListObjectsV2_objs [OF rq])
  show ?case
  proof (cases "\<exists>out. r1 = Inr out \<and> ToBool (IsTruncated out)")
    case True
    then obtain out where out: "r1 = Inr out" "ToBool (IsTruncated out)" by blast
    have "pages (store s) (list_Prefix inp) (NextContinuationToken out) < fuel"
      using ListObjectsV2_more [OF rq [unfolded out(1)] Suc.prems(2) out(2)] Suc.prems(1) by simp
    then show ?thesis
      using Suc.IH [of "s\<lparr>fs_world := w\<rparr>" "inp\<lparr>list_ContinuationToken := NextContinuationToken out\<rparr>"]
        Suc.prems(2) rq out w by (simp add: request_def Let_def)
  next
    case False
    then show ?thesis using rq by (auto simp: request_def Let_def split: sum.split)
  qed
qed simp

lemma listAllKeys_spec:
  assumes "ok s" "listAllKeys E fuel pre s = Some (r, s')"
  shows "ok s'" and "store s' = store s" and "same_conf s s'"
    and "r = Inr ks \<Longrightarrow> distinct ks \<and> set ks = keys_under (store s) pre"
  using listLoop_spec [OF assms(1) assms(2) [unfolded listAllKeys_def]] rest_start [of "fs_world s" pre]
    rest_distinct [of "fs_world s" pre] by auto

lemma one_page:
  assumes "ListObjectsV2 (client E) inp w = (Inr out, w')" "list_Delimiter inp = None"
    "list_ContinuationToken inp = None"
  shows "(Contents out \<noteq> [] \<or> ToBool (IsTruncated out)) = (keys_under (objs w) (list_Prefix inp) \<noteq> {})"
proof -
  have "rest (objs w) (list_Prefix inp) None =
      map (\<lambda>x. ToString (obj_Key x)) (Contents out) @
        (if ToBool (IsTruncated out) then rest (objs w) (list_Prefix inp) (NextContinuationToken out) else [])"
    using ListObjectsV2_page [OF assms(1,2)] assms(3) by simp
  moreover have "ToBool (IsTruncated out) \<Longrightarrow> rest (objs w) (list_Prefix inp) (NextContinuationToken out) \<noteq> []"
    using ListObjectsV2_more [OF assms(1,2)] by simp
  ultimately have "(Contents out \<noteq> [] \<or> ToBool (IsTruncated out)) = (rest (objs w) (list_Prefix inp) None \<noteq> [])"
    by auto
  then show ?thesis using rest_start [of w "list_Prefix inp"] by auto
qed

lemma cached_dir:
  "mem_coh content m k e \<Longrightarrow> dir_key k \<Longrightarrow> me_exists e = (keys_under m k \<noteq> {})"
  by (auto simp: mem_coh_def keys_under_def split: option.splits)

lemma dirExists_spec:
  assumes "ok s" "dirExists E p s = (r, s')"
  shows "ok s'" and "store s' = store s" and "same_conf s s'" and "fs_mach s' = fs_mach s"
    and "r = Inr b \<Longrightarrow> b = dir_in (store s) (fs_prefix s) p"
proof -
  have "ok s' \<and> store s' = store s \<and> same_conf s s' \<and> fs_mach s' = fs_mach s \<and>
        (\<forall>b. r = Inr b \<longrightarrow> b = dir_in (store s) (fs_prefix s) p)"
  proof (cases "cleanPath p = ''/''")
    case True
    then show ?thesis using assms by (auto simp: dirExists_def dir_in_def)
  next
    case False
    let ?k = "listPrefix (fs_prefix s) p"
    have "?k \<noteq> ''''" using False by (auto simp: listPrefix_eq cleanPath_root_iff split: if_splits)
    then have dk: "dir_key ?k" by (rule listPrefix_dir)
    obtain e s1 where f: "mem_find E ?k s = (e, s1)" by (cases "mem_find E ?k s")
    note s1 = mem_find_ok [OF assms(1) f] and fr = mem_find_frame [OF f]
    show ?thesis
    proof (cases e)
      case (Some x)
      have "me_exists x = (keys_under (store s) ?k \<noteq> {})" using cached_dir [OF s1(4) [OF Some] dk] .
      then show ?thesis using assms(2) False f Some s1 fr by (auto simp: dirExists_def dir_in_def)
    next
      case None
      let ?i = "\<lparr>list_Bucket = fs_bucket s1, list_Prefix = ?k, list_Delimiter = None,
                 list_MaxKeys = Some 1, list_ContinuationToken = None\<rparr>"
      obtain r1 w where rq: "ListObjectsV2 (client E) ?i (fs_world s1) = (r1, w)"
        by (cases "ListObjectsV2 (client E) ?i (fs_world s1)")
      have w: "objs w = store s" using ListObjectsV2_objs [OF rq] s1(2) by simp
      define s2 where "s2 = s1\<lparr>fs_world := w\<rparr>"
      have s2: "ok s2" "store s2 = store s" "same_conf s s2" "fs_mach s2 = fs_mach s"
        using ok_world [OF s1(1)] w s1(2) fr same_conf_trans [OF _ same_conf_world] by (auto simp: s2_def)
      show ?thesis
      proof (cases r1)
        case (Inl er)
        then show ?thesis using assms(2) False f None rq s2 by (auto simp: dirExists_def request_def s2_def)
      next
        case (Inr out)
        let ?ex = "Contents out \<noteq> [] \<or> ToBool (IsTruncated out)"
        have ex: "?ex = (keys_under (store s) ?k \<noteq> {})"
          using one_page [OF rq [unfolded Inr]] s1(2) by simp
        have s': "r = Inr ?ex" "s' = with_mem (mem_store (mem_lru E) (now E s2) ?k ?ex None None) s2"
          using assms(2) False f None rq Inr by (auto simp: dirExists_def request_def s2_def Let_def)
        have "ok s'" unfolding s'(2)
        proof (rule with_mem_ok [OF ok_ok0 [OF s2(1)]])
          fix c assume "fs_mem s2 = Some c"
          then show "mem_ok mview content (store s2) (mem_store (mem_lru E) (now E s2) ?k ?ex None None c)"
            unfolding ex by (intro mem.store_ok mem_fact [OF s2(1)]) (use dk s2(2) in \<open>simp_all add: mem_coh_def\<close>)
        qed
        moreover have "same_conf s s'" unfolding s'(2) by (rule same_conf_trans [OF s2(3) with_mem_frame(4)])
        ultimately show ?thesis using s' s2 ex False by (simp add: dir_in_def)
      qed
    qed
  qed
  then show "ok s'" "store s' = store s" "same_conf s s'" "fs_mach s' = fs_mach s"
    "r = Inr b \<Longrightarrow> b = dir_in (store s) (fs_prefix s) p" by auto
qed

lemma ok_key: "ok s \<Longrightarrow> \<not> dir_key (key (fs_prefix s) p)"
  using key_not_dir by (auto simp: fs_ok_def)

text \<open>\<^verbatim>\<open>resolve\<close> follows the links of the map.\<close>

lemma resolveLoop_spec:
  assumes "ok s" "resolveLoop E opn p hops s = ((p', h, hops', err), s')" "hops \<le> maxSymlinkDepth"
  shows "ok s' \<and> store s' = store s \<and> same_conf s s' \<and> fs_mach s' = fs_mach s \<and>
         (err = None \<longrightarrow>
            (\<exists>ob n. follow (store s) (fs_prefix s) (maxSymlinkDepth - hops) p = Some (p', ob, n) \<and>
                    hops' = hops + n \<and> heads_agree content ob h))"
  using assms
proof (induction "maxSymlinkDepth - hops" arbitrary: p hops s rule: less_induct)
  case less
  note eq = less.prems(2) [unfolded resolveLoop.simps [of E opn p]]
  show ?case
  proof (cases "p = ''/''")
    case True
    then show ?thesis using less.prems(1) eq by (simp add: follow.simps heads_agree_def)
  next
    case False
    obtain r s1 where hd: "S3FS_head E (key (fs_prefix s) p) s = (r, s1)"
      by (cases "S3FS_head E (key (fs_prefix s) p) s")
    note h = head_spec [OF less.prems(1) hd ok_key [OF less.prems(1)]]
    show ?thesis
    proof (cases r)
      case (Inl e)
      then show ?thesis
        using eq False hd h by (auto simp: follow.simps heads_agree_def answers_def split: if_splits)
    next
      case (Inr hh)
      obtain ob where ob: "store s (key (fs_prefix s) p) = Some ob" "head_agrees content ob hh"
        using h(5) Inr by (auto simp: answers_def)
      note link = symlinkTarget_link [OF ob(2)]
      show ?thesis
      proof (cases "link_of ob")
        case None
        then show ?thesis
          using eq False hd h Inr link ob by (auto simp: follow.simps heads_agree_def)
      next
        case (Some target)
        show ?thesis
        proof (cases "Suc hops > maxSymlinkDepth")
          case True
          then show ?thesis using eq False hd h Inr link Some by auto
        next
          case le: False
          have rec: "resolveLoop E opn (nextHop p target) (Suc hops) s1 = ((p', h, hops', err), s')"
            using eq False hd Inr link Some le by simp
          have n: "maxSymlinkDepth - hops = Suc (maxSymlinkDepth - Suc hops)" using le by simp
          have pre: "fs_prefix s1 = fs_prefix s" using h(3) by (simp add: same_conf_def)
          from less.hyps [OF _ h(1) rec] le show ?thesis
            using h ob Some False n pre
            by (auto simp: follow_hop intro: same_conf_trans)
        qed
      qed
    qed
  qed
qed

lemma disk_run_ok:
  assumes "ok s" "disk_run a f s = (r, s')"
    "\<And>c r c' o'. disk_inv dview content c (mos (fs_mach s)) \<Longrightarrow>
       f c (mos (fs_mach s)) = (r, c', o') \<Longrightarrow> disk_inv dview content c' o'"
  shows "ok s'"
  using assms by (cases "fs_disk s") (auto simp: disk_run_def set_os_def fs_ok_def split: prod.splits)

lemma disk_has_inv:
  assumes "disk_inv dview content c o1" "disk_has (disk_lru E) t k c o1 = (b, c', o')"
  shows "disk_inv dview content c' o'"
proof -
  obtain r where "disk_get (disk_lru E) t k c o1 = (r, c', o')"
    using assms(2) by (auto simp: disk_has_def split: prod.splits)
  then show ?thesis using disk.get_sub(1) disk_inv_lru disk_sub_inv assms(1) by blast
qed

text \<open>\<^verbatim>\<open>headOrGet\<close>: like \<^verbatim>\<open>head\<close>, and the body it may bring along is the object's.\<close>

lemma GetObject_answers:
  "GetObject (client E) b k None w = (r, w') \<Longrightarrow>
     answers content (objs w) k (map_sum (\<lambda>e. e) headFromGet r) \<and> objs w' = objs w"
  by (cases r) (auto simp: answers_def dest: GetObject_objs GetObject_ok GetObject_missing intro: headFromGet_agrees)

lemma headOrGet_eq:
  "headOrGet E k s =
     (case mem_find E k s of (e, s1) \<Rightarrow>
        if negative e then (Inl NotFound, s1)
        else case Option.bind e me_head of
          Some h \<Rightarrow> (Inr (h, None), s1)
        | None \<Rightarrow>
            (case disk_run False (disk_has (disk_lru E) (now E s1) k) s1 of
               (b, s2) \<Rightarrow>
                 if b then (case S3FS_head E k s2 of (r, s3) \<Rightarrow> (map_sum (\<lambda>e. e) (\<lambda>h. (h, None)) r, s3))
                 else (case request (GetObject (client E) (fs_bucket s2) k None) s2 of
                         (r, s3) \<Rightarrow> (map_sum (\<lambda>e. e) (\<lambda>g. (headFromGet g, Some g)) r,
                                    record_answer E k (map_sum (\<lambda>e. e) headFromGet r) s3))))"
proof -
  obtain e s1 where f: "mem_find E k s = (e, s1)" by (cases "mem_find E k s")
  obtain b s2 where d: "disk_run False (disk_has (disk_lru E) (now E s1) k) s1 = (b, s2)"
    by (cases "disk_run False (disk_has (disk_lru E) (now E s1) k) s1")
  obtain rh s3 where h: "S3FS_head E k s2 = (rh, s3)" by (cases "S3FS_head E k s2")
  obtain rg s4 where g: "request (GetObject (client E) (fs_bucket s2) k None) s2 = (rg, s4)"
    by (cases "request (GetObject (client E) (fs_bucket s2) k None) s2")
  show ?thesis
    by (cases b; cases rh; cases rg)
       (simp_all add: headOrGet_def record_answer_def f d h g split: option.split)
qed

lemma headOrGet_spec:
  assumes "ok s" "headOrGet E k s = (r, s')" "\<not> dir_key k"
  shows "ok s'" and "store s' = store s" and "same_conf s s'"
    and "answers content (store s) k (map_sum (\<lambda>e. e) fst r)"
    and "r = Inr (h, Some g) \<Longrightarrow> h = headFromGet g \<and>
           (\<exists>ob. store s k = Some ob \<and> head_agrees content ob g \<and> delivers (Body g) (odata ob))"
proof -
  obtain e s1 where f: "mem_find E k s = (e, s1)" by (cases "mem_find E k s")
  note s1 = mem_find_ok(1,2) [OF assms(1) f] and fr = mem_find_frame [OF f]
  obtain b s2 where d: "disk_run False (disk_has (disk_lru E) (now E s1) k) s1 = (b, s2)"
    by (cases "disk_run False (disk_has (disk_lru E) (now E s1) k) s1")
  have s2: "ok s2" by (rule disk_run_ok [OF s1(1) d disk_has_inv])
  note fr2 = disk_run_frame [OF d]
  have st2: "store s2 = store s" and cf2: "same_conf s s2"
    using s1(2) fr2 fr same_conf_trans by auto
  consider (cached) h where "negative e \<or> Option.bind e me_head = Some h"
      "r = (if negative e then Inl NotFound else Inr (h, None))" "s' = s1"
    | (headed) r1 where "S3FS_head E k s2 = (r1, s')" "r = map_sum (\<lambda>e. e) (\<lambda>h. (h, None)) r1"
    | (got) r1 w where "GetObject (client E) (fs_bucket s2) k None (fs_world s2) = (r1, w)"
      "r = map_sum (\<lambda>e. e) (\<lambda>g. (headFromGet g, Some g)) r1"
      "s' = record_answer E k (map_sum (\<lambda>e. e) headFromGet r1) (s2\<lparr>fs_world := w\<rparr>)"
    using assms(2) f d unfolding headOrGet_eq
    by (auto simp: request_def split: prod.splits if_splits option.splits)
  then have "ok s' \<and> store s' = store s \<and> same_conf s s' \<and> answers content (store s) k (map_sum (\<lambda>e. e) fst r) \<and>
     (r = Inr (h, Some g) \<longrightarrow> h = headFromGet g \<and>
           (\<exists>ob. store s k = Some ob \<and> head_agrees content ob g \<and> delivers (Body g) (odata ob)))"
  proof cases
    case (cached h)
    then show ?thesis using cached_answer [OF assms(1) f cached(1)] s1 fr by (auto split: if_splits)
  next
    case (headed r1)
    note h = head_spec [OF s2 headed(1) assms(3)]
    have "map_sum (\<lambda>e. e) fst r = r1" using headed(2) by (cases r1) auto
    then show ?thesis
      using h st2 same_conf_trans [OF cf2 h(3)] headed(2) by (cases r1) auto
  next
    case (got r1 w)
    note a = GetObject_answers [OF got(1)]
    have "ok (s2\<lparr>fs_world := w\<rparr>)" using ok_world [OF s2] a by simp
    then have ok': "ok s'" unfolding got(3) by (rule record_answer_ok) (use a assms(3) in simp_all)
    have cf: "same_conf s s'"
      unfolding got(3) using cf2 by (blast intro: same_conf_trans same_conf_world record_answer_frame(3))
    have "map_sum (\<lambda>e. e) fst r = map_sum (\<lambda>e. e) headFromGet r1" using got(2) by (cases r1) auto
    moreover have "\<exists>ob. store s k = Some ob \<and> head_agrees content ob g \<and> delivers (Body g) (odata ob)"
      if "r1 = Inr g" for g using GetObject_ok got(1) that st2 by metis
    ultimately show ?thesis using ok' cf a st2 got(2,3) by (cases r1) auto
  qed
  then show "ok s'" "store s' = store s" "same_conf s s'"
    "answers content (store s) k (map_sum (\<lambda>e. e) fst r)"
    "r = Inr (h, Some g) \<Longrightarrow> h = headFromGet g \<and>
       (\<exists>ob. store s k = Some ob \<and> head_agrees content ob g \<and> delivers (Body g) (odata ob))" by auto
qed

lemma resolveForReadLoop_spec:
  assumes "ok s" "resolveForReadLoop E opn p hops s = ((p', h, g, hops', err), s')" "hops \<le> maxSymlinkDepth"
  shows "ok s' \<and> store s' = store s \<and> same_conf s s' \<and>
         (err = None \<longrightarrow>
            (\<exists>ob n. follow (store s) (fs_prefix s) (maxSymlinkDepth - hops) p = Some (p', ob, n) \<and>
                    hops' = hops + n \<and> heads_agree content ob h \<and>
                    (\<forall>gg. g = Some gg \<longrightarrow> h = Some (headFromGet gg) \<and>
                       (\<exists>o1. ob = Some o1 \<and> delivers (Body gg) (odata o1)))))"
  using assms
proof (induction "maxSymlinkDepth - hops" arbitrary: p hops s rule: less_induct)
  case less
  note eq = less.prems(2) [unfolded resolveForReadLoop.simps [of E opn p]]
  show ?case
  proof (cases "p = ''/''")
    case True
    then show ?thesis using less.prems(1) eq by (simp add: follow.simps heads_agree_def)
  next
    case False
    obtain r s1 where hd: "headOrGet E (key (fs_prefix s) p) s = (r, s1)"
      by (cases "headOrGet E (key (fs_prefix s) p) s")
    note h = headOrGet_spec [OF less.prems(1) hd ok_key [OF less.prems(1)]]
    show ?thesis
    proof (cases r)
      case (Inl e)
      then show ?thesis
        using eq False hd h by (auto simp: follow.simps heads_agree_def answers_def split: if_splits)
    next
      case (Inr hg)
      obtain hh gg where hg: "hg = (hh, gg)" by (cases hg)
      obtain ob where ob: "store s (key (fs_prefix s) p) = Some ob" "head_agrees content ob hh"
        using h(4) Inr hg by (auto simp: answers_def)
      note link = symlinkTarget_link [OF ob(2)]
      show ?thesis
      proof (cases "link_of ob")
        case None
        then have "follow (store s) (fs_prefix s) n p = Some (p, Some ob, 0)" for n
          using False ob by (simp add: follow.simps)
        moreover have "p' = p" "h = Some hh" "g = gg" "hops' = hops" "err = None" "s' = s1"
          using eq False hd Inr hg link None by auto
        moreover have "\<forall>x. gg = Some x \<longrightarrow> hh = headFromGet x \<and> delivers (Body x) (odata ob)"
          using h(5) Inr hg ob(1) by fastforce
        ultimately show ?thesis using h(1-3) ob by (simp add: heads_agree_def)
      next
        case (Some target)
        show ?thesis
        proof (cases "Suc hops > maxSymlinkDepth")
          case True
          then show ?thesis using eq False hd h(1-3) Inr hg link Some by auto
        next
          case le: False
          have rec: "resolveForReadLoop E opn (nextHop p target) (Suc hops) s1 = ((p', h, g, hops', err), s')"
            using eq False hd Inr hg link Some le by simp
          have n: "maxSymlinkDepth - hops = Suc (maxSymlinkDepth - Suc hops)" using le by simp
          have pre: "fs_prefix s1 = fs_prefix s" using h(3) by (simp add: same_conf_def)
          from less.hyps [OF _ h(1) rec] le show ?thesis
            using h(1-3) ob Some False n pre
            by (auto simp: follow_hop intro: same_conf_trans)
        qed
      qed
    qed
  qed
qed

text \<open>Changes of the local files that the disk tier does not notice.\<close>

lemma set_os_ok:
  assumes "ok s" "\<And>c. fs_disk s = Some c \<Longrightarrow> disk_inv dview content c (mos (fs_mach s)) \<Longrightarrow> disk_inv dview content c o1"
  shows "ok (set_os o1 s)"
  using assms by (auto simp: fs_ok_def set_os_def)

lemma shrink_ok: "ok s \<Longrightarrow> shrinks (mos (fs_mach s)) o1 \<Longrightarrow> ok (set_os o1 s)"
  using set_os_ok disk_sub_inv disk_sub_refl disk_inv_lru by (metis (no_types, lifting))

lemma mach_set_os: "s\<lparr>fs_mach := (fs_mach s)\<lparr>mos := o1\<rparr>\<rparr> = set_os o1 s"
  by (simp add: set_os_def)

lemma destroy_ok: "ok s \<Longrightarrow> ok (s\<lparr>fs_mach := fileBuf_destroy fb (fs_mach s)\<rparr>)"
  using shrink_ok shrinks_Remove unfolding fileBuf_destroy_def mach_set_os by blast

lemma newSpill_run:
  assumes "ok s" "disk_run (Inl OsError) disk_newSpill s = (Inr fb, s')"
  shows "ok s'" and "buf_ok dview s' (FileBuf fb)" and "buf_data s' (FileBuf fb) = []"
proof -
  obtain c c1 o1 where c: "fs_disk s = Some c" "disk_newSpill c (mos (fs_mach s)) = (Inr fb, c1, o1)"
      "s' = set_os o1 (s\<lparr>fs_disk := Some c1\<rparr>)"
    using assms(2) by (auto simp: disk_run_def split: option.splits prod.splits)
  have inv: "disk_inv dview content c (mos (fs_mach s))" using assms(1) c(1) by (simp add: fs_ok_def)
  show "ok s'"
    by (rule disk_run_ok [OF assms]) (rule disk.newSpill_inv(1))
  show "buf_ok dview s' (FileBuf fb)" "buf_data s' (FileBuf fb) = []"
    using disk.newSpill_inv(2,3,6,8) [OF inv c(2) refl] c(3) by (auto simp: buf_ok_def buf_data_def set_os_def)
qed

lemma newSpill_run_fail:
  assumes "ok s" "disk_run (Inl OsError) disk_newSpill s = (r, s')"
  shows "ok s'"
  by (rule disk_run_ok [OF assms]) (rule disk.newSpill_inv(1))

text \<open>Filling a new spill file from a body.\<close>

lemma loadSpill_spec:
  assumes "ok s" "buf_ok dview s (FileBuf fb)" "buf_data s (FileBuf fb) = []" "loadSpill bd fb s = (r, s')"
  shows "ok s'" and "store s' = store s" and "same_conf s s'"
    and "r = Inr b \<Longrightarrow> buf_ok dview s' b \<and> buf_data s' b = concat (chunks bd) \<and> body_end bd = EOF"
proof -
  obtain n err o1 where cp: "copyStream (fb_f fb) 0 bd (mos (fs_mach s)) = ((n, err), o1)" by (metis prod.exhaust)
  note fr = copyStream_frame [OF cp]
  have ok1: "ok (set_os o1 s)"
  proof (rule set_os_ok [OF assms(1)])
    fix c assume "fs_disk s = Some c" "disk_inv dview content c (mos (fs_mach s))"
    then show "disk_inv dview content c o1"
      using private_write [of dview content c "mos (fs_mach s)" "fb_f fb" o1] fr assms(2)
      by (auto simp: buf_ok_def)
  qed
  have "ok s' \<and> store s' = store s \<and> same_conf s s' \<and>
        (r = Inr b \<longrightarrow> buf_ok dview s' b \<and> buf_data s' b = concat (chunks bd) \<and> body_end bd = EOF)"
  proof (cases err)
    case (Some e)
    then have s': "r = Inl e" "s' = (set_os o1 s)\<lparr>fs_mach := fileBuf_destroy fb (fs_mach (set_os o1 s))\<rparr>"
      using assms(4) cp by (auto simp: loadSpill_def Let_def)
    show ?thesis using destroy_ok [OF ok1, of fb] s' by (simp add: same_conf_def set_os_def)
  next
    case None
    then have s': "r = Inr (FileBuf (fb\<lparr>fb_sz := n\<rparr>))" "s' = set_os o1 s"
      using assms(4) cp by (auto simp: loadSpill_def)
    have empty: "inodes (mos (fs_mach s)) (fb_f fb) = []" using assms(3) by (simp add: buf_data_def)
    have "inodes o1 (fb_f fb) = concat (chunks bd) \<and> n = int (length (concat (chunks bd))) \<and> body_end bd = EOF"
      using copyStream_ok [OF cp [unfolded None]] empty by simp
    moreover have "buf_ok dview s' (FileBuf (fb\<lparr>fb_sz := n\<rparr>))"
      using calculation assms(2) fr s'(2) by (auto simp: buf_ok_def private_ino_def)
    ultimately show ?thesis using s' ok1 by (auto simp: buf_data_def)
  qed
  then show "ok s'" "store s' = store s" "same_conf s s'"
    "r = Inr b \<Longrightarrow> buf_ok dview s' b \<and> buf_data s' b = concat (chunks bd) \<and> body_end bd = EOF" by auto
qed

lemma memBuf_of_spec:
  assumes "ok s" "memBuf_of (x, s) = (r, s')"
  shows "s' = s" and "r = Inr b \<Longrightarrow> \<exists>d. x = Inr d \<and> buf_ok dview s b \<and> buf_data s b = d"
  using assms by (auto simp: memBuf_of_def newMemBuf_def buf_ok_def buf_data_def mb_data_def split: sum.splits)

lemma getAll_spec:
  assumes "ok s" "S3FS_getAll E k s = (r, s')"
  shows "ok s'" and "store s' = store s" and "same_conf s s'" and "fs_mach s' = fs_mach s" and "fs_disk s' = fs_disk s"
    and "r = Inr d \<Longrightarrow> \<exists>ob. store s k = Some ob \<and> odata ob = d"
proof -
  obtain r1 w where rq: "GetObject (client E) (fs_bucket s) k None (fs_world s) = (r1, w)"
    by (cases "GetObject (client E) (fs_bucket s) k None (fs_world s)")
  have w: "objs w = store s" by (rule GetObject_objs [OF rq])
  have s': "s' = s\<lparr>fs_world := w\<rparr>" "r = (case r1 of Inl e \<Rightarrow> Inl e | Inr g \<Rightarrow> ReadAll (Body g))"
    using assms(2) rq by (auto simp: S3FS_getAll_def request_def split: sum.splits)
  show "ok s'" "store s' = store s" "same_conf s s'" "fs_mach s' = fs_mach s" "fs_disk s' = fs_disk s"
    using ok_world [OF assms(1) w] w s' by auto
  show "\<exists>ob. store s k = Some ob \<and> odata ob = d" if rd: "r = Inr d"
  proof -
    obtain g where g: "r1 = Inr g" "body_end (Body g) = EOF" "d = concat (chunks (Body g))"
      using rd s'(2) by (cases r1) (auto simp: ReadAll_def split: if_splits)
    then show ?thesis using GetObject_ok [OF rq [unfolded g(1)]] by (auto simp: delivers_def)
  qed
qed

lemma bufFromGet_spec:
  assumes "ok s" "delivers (Body g) d" "bufFromGet h g s = (r, s')"
  shows "ok s'" and "store s' = store s" and "same_conf s s'"
    and "r = Inr b \<Longrightarrow> buf_ok dview s' b \<and> buf_data s' b = d"
proof -
  have rd: "ReadAll (Body g) = Inr x \<Longrightarrow> x = d" for x
    using assms(2) by (auto simp: ReadAll_def delivers_def split: if_splits)
  obtain x s1 where sp: "disk_run (Inl OsError) disk_newSpill s = (x, s1)"
    by (cases "disk_run (Inl OsError) disk_newSpill s")
  note ok1 = newSpill_run_fail [OF assms(1) sp] and fr = disk_run_frame [OF sp]
  consider (mem) t where "ok t" "store t = store s" "same_conf s t" "memBuf_of (ReadAll (Body g), t) = (r, s')"
    | (spill) fb where "x = Inr fb" "loadSpill (Body g) fb s1 = (r, s')"
    using assms(1,3) sp ok1 fr by (auto simp: bufFromGet_def split: if_splits sum.splits)
  then have "ok s' \<and> store s' = store s \<and> same_conf s s' \<and> (r = Inr b \<longrightarrow> buf_ok dview s' b \<and> buf_data s' b = d)"
  proof cases
    case mem
    then show ?thesis using memBuf_of_spec [OF mem(1,4)] rd by auto
  next
    case spill
    note sp1 = newSpill_run [OF assms(1) sp [unfolded spill(1)]]
    show ?thesis
      using loadSpill_spec [OF sp1 spill(2)] fr same_conf_trans [of s s1] assms(2)
      by (auto simp: delivers_def)
  qed
  then show "ok s'" "store s' = store s" "same_conf s s'" "r = Inr b \<Longrightarrow> buf_ok dview s' b \<and> buf_data s' b = d"
    by auto
qed

text \<open>The three ways \<^verbatim>\<open>bufForExisting\<close> can go: through memory, a failed request, a spill file.\<close>

lemma bufForExisting_cases:
  assumes "bufForExisting E p h s = (r, s')"
  obtains (mem) t where "t = s \<or> (\<exists>x. disk_run (Inl OsError) disk_newSpill s = (x, t))"
      "memBuf_of (S3FS_getAll E (key (fs_prefix s) p) t) = (r, s')"
    | (fail) fb e s1 w where "disk_run (Inl OsError) disk_newSpill s = (Inr fb, s1)"
      "GetObject (client E) (fs_bucket s1) (key (fs_prefix s) p) None (fs_world s1) = (Inl e, w)"
      "r = Inl e" "s' = s1\<lparr>fs_world := w, fs_mach := fileBuf_destroy fb (fs_mach s1)\<rparr>"
    | (spill) fb g s1 w where "disk_run (Inl OsError) disk_newSpill s = (Inr fb, s1)"
      "GetObject (client E) (fs_bucket s1) (key (fs_prefix s) p) None (fs_world s1) = (Inr g, w)"
      "loadSpill (Body g) fb (s1\<lparr>fs_world := w\<rparr>) = (r, s')"
proof (cases "fs_disk s = None \<or> ToInt64 (ContentLength h) \<le> spillThreshold s")
  case True
  then show ?thesis using mem [of s] assms by (simp add: bufForExisting_def Let_def)
next
  case False
  let ?k = "key (fs_prefix s) p"
  obtain x s1 where sp: "disk_run (Inl OsError) disk_newSpill s = (x, s1)"
    by (cases "disk_run (Inl OsError) disk_newSpill s")
  obtain r2 w where rq: "GetObject (client E) (fs_bucket s1) ?k None (fs_world s1) = (r2, w)"
    by (cases "GetObject (client E) (fs_bucket s1) ?k None (fs_world s1)")
  note eq = assms [unfolded bufForExisting_def Let_def if_not_P [OF False] sp prod.case]
  show ?thesis
  proof (cases x)
    case (Inl e)
    have "memBuf_of (S3FS_getAll E ?k s1) = (r, s')" using eq unfolding Inl by simp
    then show ?thesis using mem [of s1] sp by blast
  next
    case (Inr fb)
    note eq = eq [unfolded Inr sum.case request_def rq prod.case]
    show ?thesis
    proof (cases r2)
      case (Inl e)
      have "r = Inl e" "s' = s1\<lparr>fs_world := w, fs_mach := fileBuf_destroy fb (fs_mach s1)\<rparr>"
        using eq unfolding Inl by simp_all
      then show ?thesis using fail sp rq Inr Inl by blast
    next
      case g: (Inr g)
      have "loadSpill (Body g) fb (s1\<lparr>fs_world := w\<rparr>) = (r, s')" using eq unfolding g by simp
      then show ?thesis using spill sp rq Inr g by blast
    qed
  qed
qed

lemma bufForExisting_spec:
  assumes "ok s" "bufForExisting E p h s = (r, s')"
  shows "ok s'" and "store s' = store s" and "same_conf s s'"
    and "r = Inr b \<Longrightarrow> buf_ok dview s' b \<and>
           (\<exists>ob. store s (key (fs_prefix s) p) = Some ob \<and> buf_data s' b = odata ob)"
proof -
  let ?k = "key (fs_prefix s) p"
  have run: "ok t" "store t = store s" "same_conf s t" if "disk_run (Inl OsError) disk_newSpill s = (x, t)" for x t
    using newSpill_run_fail [OF assms(1) that] disk_run_frame [OF that] by auto
  have got: "ok (t\<lparr>fs_world := w\<rparr>)" "objs w = store s" "same_conf s (t\<lparr>fs_world := w\<rparr>)"
    if "disk_run (Inl OsError) disk_newSpill s = (x, t)"
       "GetObject (client E) (fs_bucket t) ?k None (fs_world t) = (y, w)" for x t y w
    using run [OF that(1)] GetObject_objs [OF that(2)] same_conf_trans [OF _ same_conf_world]
    by (auto intro: ok_world)
  from assms(2)
  have "ok s' \<and> store s' = store s \<and> same_conf s s' \<and> (r = Inr b \<longrightarrow> buf_ok dview s' b \<and>
      (\<exists>ob. store s ?k = Some ob \<and> buf_data s' b = odata ob))"
  proof (cases rule: bufForExisting_cases)
    case (mem t)
    have t: "ok t" "store t = store s" "same_conf s t" using mem(1) assms(1) run by auto
    obtain y u where y: "S3FS_getAll E ?k t = (y, u)" by (cases "S3FS_getAll E ?k t")
    note gt = getAll_spec [OF t(1) y] and mb = memBuf_of_spec [OF gt(1) mem(2) [unfolded y]]
    have st: "store u = store s" using gt(2) t(2) by simp
    have "buf_ok dview u b \<and> (\<exists>ob. store s ?k = Some ob \<and> buf_data u b = odata ob)" if rb: "r = Inr b"
    proof -
      obtain d where d: "y = Inr d" "buf_ok dview u b" "buf_data u b = d" using mb(2) [OF rb] by blast
      obtain ob where "store t ?k = Some ob" "odata ob = d" using gt(6) [OF d(1)] by blast
      then show ?thesis using d t(2) by simp
    qed
    then show ?thesis unfolding mb(1) using gt(1) st same_conf_trans [OF t(3) gt(3)] by blast
  next
    case (fail fb e s1 w)
    note gw = got [OF fail(1,2)]
    have "same_conf s s'" unfolding fail(4) using gw(3) by (simp add: same_conf_def)
    then show ?thesis using destroy_ok [OF gw(1), of fb] gw(2) unfolding fail(3,4) by simp
  next
    case (spill fb g s1 w)
    note gw = got [OF spill(1,2)] and sp1 = newSpill_run [OF assms(1) spill(1)]
    have b2: "buf_ok dview (s1\<lparr>fs_world := w\<rparr>) (FileBuf fb)" "buf_data (s1\<lparr>fs_world := w\<rparr>) (FileBuf fb) = []"
      using sp1(2,3) by (auto simp: buf_ok_def buf_data_def)
    obtain ob where ob: "store s ?k = Some ob" "delivers (Body g) (odata ob)"
      using GetObject_ok [OF spill(2)] run(2) [OF spill(1)] by metis
    note ld = loadSpill_spec [OF gw(1) b2 spill(3)]
    show ?thesis
      using ld(1,2) ld(4) [of b] gw(2) ob same_conf_trans [OF gw(3) ld(3)] by (simp add: delivers_def)
  qed
  then show "ok s'" "store s' = store s" "same_conf s s'"
    "r = Inr b \<Longrightarrow> buf_ok dview s' b \<and> (\<exists>ob. store s ?k = Some ob \<and> buf_data s' b = odata ob)" by blast+
qed

end

end
