(* ===== verification/Frame.thy ===== *)
theory Frame
  imports S3ops
begin

text \<open>
  What the request primitives leave alone. Open write handles keep their contents in spill
  files, beside the files of the disk tier; the lemmas here show that no primitive touches the
  bytes of a file that existed before, takes over the name of one, or lets a cache entry
  resolve to one that was private. So the buffers of open handles survive whatever the
  filesystem does for other paths.
\<close>

section \<open>The disk tier\<close>

definition disk_frame :: "'d diskCache \<Rightarrow> osfs \<Rightarrow> 'd diskCache \<Rightarrow> osfs \<Rightarrow> bool" where
  "disk_frame c s c' s' \<longleftrightarrow>
     dc_dir c' = dc_dir c \<and> dc_seq c \<le> dc_seq c' \<and> next_ino s \<le> next_ino s' \<and>
     (\<forall>i. i < next_ino s \<longrightarrow> inodes s' i = inodes s i) \<and>
     (\<forall>p i. dirents s' p = Some i \<longrightarrow> dirents s p = Some i \<or> \<not> cache_path c p)"

lemma cache_path_mono:
  "cache_path c p \<Longrightarrow> dc_dir c' = dc_dir c \<Longrightarrow> dc_seq c \<le> dc_seq c' \<Longrightarrow> cache_path c' p"
  unfolding cache_path_def using order_trans by metis

lemma disk_frame_trans:
  assumes "disk_frame a s b t" "disk_frame b t c u"
  shows "disk_frame a s c u"
proof -
  have mono: "cache_path a p \<Longrightarrow> cache_path b p" for p
    using cache_path_mono [of a p b] assms(1) by (simp add: disk_frame_def)
  show ?thesis using assms mono unfolding disk_frame_def by (metis order_trans order_less_le_trans)
qed

lemma disk_sub_frame: "disk_sub view c s c' s' \<Longrightarrow> disk_frame c s c' s'"
  by (auto simp: disk_sub_def disk_frame_def shrinks_def)

lemma shrinks_frame: "shrinks s s' \<Longrightarrow> disk_frame c s c s'"
  by (auto simp: disk_frame_def shrinks_def)

lemma newPath_frame: "disk_newPath kind c = (q, c') \<Longrightarrow> disk_frame c s c' s"
  by (auto simp: disk_newPath_def disk_frame_def)

lemma insert_frame: "disk_insert gc t k etag p n c s = (c', s') \<Longrightarrow> disk_frame c s c' s'"
proof -
  assume "disk_insert gc t k etag p n c s = (c', s')"
  then obtain ev x where "c' = c\<lparr>dc_idx := x\<rparr>" "s' = removeFiles ev s"
    by (auto simp: disk_insert_def split: prod.splits)
  then show ?thesis using shrinks_frame [OF shrinks_removeFiles, of c s ev] by (simp add: disk_frame_def cache_path_def)
qed

lemma link_frame:
  assumes "dc_dir c \<noteq> ''''" "disk_newPath ''c'' c = (q, c')" "os_Link a q s = (None, s')"
  shows "disk_frame c s c' s'"
proof -
  have "\<not> cache_path c q" using fresh_path [OF assms(1) _ assms(2)] by blast
  then show ?thesis
    using newPath_frame [OF assms(2), of s] os_Link_ok [OF assms(3)] by (auto simp: disk_frame_def split: if_splits)
qed

context disk_cache
begin

lemma get_frame: "disk_inv view content c s \<Longrightarrow> disk_get gc t k c s = (r, c', s') \<Longrightarrow> disk_frame c s c' s'"
  using disk_sub_frame get_sub(1) disk_inv_lru by blast

lemma has_frame: "disk_inv view content c s \<Longrightarrow> disk_has gc t k c s = (r, c', s') \<Longrightarrow> disk_frame c s c' s'"
  using get_frame by (auto simp: disk_has_def split: prod.splits)

lemma drop_frame: "disk_inv view content c s \<Longrightarrow> disk_dropDeleted gc k c s = (c', s') \<Longrightarrow> disk_frame c s c' s'"
  using disk_sub_frame drop_sub(1) disk_inv_lru by blast

lemma open_frame: "disk_inv view content c s \<Longrightarrow> disk_open gc t k etag c s = (r, c', s') \<Longrightarrow> disk_frame c s c' s'"
  using disk_sub_frame open_sub disk_inv_lru by blast

lemma ensure_frame': "disk_inv view content c s \<Longrightarrow> disk_ensure c s = (r, c', s') \<Longrightarrow> disk_frame c s c' s'"
  using disk_sub_frame disk_ensure_sub disk_inv_lru by blast

lemma inv_dir: "disk_inv view content c s \<Longrightarrow> dc_dir c \<noteq> ''''"
  by (simp add: disk_inv_def)

lemma newSpill_frame:
  assumes inv: "disk_inv view content c s" and op: "disk_newSpill c s = (r, c', s')"
  shows "disk_frame c s c' s'"
proof -
  obtain r1 c1 s1 where en: "disk_ensure c s = (r1, c1, s1)" by (cases "disk_ensure c s") auto
  note f1 = ensure_frame' [OF inv en] and inv1 = disk_sub_inv [OF inv disk_ensure_sub [OF disk_inv_lru [OF inv] en]]
  obtain q c2 where np: "disk_newPath ''w'' c1 = (q, c2)" by (cases "disk_newPath ''w'' c1")
  obtain x s2 where cr: "os_CreateExcl q s1 = (x, s2)" by (cases "os_CreateExcl q s1")
  show ?thesis
  proof (cases r1)
    case (Some e)
    then show ?thesis using op en f1 by (simp add: disk_newSpill_def)
  next
    case None
    have "disk_frame c1 s1 c2 s2"
    proof (cases x)
      case (Inl e)
      then show ?thesis
        using shrinks_frame [OF os_CreateExcl_error] disk_frame_trans newPath_frame [OF np] cr by blast
    next
      case (Inr f)
      note cv = create_inv [OF inv1 np _ cr [unfolded Inr]]
      show ?thesis using cv(5,6,9-11) newPath_frame [OF np, of s1] by (auto simp: disk_frame_def)
    qed
    moreover have "c' = c2" "s' = s2" using op en np cr None by (auto simp: disk_newSpill_def split: sum.splits)
    ultimately show ?thesis using disk_frame_trans [OF f1] by simp
  qed
qed

lemma copied_frame:
  assumes inv: "disk_inv view content c s" and op: "disk_copied gc t k k' c s = (c', s')"
  shows "disk_frame c s c' s'"
proof -
  obtain r c1 s1 where g: "disk_get gc t k c s = (r, c1, s1)" by (cases "disk_get gc t k c s") auto
  note k1 = get_sub(1) [OF disk_inv_lru [OF inv] g]
  note f1 = disk_sub_frame [OF k1] and inv1 = disk_sub_inv [OF inv k1]
  obtain q c2 where np: "disk_newPath ''c'' c1 = (q, c2)" by (cases "disk_newPath ''c'' c1")
  note inv2 = disk_sub_inv [OF inv1 newPath_sub [OF disk_inv_lru [OF inv1] np]]
  show ?thesis
  proof (cases r)
    case None
    then have "disk_dropDeleted gc k' c1 s1 = (c', s')" using op g by (simp add: disk_copied_def)
    then show ?thesis using disk_frame_trans [OF f1 drop_frame [OF inv1]] by blast
  next
    case (Some e)
    obtain er s2 where ln: "os_Link (dk_path e) q s1 = (er, s2)" by (cases "os_Link (dk_path e) q s1")
    show ?thesis
    proof (cases er)
      case None
      then have "disk_insert gc t k' (dk_etag e) q (dk_size e) c2 s2 = (c', s')"
        using op g Some np ln by (simp add: disk_copied_def)
      from disk_frame_trans [OF link_frame [OF inv_dir [OF inv1] np ln [unfolded None]] insert_frame [OF this]]
      show ?thesis by (rule disk_frame_trans [OF f1])
    next
      case (Some e')
      then have d: "disk_dropDeleted gc k' c2 s2 = (c', s')"
        using op g \<open>r = Some e\<close> np ln by (simp add: disk_copied_def)
      have k2: "disk_sub view c2 s1 c2 s2"
        using disk_sub_refl [OF disk_inv_lru [OF inv2]] os_Link_error ln Some by blast
      show ?thesis
        using drop_frame [OF disk_sub_inv [OF inv2 k2] d] disk_sub_frame [OF k2] newPath_frame [OF np]
          f1 disk_frame_trans by blast
    qed
  qed
qed

lemma adopt_frame:
  assumes inv: "disk_inv view content c s" and op: "disk_adopt gc t k etag p n c s = (c', s')"
  shows "disk_frame c s c' s'"
proof -
  obtain r c1 s1 where en: "disk_ensure c s = (r, c1, s1)" by (cases "disk_ensure c s") auto
  note f1 = ensure_frame' [OF inv en] and inv1 = disk_sub_inv [OF inv disk_ensure_sub [OF disk_inv_lru [OF inv] en]]
  obtain q c2 where np: "disk_newPath ''c'' c1 = (q, c2)" by (cases "disk_newPath ''c'' c1")
  obtain er s2 where ln: "os_Link p q s1 = (er, s2)" by (cases "os_Link p q s1")
  have refl: "disk_frame c s c s" by (rule shrinks_frame) simp
  show ?thesis
  proof (cases "etag = '''' \<or> r \<noteq> None")
    case True
    then show ?thesis using op en f1 refl by (auto simp: disk_adopt_def split: if_splits option.splits)
  next
    case False
    show ?thesis
    proof (cases er)
      case None
      then have "disk_insert gc t k etag q n c2 s2 = (c', s')"
        using op en False np ln by (simp add: disk_adopt_def)
      from disk_frame_trans [OF link_frame [OF inv_dir [OF inv1] np ln [unfolded None]] insert_frame [OF this]]
      show ?thesis by (rule disk_frame_trans [OF f1])
    next
      case (Some e)
      then have "c' = c2" "s' = s2" using op en False np ln by (auto simp: disk_adopt_def)
      then show ?thesis
        using shrinks_frame [OF os_Link_error [OF ln [unfolded Some]]] newPath_frame [OF np] f1 disk_frame_trans by metis
    qed
  qed
qed

end

section \<open>The filesystem\<close>

definition keeps ::
    "('d \<Rightarrow> (string \<times> diskEntry lruEntry) list) \<Rightarrow> ('w, 'c, 'd, 'z) S3FS_scheme
       \<Rightarrow> ('w, 'c, 'd, 'z) S3FS_scheme \<Rightarrow> bool" where
  "keeps dview s s' \<longleftrightarrow>
     (\<forall>c. fs_disk s = Some c \<longrightarrow>
        (\<exists>c'. fs_disk s' = Some c' \<and> disk_frame c (mos (fs_mach s)) c' (mos (fs_mach s')) \<and>
              (\<forall>i. i < next_ino (mos (fs_mach s)) \<longrightarrow> private_ino dview c (mos (fs_mach s)) i \<longrightarrow>
                   private_ino dview c' (mos (fs_mach s')) i)))"

lemma keeps_same: "mos (fs_mach s') = mos (fs_mach s) \<Longrightarrow> fs_disk s' = fs_disk s \<Longrightarrow> keeps dview s s'"
  using shrinks_frame [OF shrinks_refl] by (auto simp: keeps_def)

lemma keeps_refl [simp]: "keeps dview s s"
  by (rule keeps_same) simp_all

lemma keeps_trans:
  assumes "keeps dview a b" "keeps dview b c" shows "keeps dview a c"
  unfolding keeps_def
proof (intro allI impI)
  fix ca assume a: "fs_disk a = Some ca"
  let ?o = "\<lambda>s. mos (fs_mach s)"
  obtain cb where b: "fs_disk b = Some cb" "disk_frame ca (?o a) cb (mos (fs_mach b))"
      "\<And>i. i < next_ino (?o a) \<Longrightarrow> private_ino dview ca (?o a) i \<Longrightarrow> private_ino dview cb (mos (fs_mach b)) i"
    using assms(1) a unfolding keeps_def by blast
  obtain cc where c: "fs_disk c = Some cc" "disk_frame cb (mos (fs_mach b)) cc (mos (fs_mach c))"
      "\<And>i. i < next_ino (mos (fs_mach b)) \<Longrightarrow> private_ino dview cb (mos (fs_mach b)) i \<Longrightarrow>
         private_ino dview cc (mos (fs_mach c)) i"
    using assms(2) b(1) unfolding keeps_def by blast
  have le: "next_ino (?o a) \<le> next_ino (mos (fs_mach b))" using b(2) by (simp add: disk_frame_def)
  show "\<exists>c'. fs_disk c = Some c' \<and> disk_frame ca (?o a) c' (mos (fs_mach c)) \<and>
     (\<forall>i<next_ino (?o a). private_ino dview ca (?o a) i \<longrightarrow> private_ino dview c' (mos (fs_mach c)) i)"
    using c(1) disk_frame_trans [OF b(2) c(2)] b(3) c(3) le by (auto intro: order_less_le_trans)
qed

text \<open>A buffer of an open handle survives.\<close>

lemma keeps_buf:
  assumes "keeps dview s s'" "buf_ok dview s b"
  shows "buf_ok dview s' b" and "buf_data s' b = buf_data s b"
proof -
  have "buf_ok dview s' b \<and> buf_data s' b = buf_data s b"
  proof (cases b)
    case (MemBuf x)
    then show ?thesis using assms(2) by (simp add: buf_ok_def buf_data_def)
  next
    case (FileBuf fb)
    obtain c where c: "fs_disk s = Some c" "private_ino dview c (mos (fs_mach s)) (fb_f fb)"
        "cache_path c (fb_path fb)" "fb_f fb < next_ino (mos (fs_mach s))"
        "\<forall>i. dirents (mos (fs_mach s)) (fb_path fb) = Some i \<longrightarrow> i = fb_f fb"
        "buf_wf (fs_mach s) b"
      using assms(2) FileBuf by (auto simp: buf_ok_def)
    obtain c' where c': "fs_disk s' = Some c'" "disk_frame c (mos (fs_mach s)) c' (mos (fs_mach s'))"
        "private_ino dview c' (mos (fs_mach s')) (fb_f fb)"
      using assms(1) c(1,2,4) unfolding keeps_def by blast
    have d: "inodes (mos (fs_mach s')) (fb_f fb) = inodes (mos (fs_mach s)) (fb_f fb)"
        "fb_f fb < next_ino (mos (fs_mach s'))" "cache_path c' (fb_path fb)"
        "\<forall>i. dirents (mos (fs_mach s')) (fb_path fb) = Some i \<longrightarrow> i = fb_f fb"
      using c' c cache_path_mono [OF c(3), of c'] by (auto simp: disk_frame_def)
    show ?thesis using c c' d FileBuf by (auto simp: buf_ok_def buf_data_def)
  qed
  then show "buf_ok dview s' b" "buf_data s' b = buf_data s b" by auto
qed

context s3fs
begin

abbreviation (input) kept where "kept \<equiv> keeps dview"

abbreviation (input) disk_ok where
  "disk_ok s \<equiv> \<forall>c. fs_disk s = Some c \<longrightarrow> disk_inv dview content c (mos (fs_mach s))"

lemma ok_disk: "ok s \<Longrightarrow> disk_ok s"
  by (simp add: fs_ok_def)

lemma with_mem_keeps [simp]: "kept s (with_mem f s)"
  by (rule keeps_same) simp_all

lemma world_keeps [simp]: "kept s (s\<lparr>fs_world := w\<rparr>)"
  by (rule keeps_same) simp_all

lemma with_disk_keeps:
  assumes "disk_ok s" "\<And>c c' o'. disk_inv dview content c (mos (fs_mach s)) \<Longrightarrow> g c (mos (fs_mach s)) = (c', o') \<Longrightarrow>
      disk_frame c (mos (fs_mach s)) c' o' \<and>
      (\<forall>i. private_ino dview c (mos (fs_mach s)) i \<longrightarrow> private_ino dview c' o' i)"
  shows "kept s (with_disk g s)"
  using assms by (auto simp: keeps_def with_disk_def set_os_def split: prod.splits)

lemma disk_run_keeps:
  assumes "disk_ok s" "disk_run a f s = (r, s')"
    "\<And>c r c' o'. disk_inv dview content c (mos (fs_mach s)) \<Longrightarrow> f c (mos (fs_mach s)) = (r, c', o') \<Longrightarrow>
      disk_frame c (mos (fs_mach s)) c' o' \<and>
      (\<forall>i. private_ino dview c (mos (fs_mach s)) i \<longrightarrow> private_ino dview c' o' i)"
  shows "kept s s'"
  using assms by (auto simp: keeps_def disk_run_def set_os_def split: option.splits prod.splits)

lemma shrink_keeps: "shrinks (mos (fs_mach s)) o1 \<Longrightarrow> kept s (set_os o1 s)"
proof -
  assume sh: "shrinks (mos (fs_mach s)) o1"
  then have "private_ino dview c (mos (fs_mach s)) i \<Longrightarrow> private_ino dview c o1 i" for c i
    unfolding private_ino_def shrinks_def by blast
  then show ?thesis by (simp add: keeps_def shrinks_frame [OF sh])
qed

lemma sub_keeps:
  "disk_sub dview c o1 c' o2 \<Longrightarrow> disk_frame c o1 c' o2 \<and> (\<forall>i. private_ino dview c o1 i \<longrightarrow> private_ino dview c' o2 i)"
  using disk_sub_frame disk_sub_private by blast

lemma drop_keeps: "disk_ok s \<Longrightarrow> kept s (with_disk (disk_dropDeleted (disk_lru E) k) s)"
  by (rule with_disk_keeps) (use sub_keeps disk.drop_sub(1) disk_inv_lru in blast)+

lemma copied_keeps: "disk_ok s \<Longrightarrow> kept s (with_disk (disk_copied (disk_lru E) t k k') s)"
  by (rule with_disk_keeps) (use disk.copied_frame disk.copied_inv(2) in blast)+

lemma has_sub: "disk_inv dview content c o1 \<Longrightarrow> disk_has (disk_lru E) t k c o1 = (r, c', o2) \<Longrightarrow> disk_sub dview c o1 c' o2"
  by (auto simp: disk_has_def split: prod.splits dest: disk.get_sub(1) [OF disk_inv_lru])

lemma has_keeps: "disk_ok s \<Longrightarrow> disk_run False (disk_has (disk_lru E) t k) s = (r, s') \<Longrightarrow> kept s s'"
  by (erule disk_run_keeps) (assumption, rule sub_keeps, rule has_sub)

lemma open_keeps: "disk_ok s \<Longrightarrow> disk_run None (disk_open (disk_lru E) t k e) s = (r, s') \<Longrightarrow> kept s s'"
  by (erule disk_run_keeps) (assumption, rule sub_keeps, rule disk.open_sub, rule disk_inv_lru)

lemma ensure_keeps: "disk_ok s \<Longrightarrow> disk_run x disk_ensure s = (r, s') \<Longrightarrow> kept s s'"
  by (erule disk_run_keeps) (assumption, rule sub_keeps, rule disk_ensure_sub, rule disk_inv_lru)

lemma newSpill_keeps: "disk_ok s \<Longrightarrow> disk_run x disk_newSpill s = (r, s') \<Longrightarrow> kept s s'"
  by (erule disk_run_keeps) (use disk.newSpill_frame disk.newSpill_inv(4) in blast)+

text \<open>Requests and lookups that leave the local machine and the disk tier alone.\<close>

lemma head_local: "S3FS_head E k s = (r, s') \<Longrightarrow> fs_mach s' = fs_mach s \<and> fs_disk s' = fs_disk s"
  unfolding head_eq by (auto simp: request_def dest: mem_find_frame split: prod.splits if_splits option.splits)

lemma dirExists_local: "dirExists E p s = (r, s') \<Longrightarrow> fs_mach s' = fs_mach s \<and> fs_disk s' = fs_disk s"
  by (auto simp: dirExists_def request_def Let_def dest!: mem_find_frame
      split: prod.splits if_splits option.splits sum.splits)

lemma resolveLoop_local:
  "resolveLoop E opn p hops s = (r, s') \<Longrightarrow> fs_mach s' = fs_mach s \<and> fs_disk s' = fs_disk s"
proof (induction E opn p hops s arbitrary: r rule: resolveLoop.induct)
  case (1 E opn p hops s)
  obtain x s1 where h: "S3FS_head E (key (fs_prefix s) p) s = (x, s1)"
    by (cases "S3FS_head E (key (fs_prefix s) p) s")
  have l: "fs_mach s1 = fs_mach s \<and> fs_disk s1 = fs_disk s"
    using h unfolding S3FS_head_def
    by (auto simp: request_def dest!: mem_find_frame split: prod.splits if_splits option.splits sum.splits)
  show ?case
    using "1.prems" l h "1.IH" [OF _ h [symmetric]]
    by (subst (asm) resolveLoop.simps) (auto split: if_splits sum.splits option.splits)
qed

lemma listLoop_local:
  "listLoop E fuel inp keys s = Some (r, s') \<Longrightarrow> fs_mach s' = fs_mach s \<and> fs_disk s' = fs_disk s"
  by (induction fuel arbitrary: inp keys s)
     (auto simp: request_def Let_def split: prod.splits sum.splits if_splits)

lemmas local_keeps = keeps_same [OF arg_cong [of _ _ mos, OF conjunct1] conjunct2]

lemma getAll_keeps: "S3FS_getAll E k s = (r, s') \<Longrightarrow> kept s s'"
  by (auto simp: S3FS_getAll_def request_def split: prod.splits sum.splits)

lemma put_keeps: "disk_ok s \<Longrightarrow> S3FS_put E k data meta s = (r, s') \<Longrightarrow> kept s s'"
  by (auto simp: S3FS_put_def request_def Let_def split: prod.splits sum.splits
      intro!: keeps_trans [OF keeps_same drop_keeps])

lemma delete_keeps: "disk_ok s \<Longrightarrow> S3FS_delete E k s = (r, s') \<Longrightarrow> kept s s'"
  by (auto simp: S3FS_delete_def request_def split: prod.splits option.splits
      intro!: keeps_trans [OF keeps_same drop_keeps])

lemma copy_keeps: "disk_ok s \<Longrightarrow> S3FS_copy E k k' s = (r, s') \<Longrightarrow> kept s s'"
  by (auto simp: S3FS_copy_def request_def Let_def split: prod.splits option.splits
      intro!: keeps_trans [OF keeps_same copied_keeps])

lemma SeekStart_shrinks: "os_SeekStart f o1 = (r, o2) \<Longrightarrow> shrinks o1 o2"
  by (auto simp: os_SeekStart_def dest: shrinks_next_fault split: prod.splits)

lemma putSpill_keeps:
  assumes "ok s" "S3FS_putSpill E k fb meta s = (r, s')"
  shows "kept s s'"
proof -
  obtain er o1 where sk: "os_SeekStart (fb_f fb) (mos (fs_mach s)) = (er, o1)" by (metis prod.exhaust)
  note sh = SeekStart_shrinks [OF sk]
  have k1: "kept s (set_os o1 s)" by (rule shrink_keeps [OF sh])
  have d1: "disk_ok (set_os o1 s)" by (rule ok_disk [OF shrink_ok [OF assms(1) sh]])
  have "kept (set_os o1 s) s'" if "er = None"
    using assms(2) sk that d1
    by (auto simp: S3FS_putSpill_def request_def Let_def split: prod.splits sum.splits
        intro!: keeps_trans [OF keeps_same drop_keeps])
  moreover have "s' = set_os o1 s" if "er \<noteq> None"
    using assms(2) sk that by (auto simp: S3FS_putSpill_def)
  ultimately show ?thesis using k1 keeps_trans by (cases er) auto
qed

lemma headOrGet_keeps:
  assumes "ok s" "headOrGet E k s = (r, s')"
  shows "kept s s'"
proof -
  obtain e s1 where f: "mem_find E k s = (e, s1)" by (cases "mem_find E k s")
  obtain b s2 where d: "disk_run False (disk_has (disk_lru E) (now E s1) k) s1 = (b, s2)"
    by (cases "disk_run False (disk_has (disk_lru E) (now E s1) k) s1")
  have k1: "kept s s1" using mem_find_frame [OF f] by (intro keeps_same) auto
  have k2: "kept s s2" by (rule keeps_trans [OF k1 has_keeps [OF ok_disk [OF mem_find_ok(1) [OF assms(1) f]] d]])
  have "s' = s1 \<or> (fs_mach s' = fs_mach s2 \<and> fs_disk s' = fs_disk s2)"
    using assms(2) f d head_local unfolding headOrGet_eq
    by (fastforce simp: request_def split: prod.splits if_splits option.splits)
  then show ?thesis using k1 keeps_trans [OF k2 local_keeps] by blast
qed

lemma resolveForReadLoop_keeps:
  assumes "ok s" "resolveForReadLoop E opn p hops s = (r, s')"
  shows "kept s s'"
  using assms
proof (induction "Suc maxSymlinkDepth - hops" arbitrary: p hops s rule: less_induct)
  case less
  obtain x s1 where h: "headOrGet E (key (fs_prefix s) p) s = (x, s1)"
    by (cases "headOrGet E (key (fs_prefix s) p) s")
  note k = headOrGet_keeps [OF less.prems(1) h]
  note ok1 = headOrGet_spec(1) [OF less.prems(1) h ok_key [OF less.prems(1)]]
  have "s' = s \<or> s' = s1 \<or> (\<exists>t. Suc hops \<le> maxSymlinkDepth \<and>
      resolveForReadLoop E opn (nextHop p t) (Suc hops) s1 = (r, s'))"
    using less.prems(2) h
    by (subst (asm) resolveForReadLoop.simps) (auto split: if_splits sum.splits option.splits prod.splits)
  moreover have "kept s1 s'" if "Suc hops \<le> maxSymlinkDepth"
      "resolveForReadLoop E opn (nextHop p t) (Suc hops) s1 = (r, s')" for t
    using less.hyps [OF _ ok1 that(2)] that(1) by simp
  ultimately show ?case using k keeps_trans [OF k] keeps_refl by blast
qed

text \<open>Bytes written to a file created since do not matter.\<close>

lemma write_keeps:
  assumes "kept s s1" "fs_disk s2 = fs_disk s1" "fs_disk s \<noteq> None \<Longrightarrow> next_ino (mos (fs_mach s)) \<le> f"
    "next_ino (mos (fs_mach s2)) = next_ino (mos (fs_mach s1))"
    "\<And>j. j \<noteq> f \<Longrightarrow> inodes (mos (fs_mach s2)) j = inodes (mos (fs_mach s1)) j"
    "\<And>p i. dirents (mos (fs_mach s2)) p = Some i \<Longrightarrow> dirents (mos (fs_mach s1)) p = Some i"
  shows "kept s s2"
  unfolding keeps_def
proof (intro allI impI)
  fix c assume c: "fs_disk s = Some c"
  then obtain c' where c': "fs_disk s1 = Some c'" "disk_frame c (mos (fs_mach s)) c' (mos (fs_mach s1))"
      "\<And>i. i < next_ino (mos (fs_mach s)) \<Longrightarrow> private_ino dview c (mos (fs_mach s)) i \<Longrightarrow>
         private_ino dview c' (mos (fs_mach s1)) i"
    using assms(1) unfolding keeps_def by blast
  have "inodes (mos (fs_mach s2)) i = inodes (mos (fs_mach s1)) i" if "i < next_ino (mos (fs_mach s))" for i
    using assms(3,5) c that by (metis leD option.distinct(1))
  then have "disk_frame c (mos (fs_mach s)) c' (mos (fs_mach s2))"
    using c'(2) assms(4,6) by (simp add: disk_frame_def)
  moreover have "private_ino dview c' (mos (fs_mach s2)) i" if "private_ino dview c' (mos (fs_mach s1)) i" for i
    using that assms(6) unfolding private_ino_def by blast
  ultimately show "\<exists>c'. fs_disk s2 = Some c' \<and> disk_frame c (mos (fs_mach s)) c' (mos (fs_mach s2)) \<and>
     (\<forall>i<next_ino (mos (fs_mach s)). private_ino dview c (mos (fs_mach s)) i \<longrightarrow>
         private_ino dview c' (mos (fs_mach s2)) i)"
    using c' assms(2) by auto
qed

lemma destroy_keeps: "kept s (s\<lparr>fs_mach := fileBuf_destroy fb (fs_mach s)\<rparr>)"
  unfolding fileBuf_destroy_def mach_set_os by (rule shrink_keeps [OF shrinks_Remove])

lemma loadSpill_keeps:
  assumes "kept s s1" "fs_disk s \<noteq> None \<Longrightarrow> next_ino (mos (fs_mach s)) \<le> fb_f fb" "loadSpill bd fb s1 = (r, s')"
  shows "kept s s'"
proof -
  obtain n err o1 where cp: "copyStream (fb_f fb) 0 bd (mos (fs_mach s1)) = ((n, err), o1)" by (metis prod.exhaust)
  have k: "kept s (set_os o1 s1)"
    by (rule write_keeps [OF assms(1) _ assms(2)]) (use copyStream_frame [OF cp] in simp_all)
  show ?thesis
    using assms(3) cp k keeps_trans [OF k destroy_keeps] by (cases err) (auto simp: loadSpill_def Let_def)
qed

lemma newSpill_fresh:
  assumes "ok s" "disk_run (Inl OsError) disk_newSpill s = (Inr fb, s')"
  shows "next_ino (mos (fs_mach s)) = fb_f fb"
proof -
  obtain c c1 o1 where "fs_disk s = Some c" "disk_newSpill c (mos (fs_mach s)) = (Inr fb, c1, o1)"
    using assms(2) by (auto simp: disk_run_def split: option.splits prod.splits)
  then show ?thesis using disk.newSpill_inv(6) assms(1) by (fastforce simp: fs_ok_def)
qed

lemma memBuf_of_keeps: "memBuf_of (x, s) = (r, s') \<Longrightarrow> kept s s'"
  by (auto simp: memBuf_of_def newMemBuf_def split: sum.splits)

lemma bufFromGet_keeps:
  assumes "ok s" "bufFromGet h g s = (r, s')"
  shows "kept s s'"
proof -
  obtain x s1 where sp: "disk_run (Inl OsError) disk_newSpill s = (x, s1)"
    by (cases "disk_run (Inl OsError) disk_newSpill s")
  have k1: "kept s s1" by (rule newSpill_keeps [OF ok_disk [OF assms(1)] sp])
  consider "memBuf_of (ReadAll (Body g), s) = (r, s')" | "memBuf_of (ReadAll (Body g), s1) = (r, s')"
    | fb where "x = Inr fb" "loadSpill (Body g) fb s1 = (r, s')"
    using assms(2) sp by (auto simp: bufFromGet_def split: if_splits sum.splits)
  then show ?thesis
  proof cases
    case 3
    then show ?thesis using loadSpill_keeps [OF k1 _ 3(2)] newSpill_fresh [OF assms(1) sp [unfolded 3(1)]] by simp
  qed (use memBuf_of_keeps k1 keeps_trans in blast)+
qed

lemma bufForExisting_keeps:
  assumes "ok s" "bufForExisting E p h s = (r, s')"
  shows "kept s s'"
proof -
  note run = newSpill_keeps [OF ok_disk [OF assms(1)]]
  from assms(2) show ?thesis
  proof (cases rule: bufForExisting_cases)
    case (mem t)
    obtain y u where y: "S3FS_getAll E (key (fs_prefix s) p) t = (y, u)"
      by (cases "S3FS_getAll E (key (fs_prefix s) p) t")
    have "kept s t" using mem(1) run by auto
    then show ?thesis
      using keeps_trans getAll_keeps [OF y] memBuf_of_keeps [OF mem(2) [unfolded y]] by blast
  next
    case (fail fb e s1 w)
    have "kept s (s1\<lparr>fs_world := w\<rparr>)" using run [OF fail(1)] by (rule keeps_trans) simp
    from keeps_trans [OF this destroy_keeps [of _ fb]] show ?thesis unfolding fail(4) by simp
  next
    case (spill fb g s1 w)
    have "kept s (s1\<lparr>fs_world := w\<rparr>)" using run [OF spill(1)] by (rule keeps_trans) simp
    then show ?thesis
      by (rule loadSpill_keeps [OF _ _ spill(3)]) (simp add: newSpill_fresh [OF assms(1) spill(1)])
  qed
qed

end

section \<open>Operations that change nothing\<close>

text \<open>
  After such an operation the invariant holds, the store is as before, the configuration and
  the locks too, and the buffers of open handles survive.
\<close>

definition calm ::
    "('w \<Rightarrow> objects) \<Rightarrow> (string \<Rightarrow> bytes) \<Rightarrow> ('c \<Rightarrow> (string \<times> memEntry lruEntry) list)
       \<Rightarrow> ('d \<Rightarrow> (string \<times> diskEntry lruEntry) list)
       \<Rightarrow> ('w, 'c, 'd, 'z) S3FS_scheme \<Rightarrow> ('w, 'c, 'd, 'z) S3FS_scheme \<Rightarrow> bool" where
  "calm objs content mview dview s s' \<longleftrightarrow>
     fs_ok objs content mview dview s' \<and> objs (fs_world s') = objs (fs_world s) \<and> same_conf s s' \<and> keeps dview s s'"

lemma calm_trans:
  "calm objs content mview dview a b \<Longrightarrow> calm objs content mview dview b c \<Longrightarrow> calm objs content mview dview a c"
  unfolding calm_def using same_conf_trans [of a b c] keeps_trans [of dview a b c] by auto

lemma calm_refl: "fs_ok objs content mview dview s \<Longrightarrow> calm objs content mview dview s s"
  by (simp add: calm_def)

lemma calmD:
  assumes "calm objs content mview dview s s'"
  shows "fs_ok objs content mview dview s'" "objs (fs_world s') = objs (fs_world s)" "same_conf s s'"
    "keeps dview s s'" "fs_prefix s' = fs_prefix s" "fs_bucket s' = fs_bucket s"
  using assms by (simp_all add: calm_def same_conf_def)

context s3fs
begin

abbreviation (input) still where "still \<equiv> calm objs content mview dview"

lemma world_calm: "ok s \<Longrightarrow> objs w = store s \<Longrightarrow> still s (s\<lparr>fs_world := w\<rparr>)"
  using ok_world by (simp add: calm_def)

lemma head_calm: "ok s \<Longrightarrow> S3FS_head E k s = (r, s') \<Longrightarrow> \<not> dir_key k \<Longrightarrow> still s s'"
  using head_spec(1-3) local_keeps [OF head_local head_local] unfolding calm_def by blast

lemma mem_find_calm: "ok s \<Longrightarrow> mem_find E k s = (r, s') \<Longrightarrow> still s s'"
  using mem_find_ok(1) mem_find_frame [of E k s r s'] keeps_same [of s' s] by (simp add: calm_def)

lemma dirExists_calm: "ok s \<Longrightarrow> dirExists E p s = (r, s') \<Longrightarrow> still s s'"
  using dirExists_spec(1-3) local_keeps [OF dirExists_local dirExists_local] unfolding calm_def by blast

lemma resolve_calm: "ok s \<Longrightarrow> resolve E opn p s = (r, s') \<Longrightarrow> still s s'"
  using resolveLoop_spec [of s opn "cleanPath p" 0] local_keeps [OF resolveLoop_local resolveLoop_local]
  unfolding calm_def resolve_def by (cases r) blast

lemma resolveForRead_calm: "ok s \<Longrightarrow> resolveForRead E opn p s = (r, s') \<Longrightarrow> still s s'"
  using resolveForReadLoop_spec [of s opn "cleanPath p" 0] resolveForReadLoop_keeps
  unfolding calm_def resolveForRead_def by (cases r) blast

lemma getAll_calm: "ok s \<Longrightarrow> S3FS_getAll E k s = (r, s') \<Longrightarrow> still s s'"
  using getAll_spec(1-3) getAll_keeps unfolding calm_def by blast

lemma listAllKeys_calm: "ok s \<Longrightarrow> listAllKeys E fuel pre s = Some (r, s') \<Longrightarrow> still s s'"
  using listAllKeys_spec(1-3) [of s fuel pre r s'] local_keeps [OF listLoop_local listLoop_local]
  by (simp add: calm_def listAllKeys_def)

lemma bufFromGet_calm: "ok s \<Longrightarrow> delivers (Body g) d \<Longrightarrow> bufFromGet h g s = (r, s') \<Longrightarrow> still s s'"
  using bufFromGet_spec(1-3) [of s g d h r s'] bufFromGet_keeps [of s h g r s'] by (simp add: calm_def)

lemma bufForExisting_calm: "ok s \<Longrightarrow> bufForExisting E p h s = (r, s') \<Longrightarrow> still s s'"
  using bufForExisting_spec(1-3) bufForExisting_keeps unfolding calm_def by blast

end

end
