(* ===== verification/Opens.thy ===== *)
theory Opens
  imports Frame
begin

text \<open>
  Opening for reading through the cache tiers (\<^verbatim>\<open>cachedOpen\<close>, \<^verbatim>\<open>openFromGet\<close>,
  \<^verbatim>\<open>diskFetch\<close>, \<^verbatim>\<open>diskFill\<close> of \<^verbatim>\<open>s3ops.go\<close>), and the properties of the request
  primitives. Whatever tier serves an open, the handle stands for exactly the bytes of the
  object, and the tiers it was entered into stay coherent.
\<close>

text \<open>A client whose metadata lookups fail only for missing objects.\<close>

definition heads_answer :: "'w Client \<Rightarrow> bool" where
  "heads_answer cl \<longleftrightarrow> (\<forall>b k w e w'. HeadObject cl b k w = (Inl e, w') \<longrightarrow> isNotFound e)"

section \<open>New read handles\<close>

definition serves_open ::
    "('w \<Rightarrow> objects) \<Rightarrow> string \<Rightarrow> HeadObjectOutput \<Rightarrow> bytes \<Rightarrow> readOnlyFile \<Rightarrow> ('w, 'c, 'd, 'z) S3FS_scheme \<Rightarrow> bool" where
  "serves_open objs p h d f s \<longleftrightarrow>
     ro_serves objs f s d \<and> ro_pos f = 0 \<and> ro_name f = p \<and> ro_info f = infoFromHeadValue (path_Base p) h"

lemma infoFromHeadValue_size: "fi_size (infoFromHeadValue n h) = ToInt64 (ContentLength h)"
  by (simp add: infoFromHeadValue_def)

lemma info_size_same:
  "ContentLength h = Some n \<Longrightarrow> (infoFromHeadValue b h)\<lparr>fi_size := n\<rparr> = infoFromHeadValue b h"
  by (simp add: infoFromHeadValue_def)

lemma back_serves_id [simp]: "back_serves objs b (s\<lparr>fs_nextid := i\<rparr>) d = back_serves objs b s d"
  by (cases b) simp_all

lemma ro_new_serves:
  assumes "ro_new p (infoFromHeadValue (path_Base p) h) back s = (f, s')" "back_serves objs back s d"
    "ContentLength h = Some (int (length d))"
  shows "serves_open objs p h d f s'"
  using assms by (auto simp: ro_new_def new_handle_def serves_open_def ro_serves_def infoFromHeadValue_size)

definition handle_only :: "('w, 'c, 'd, 'z) S3FS_scheme \<Rightarrow> ('w, 'c, 'd, 'z) S3FS_scheme \<Rightarrow> bool" where
  "handle_only s s' \<longleftrightarrow> s' = s\<lparr>fs_nextid := fs_nextid s + 1\<rparr>"

lemma ro_new_state: "ro_new p info back s = (f, s') \<Longrightarrow> handle_only s s'"
  by (auto simp: ro_new_def new_handle_def handle_only_def)

lemma handle_only_frame:
  assumes "handle_only s s'"
  shows "fs_ok objs content mview dview s' = fs_ok objs content mview dview s" "fs_world s' = fs_world s"
    "same_conf s s'" "keeps dview s s'"
  using assms keeps_same [of s' s] by (simp_all add: handle_only_def fs_ok_def same_conf_def)

section \<open>Filling the disk tier\<close>

lemma diskFill_cases:
  assumes "diskFill E k etag h p bd s = (r, s')"
  obtains (off) "fs_disk s = None" "r = Inr None" "s' = s"
    | (none) c c1 o1 e where "fs_disk s = Some c" "disk_ensure c (mos (fs_mach s)) = (Some e, c1, o1)"
        "r = Inr None" "s' = set_os o1 (s\<lparr>fs_disk := Some c1\<rparr>)"
    | (nofile) c c1 c2 o1 o2 q e where "fs_disk s = Some c" "disk_ensure c (mos (fs_mach s)) = (None, c1, o1)"
        "disk_newPath ''c'' c1 = (q, c2)" "os_CreateExcl q o1 = (Inl e, o2)"
        "r = Inr None" "s' = set_os o2 (s\<lparr>fs_disk := Some c2\<rparr>)"
    | (filled) c c1 c2 o1 o2 o3 q f n err where "fs_disk s = Some c" "disk_ensure c (mos (fs_mach s)) = (None, c1, o1)"
        "disk_newPath ''c'' c1 = (q, c2)" "os_CreateExcl q o1 = (Inr f, o2)" "copyStream f 0 bd o2 = ((n, err), o3)"
        "(r, s') =
           (case err of
              Some e \<Rightarrow> (Inl e, set_os (snd (os_Remove q o3)) (s\<lparr>fs_disk := Some c2\<rparr>))
            | None \<Rightarrow>
                (let info = (infoFromHeadValue (path_Base p) h)\<lparr>fi_size := n\<rparr>; s3 = set_os o3 (s\<lparr>fs_disk := Some c2\<rparr>)
                 in if etag = ''''
                    then opened (newDiskReadFile f p info (set_os (snd (os_Remove q o3)) s3))
                    else opened (newDiskReadFile f p info
                           (with_disk (disk_insert (disk_lru E) (now E s3) k etag q n) s3))))"
proof (cases "fs_disk s")
  case None
  then show ?thesis using off assms by (simp add: diskFill_def disk_run_def)
next
  case (Some c)
  obtain e c1 o1 where en: "disk_ensure c (mos (fs_mach s)) = (e, c1, o1)"
    by (cases "disk_ensure c (mos (fs_mach s))") auto
  obtain q c2 where np: "disk_newPath ''c'' c1 = (q, c2)" by (cases "disk_newPath ''c'' c1")
  obtain x o2 where cr: "os_CreateExcl q o1 = (x, o2)" by (cases "os_CreateExcl q o1")
  show ?thesis
  proof (cases e)
    case e: (Some e1)
    show ?thesis by (rule none [OF Some en [unfolded e]]) (use assms Some en e in \<open>simp_all add: diskFill_def disk_run_def\<close>)
  next
    case e: None
    note st = diskFill_def disk_run_def Some en e np cr
    show ?thesis
    proof (cases x)
      case (Inl e1)
      show ?thesis
        by (rule nofile [OF Some en [unfolded e] np cr [unfolded Inl]])
           (use assms Inl in \<open>simp_all add: st set_os_def\<close>)
    next
      case (Inr f)
      obtain n err o3 where cp: "copyStream f 0 bd o2 = ((n, err), o3)" by (metis prod.exhaust)
      show ?thesis
        by (rule filled [OF Some en [unfolded e] np cr [unfolded Inr] cp])
           (use assms Inr cp in \<open>cases err; cases \<open>etag = ''''\<close>; simp add: st set_os_def Let_def now_def\<close>)
    qed
  qed
qed

context s3fs
begin

lemma handle_calm: "ok s \<Longrightarrow> handle_only s s' \<Longrightarrow> still s s'"
  using handle_only_frame [of s s'] by (simp add: calm_def)

text \<open>The new cache file with the stream in it, before it is entered or removed.\<close>

lemma filled_file:
  assumes ok: "ok s" and c: "fs_disk s = Some c" "disk_ensure c (mos (fs_mach s)) = (None, c1, o1)"
    and np: "disk_newPath ''c'' c1 = (q, c2)" and cr: "os_CreateExcl q o1 = (Inr f, o2)"
    and cp: "copyStream f 0 bd o2 = ((n, err), o3)"
  defines "s3 \<equiv> set_os o3 (s\<lparr>fs_disk := Some c2\<rparr>)"
  shows "ok s3" and "kept s s3" and "cache_path c2 q" and "dirents o3 q = Some f"
    and "next_ino (mos (fs_mach s)) = f"
    and "err = None \<Longrightarrow> inodes o3 f = concat (chunks bd) \<and> n = int (length (concat (chunks bd))) \<and> body_end bd = EOF"
proof -
  have inv: "disk_inv dview content c (mos (fs_mach s))" using ok c(1) by (simp add: fs_ok_def)
  note k1 = disk_ensure_sub [OF disk_inv_lru [OF inv] c(2)]
  note inv1 = disk_sub_inv [OF inv k1]
  note cv = disk.create_inv [OF inv1 np _ cr] and fr = copyStream_frame [OF cp]
  have "disk_inv dview content c2 o3"
    using private_write [OF cv(1,2), of o3] fr by simp
  then show "ok s3" using ok by (simp add: s3_def fs_ok_def set_os_def)
  show nx: "next_ino (mos (fs_mach s)) = f" using cv(5) k1 by (simp add: disk_sub_def shrinks_def)
  have "disk_frame c1 o1 c2 o2"
    using cv(5,6,9-11) newPath_frame [OF np, of o1] by (auto simp: disk_frame_def)
  then have "disk_frame c (mos (fs_mach s)) c2 o2" by (rule disk_frame_trans [OF disk_sub_frame [OF k1]])
  moreover have "private_ino dview c (mos (fs_mach s)) i \<Longrightarrow> private_ino dview c2 o2 i" for i
    using cv(7) disk_sub_private [OF _ k1] by simp
  ultimately have "kept s (set_os o2 (s\<lparr>fs_disk := Some c2\<rparr>))" using c(1) by (simp add: keeps_def)
  then show "kept s s3" unfolding s3_def by (rule write_keeps [where f = f]) (use fr nx in simp_all)
  show "cache_path c2 q" "dirents o3 q = Some f" using cv(3,8) fr by simp_all
  show "err = None \<Longrightarrow> inodes o3 f = concat (chunks bd) \<and> n = int (length (concat (chunks bd))) \<and> body_end bd = EOF"
    using copyStream_ok [of f 0 bd o2 n o3] cp cv(4) by simp
qed

lemma insert_filled:
  fixes t :: instant and k :: string
  assumes ok: "ok s3" "kept s s3" and c2: "fs_disk s3 = Some c2" "cache_path c2 q" "dirents (mos (fs_mach s3)) q = Some f"
    and new: "fs_disk s \<noteq> None \<Longrightarrow> next_ino (mos (fs_mach s)) \<le> f"
    and d: "inodes (mos (fs_mach s3)) f = content etag" "etag \<noteq> ''''" "0 \<le> n"
  defines "s' \<equiv> with_disk (disk_insert (disk_lru E) t k etag q n) s3"
  shows "ok s'" and "kept s s'" and "inodes (mos (fs_mach s')) = inodes (mos (fs_mach s3))"
proof -
  obtain c' o' where ins: "disk_insert (disk_lru E) t k etag q n c2 (mos (fs_mach s3)) = (c', o')"
    by (cases "disk_insert (disk_lru E) t k etag q n c2 (mos (fs_mach s3))")
  have s': "s' = set_os o' (s3\<lparr>fs_disk := Some c'\<rparr>)" using c2(1) ins by (simp add: s'_def with_disk_def)
  have e: "entry_ok content c2 (mos (fs_mach s3)) \<lparr>dk_etag = etag, dk_size = n, dk_path = q\<rparr>"
    using c2 d by (simp add: entry_ok_def)
  have inv: "disk_inv dview content c2 (mos (fs_mach s3))" using ok(1) c2(1) by (simp add: fs_ok_def)
  note iv = disk.insert_inv [OF inv e ins]
  show "ok s'" using ok(1) iv(1) by (simp add: s' fs_ok_def set_os_def)
  have "disk_frame c2 (mos (fs_mach s3)) c' o'" by (rule insert_frame [OF ins])
  then have "disk_frame c (mos (fs_mach s)) c' o'"
    if "disk_frame c (mos (fs_mach s)) c2 (mos (fs_mach s3))" for c
    using that disk_frame_trans by blast
  moreover have "private_ino dview c' o' i"
    if "i < next_ino (mos (fs_mach s))" "private_ino dview c2 (mos (fs_mach s3)) i" "fs_disk s \<noteq> None" for i
    using iv(2) [OF that(2)] c2(3) new that by auto
  ultimately show "kept s s'" using ok(2) c2(1) by (fastforce simp: keeps_def s')
  obtain ev where "o' = removeFiles ev (mos (fs_mach s3))"
    using ins by (auto simp: disk_insert_def split: prod.splits)
  then show "inodes (mos (fs_mach s')) = inodes (mos (fs_mach s3))"
    using shrinks_removeFiles [of "mos (fs_mach s3)" ev] by (simp add: s' shrinks_def)
qed

lemma diskFill_spec:
  assumes ok: "ok s" and d: "delivers bd d" "int64 (int (length d))" "etag \<noteq> '''' \<Longrightarrow> content etag = d"
    and h: "ContentLength h = Some (int (length d))" and op: "diskFill E k etag h p bd s = (r, s')"
  shows "still s s' \<and> (\<forall>f. r = Inr (Some f) \<longrightarrow> serves_open objs p h d f s')"
  using op
proof (cases rule: diskFill_cases)
  case off
  then show ?thesis using calm_refl [OF ok] by simp
next
  case (none c c1 o1 e)
  have run: "disk_run (Some OsError) disk_ensure s = (Some e, s')" using none by (simp add: disk_run_def)
  have "ok s'" by (rule disk_run_ok [OF ok run]) (use disk_sub_inv disk_ensure_sub disk_inv_lru in blast)
  then show ?thesis using disk_run_frame [OF run] ensure_keeps [OF ok_disk [OF ok] run] none by (simp add: calm_def)
next
  case (nofile c c1 c2 o1 o2 q e)
  have inv: "disk_inv dview content c (mos (fs_mach s))" using ok nofile(1) by (simp add: fs_ok_def)
  note k1 = disk_ensure_sub [OF disk_inv_lru [OF inv] nofile(2)]
  note lru1 = disk_inv_lru [OF disk_sub_inv [OF inv k1]]
  note k2 = newPath_sub [OF lru1 nofile(3)]
  have lru2: "lru_inv dview (dc_idx c2)" using k2 by (simp add: disk_sub_def)
  have k3: "disk_sub dview c (mos (fs_mach s)) c2 o2"
    by (rule disk_sub_trans [OF k1 disk_sub_trans [OF k2 disk_sub_refl [OF lru2 os_CreateExcl_error [OF nofile(4)]]]])
  then show ?thesis
    using ok disk_sub_inv [OF inv k3] sub_keeps [OF k3] nofile
    by (auto simp: calm_def fs_ok_def keeps_def same_conf_def set_os_def)
next
  case (filled c c1 c2 o1 o2 o3 q f n err)
  define s3 where "s3 = set_os o3 (s\<lparr>fs_disk := Some c2\<rparr>)"
  note ff = filled_file [OF ok filled(1-5), folded s3_def]
  have s3: "fs_disk s3 = Some c2" "mos (fs_mach s3) = o3" "store s3 = store s" "same_conf s s3"
    using filled(1) by (simp_all add: s3_def set_os_def same_conf_def)
  have rm: "ok (set_os (snd (os_Remove q o3)) s3)" "kept s (set_os (snd (os_Remove q o3)) s3)"
    using shrink_ok [OF ff(1)] keeps_trans [OF ff(2) shrink_keeps] shrinks_Remove s3(2) by metis+
  show ?thesis
  proof (cases err)
    case (Some e)
    then have "r = Inl e" "s' = set_os (snd (os_Remove q o3)) s3" using filled(6) by (simp_all add: s3_def set_os_def)
    then show ?thesis using rm s3 same_conf_trans [OF s3(4)] by (simp add: calm_def)
  next
    case None
    have in3: "inodes o3 f = d" "n = int (length d)" using ff(6) [OF None] d(1) by (auto simp: delivers_def)
    define s4 where "s4 = (if etag = '''' then set_os (snd (os_Remove q o3)) s3
      else with_disk (disk_insert (disk_lru E) (now E s3) k etag q n) s3)"
    have s4: "ok s4 \<and> kept s s4 \<and> inodes (mos (fs_mach s4)) = inodes o3"
    proof (cases "etag = ''''")
      case True
      then show ?thesis using rm shrinks_Remove [of o3 q] by (simp add: s4_def shrinks_def)
    next
      case False
      then show ?thesis
        using insert_filled [OF ff(1,2) s3(1) ff(3), of f etag n] ff(4,5) s3(2) in3 d(3)
        by (simp add: s4_def)
    qed
    have w4: "store s4 = store s" "same_conf s s4"
      using s3(3) same_conf_trans [OF s3(4)] by (auto simp: s4_def)
    have "(r, s') = opened (newDiskReadFile f p (infoFromHeadValue (path_Base p) h) s4)"
      using filled(6) None in3(2) info_size_same [OF h] by (simp add: s4_def s3_def Let_def set_os_def)
    then obtain f1 where f1: "ro_new p (infoFromHeadValue (path_Base p) h) (FileBackend f) s4 = (f1, s')"
        "r = Inr (Some f1)"
      by (cases "ro_new p (infoFromHeadValue (path_Base p) h) (FileBackend f) s4")
         (auto simp: opened_def newDiskReadFile_def)
    have "serves_open objs p h d f1 s'"
      by (rule ro_new_serves [OF f1(1) _ h]) (use d(2) in3(1) s4 in simp)
    moreover have "still s s4" using s4 w4 by (simp add: calm_def)
    ultimately show ?thesis using handle_calm [OF _ ro_new_state [OF f1(1)]] f1(2) calm_trans s4 by blast
  qed
qed

lemma content_tag:
  "head_agrees content ob h \<Longrightarrow> ToString (ETag h) \<noteq> '''' \<Longrightarrow> content (ToString (ETag h)) = odata ob"
  by (simp add: head_agrees_def)

lemma diskFetch_spec:
  assumes ok: "ok s" and ob: "store s k = Some ob" "head_agrees content ob h" "int64 (int (length (odata ob)))"
    and op: "diskFetch E k h p s = (r, s')"
  shows "still s s' \<and> (\<forall>f. r = Inr (Some f) \<longrightarrow> serves_open objs p h (odata ob) f s')"
proof -
  obtain e s1 where en: "disk_run (Some OsError) disk_ensure s = (e, s1)"
    by (cases "disk_run (Some OsError) disk_ensure s")
  have ok1: "ok s1" by (rule disk_run_ok [OF ok en]) (use disk_sub_inv disk_ensure_sub disk_inv_lru in blast)
  have c1: "still s s1"
    using ok1 disk_run_frame [OF en] ensure_keeps [OF ok_disk [OF ok] en] by (simp add: calm_def)
  show ?thesis
  proof (cases e)
    case (Some x)
    then show ?thesis using op en c1 by (auto simp: diskFetch_def)
  next
    case None
    obtain y w where rq: "GetObject (client E) (fs_bucket s1) k None (fs_world s1) = (y, w)"
      by (cases "GetObject (client E) (fs_bucket s1) k None (fs_world s1)")
    define s2 where "s2 = s1\<lparr>fs_world := w\<rparr>"
    have c2: "still s s2"
      unfolding s2_def using world_calm [OF ok1 GetObject_objs [OF rq]] calm_trans [OF c1] by blast
    show ?thesis
    proof (cases y)
      case (Inl err)
      then show ?thesis using op en None rq c2 by (auto simp: diskFetch_def request_def s2_def)
    next
      case (Inr g)
      let ?etag = "if ToString (ETag g) = '''' then ToString (ETag h) else ToString (ETag g)"
      obtain o1 where "objs (fs_world s1) k = Some o1" "head_agrees content o1 g" "delivers (Body g) (odata o1)"
        using GetObject_ok [OF rq [unfolded Inr]] by blast
      then have g: "head_agrees content ob g" "delivers (Body g) (odata ob)"
        using ob(1) calmD(2) [OF c1] by simp_all
      have tag: "?etag \<noteq> '''' \<Longrightarrow> content ?etag = odata ob"
        using content_tag [OF ob(2)] g(1) by (auto simp: head_agrees_def split: if_splits)
      have len: "ContentLength h = Some (int (length (odata ob)))" using ob(2) by (simp add: head_agrees_def)
      have "diskFill E k ?etag h p (Body g) s2 = (r, s')"
        using op en None rq Inr by (simp add: diskFetch_def request_def s2_def)
      from diskFill_spec [OF calmD(1) [OF c2] g(2) ob(3) tag len this] show ?thesis
        using calm_trans [OF c2] by blast
    qed
  qed
qed

lemma mem_open_spec:
  assumes "ok s" "newMemReadFile p (infoFromHeadValue (path_Base p) h) d s = (f, s')"
    "ContentLength h = Some (int (length d))" "int64 (int (length d))"
  shows "still s s' \<and> serves_open objs p h d f s'"
proof -
  have n: "ro_new p (infoFromHeadValue (path_Base p) h) (BytesBackend d) s = (f, s')"
    using assms(2) info_size_same [OF assms(3)] by (simp add: newMemReadFile_def)
  show ?thesis
    using handle_calm [OF assms(1) ro_new_state [OF n]] ro_new_serves [OF n _ assms(3)] assms(4) by simp
qed

lemma cache_data_calm:
  assumes "ok s" "store s k = Some ob" "head_agrees content ob h"
  shows "still s (with_mem (mem_store (mem_lru E) t k True (Some h) (Some (odata ob))) s)"
  using cache_head [OF assms, of "Some (odata ob)" t] by (simp add: calm_def)

text \<open>An open served by the local tiers, or streamed, stands for the object's bytes.\<close>

lemma cachedOpen_spec:
  assumes ok: "ok s" and ob: "store s (key (fs_prefix s) p) = Some ob" "head_agrees content ob h"
      "int64 (int (length (odata ob)))"
    and op: "cachedOpen E p h s = (r, s')"
  shows "still s s' \<and> (\<forall>f. r = Inr (Some f) \<longrightarrow> serves_open objs p h (odata ob) f s')"
proof -
  let ?k = "key (fs_prefix s) p" and ?size = "ToInt64 (ContentLength h)"
  have len: "ContentLength h = Some (int (length (odata ob)))" using ob(2) by (simp add: head_agrees_def)
  obtain e s1 where f: "mem_find E ?k s = (e, s1)" by (cases "mem_find E ?k s")
  note c1 = mem_find_calm [OF ok f]
  obtain y s2 where g: "S3FS_getAll E ?k s1 = (y, s2)" by (cases "S3FS_getAll E ?k s1")
  note c2 = calm_trans [OF c1 getAll_calm [OF calmD(1) [OF c1] g]]
  obtain z s3 where dr: "disk_run None (disk_open (disk_lru E) (now E s) ?k (ToString (ETag h))) s = (z, s3)"
    by (cases "disk_run None (disk_open (disk_lru E) (now E s) ?k (ToString (ETag h))) s")
  consider (mem) "fits_mem ?size s" | (disk) "\<not> fits_mem ?size s" "fits_disk ?size s"
    | (neither) "\<not> fits_mem ?size s" "\<not> fits_disk ?size s" by blast
  then show ?thesis
  proof cases
    case mem
    show ?thesis
    proof (cases "if negative e then None else Option.bind e me_data")
      case (Some d)
      then obtain x where x: "e = Some x" "me_data x = Some d" by (cases e) (auto split: if_splits)
      then have d: "d = odata ob" using mem_find_ok(4) [OF ok f x(1)] ob(1) by (cases "me_head x") (auto simp: mem_coh_def)
      obtain f1 s4 where n: "newMemReadFile p (infoFromHeadValue (path_Base p) h) d s1 = (f1, s4)"
        by (cases "newMemReadFile p (infoFromHeadValue (path_Base p) h) d s1")
      have "r = Inr (Some f1)" "s' = s4" using op mem f Some n by (simp_all add: cachedOpen_def Let_def opened_def)
      then show ?thesis
        using mem_open_spec [OF calmD(1) [OF c1] n] d len ob(3) calm_trans [OF c1] by auto
    next
      case None
      show ?thesis
      proof (cases y)
        case (Inl er)
        then show ?thesis using op mem f None g c2 by (auto simp: cachedOpen_def Let_def)
      next
        case (Inr d)
        have d: "d = odata ob" using getAll_spec(6) [OF calmD(1) [OF c1] g Inr] ob(1) calmD(2) [OF c1] by auto
        define s4 where "s4 = with_mem (mem_store (mem_lru E) (now E s2) ?k True (Some h) (Some d)) s2"
        have c4: "still s s4"
          unfolding s4_def d using calm_trans [OF c2 cache_data_calm [OF calmD(1) [OF c2] _ ob(2)]] ob(1)
            calmD(2) [OF c2] by simp
        obtain f1 s5 where n: "newMemReadFile p (infoFromHeadValue (path_Base p) h) d s4 = (f1, s5)"
          by (cases "newMemReadFile p (infoFromHeadValue (path_Base p) h) d s4")
        have "r = Inr (Some f1)" "s' = s5"
          using op mem f None g Inr n by (simp_all add: cachedOpen_def Let_def opened_def s4_def)
        then show ?thesis
          using mem_open_spec [OF calmD(1) [OF c4] n] d len ob(3) calm_trans [OF c4] by auto
      qed
    qed
  next
    case disk
    have ok3: "ok s3"
      by (rule disk_run_ok [OF ok dr]) (use disk_sub_inv disk.open_sub disk_inv_lru in blast)
    have c3: "still s s3"
      using ok3 disk_run_frame [OF dr] open_keeps [OF ok_disk [OF ok] dr] by (simp add: calm_def)
    show ?thesis
    proof (cases z)
      case None
      then have "diskFetch E ?k h p s3 = (r, s')" using op disk dr by (simp add: cachedOpen_def Let_def)
      from diskFetch_spec [OF ok3 _ ob(2,3) this] show ?thesis
        using ob(1) calmD(2) [OF c3] calm_trans [OF c3] by auto
    next
      case (Some i)
      obtain c c1 o1 where c: "fs_disk s = Some c"
          "disk_open (disk_lru E) (now E s) ?k (ToString (ETag h)) c (mos (fs_mach s)) = (Some i, c1, o1)"
          "s3 = set_os o1 (s\<lparr>fs_disk := Some c1\<rparr>)"
        using dr Some by (auto simp: disk_run_def split: option.splits prod.splits)
      have "disk_inv dview content c (mos (fs_mach s))" using ok c(1) by (simp add: fs_ok_def)
      from disk.open_hit [OF this c(2)] have i: "inodes (mos (fs_mach s3)) i = odata ob"
        using content_tag [OF ob(2)] c(3) by simp
      obtain f1 s4 where n: "ro_new p (infoFromHeadValue (path_Base p) h) (FileBackend i) s3 = (f1, s4)"
        by (cases "ro_new p (infoFromHeadValue (path_Base p) h) (FileBackend i) s3")
      have "r = Inr (Some f1)" "s' = s4"
        using op disk dr Some n by (simp_all add: cachedOpen_def Let_def opened_def newDiskReadFile_def)
      then show ?thesis
        using ro_new_serves [OF n _ len] i ob(3) handle_calm [OF ok3 ro_new_state [OF n]] calm_trans [OF c3] by auto
    qed
  next
    case neither
    then show ?thesis using op calm_refl [OF ok] by (auto simp: cachedOpen_def Let_def)
  qed
qed

lemma stream_open_spec:
  assumes "ok s" "newReadFile p h bd s = (f, s')" "map_option odata (store s (key (fs_prefix s) p)) = Some d"
    "ContentLength h = Some (int (length d))" "int64 (int (length d))"
    "\<And>x. bd = Some x \<Longrightarrow> prefix (concat (chunks x)) d"
  shows "still s s' \<and> serves_open objs p h d f s'"
proof -
  let ?b = "S3Backend \<lparr>sb_key = key (fs_prefix s) p, sb_size = int (length d), sb_body = bd, sb_bodyPos = 0\<rparr>"
  have n: "ro_new p (infoFromHeadValue (path_Base p) h) ?b s = (f, s')"
    using assms(2,4) by (simp add: newReadFile_def Let_def infoFromHeadValue_size)
  have "back_serves objs ?b s d" using assms(3,5,6) by simp
  then show ?thesis
    using handle_calm [OF assms(1) ro_new_state [OF n]] ro_new_serves [OF n _ assms(4)] by blast
qed

lemma openFromGet_spec:
  assumes ok: "ok s" and ob: "store s (key (fs_prefix s) p) = Some ob" "head_agrees content ob h"
      "int64 (int (length (odata ob)))" "delivers (Body g) (odata ob)"
    and op: "openFromGet E p h g s = (r, s')"
  shows "still s s' \<and> (\<forall>f. r = Inr f \<longrightarrow> serves_open objs p h (odata ob) f s')"
proof -
  let ?k = "key (fs_prefix s) p" and ?size = "ToInt64 (ContentLength h)"
  have len: "ContentLength h = Some (int (length (odata ob)))" using ob(2) by (simp add: head_agrees_def)
  have stream: "still t t' \<and> serves_open objs p h (odata ob) f t'"
    if "still s t" "newReadFile p h (Some (Body g)) t = (f, t')" for t f t'
    using stream_open_spec [OF calmD(1) [OF that(1)] that(2) _ len ob(3)] ob(1,4) calmD(2,5) [OF that(1)]
    by (simp add: delivers_def)
  consider (mem) "fits_mem ?size s" | (disk) "\<not> fits_mem ?size s" "fits_disk ?size s"
    | (neither) "\<not> fits_mem ?size s" "\<not> fits_disk ?size s" by blast
  then show ?thesis
  proof cases
    case mem
    show ?thesis
    proof (cases "ReadAll (Body g)")
      case (Inl er)
      then show ?thesis using op mem calm_refl [OF ok] by (auto simp: openFromGet_def Let_def)
    next
      case (Inr d)
      have d: "d = odata ob" using Inr ob(4) by (auto simp: ReadAll_def delivers_def split: if_splits)
      define s1 where "s1 = with_mem (mem_store (mem_lru E) (now E s) ?k True (Some h) (Some d)) s"
      have c1: "still s s1" unfolding s1_def d by (rule cache_data_calm [OF ok ob(1,2)])
      obtain f1 s2 where n: "newMemReadFile p (infoFromHeadValue (path_Base p) h) d s1 = (f1, s2)"
        by (cases "newMemReadFile p (infoFromHeadValue (path_Base p) h) d s1")
      have "r = Inr f1" "s' = s2" using op mem Inr n by (simp_all add: openFromGet_def Let_def s1_def)
      then show ?thesis
        using mem_open_spec [OF calmD(1) [OF c1] n] d len ob(3) calm_trans [OF c1] by auto
    qed
  next
    case disk
    obtain y s1 where df: "diskFill E ?k (ToString (ETag h)) h p (Body g) s = (y, s1)"
      by (cases "diskFill E ?k (ToString (ETag h)) h p (Body g) s")
    note sp = diskFill_spec [OF ok ob(4,3) content_tag [OF ob(2)] len df]
    obtain f1 s2 where n: "newReadFile p h (Some (Body g)) s1 = (f1, s2)"
      by (cases "newReadFile p h (Some (Body g)) s1")
    consider e where "y = Inl e" | f where "y = Inr (Some f)" | "y = Inr None" by (metis option.exhaust sum.exhaust)
    then show ?thesis
    proof cases
      case 3
      then have "r = Inr f1" "s' = s2" using op disk df n by (simp_all add: openFromGet_def Let_def)
      then show ?thesis using stream [OF _ n] sp calm_trans by blast
    qed (use op disk df sp in \<open>auto simp: openFromGet_def Let_def\<close>)
  next
    case neither
    obtain f1 s2 where n: "newReadFile p h (Some (Body g)) s = (f1, s2)" by (cases "newReadFile p h (Some (Body g)) s")
    have "r = Inr f1" "s' = s2" using op neither n by (simp_all add: openFromGet_def Let_def)
    then show ?thesis using stream [OF calm_refl [OF ok] n] by simp
  qed
qed

text \<open>When lookups never fail, \<^verbatim>\<open>resolve\<close> fails exactly when there are too many links.\<close>

lemma resolveLoop_total:
  assumes "ok s" "heads_answer (client E)" "resolveLoop E opn p hops s = ((p', h, hops', err), s')"
    "hops \<le> maxSymlinkDepth" "err \<noteq> None"
  shows "follow (store s) (fs_prefix s) (maxSymlinkDepth - hops) p = None \<and>
         err = Some (PathError opn p' ErrTooManySymlinks)"
  using assms(1,3-)
proof (induction "maxSymlinkDepth - hops" arbitrary: p hops s rule: less_induct)
  case less
  note eq = less.prems(2) [unfolded resolveLoop.simps [of E opn p]]
  obtain r s1 where hd: "S3FS_head E (key (fs_prefix s) p) s = (r, s1)"
    by (cases "S3FS_head E (key (fs_prefix s) p) s")
  note h = head_spec [OF less.prems(1) hd ok_key [OF less.prems(1)]]
  have "isNotFound e" if "r = Inl e" for e
  proof -
    have "e = NotFound \<or> (\<exists>b k w w'. HeadObject (client E) b k w = (Inl e, w'))"
      using hd that unfolding head_eq
      by (auto simp: request_def split: prod.splits if_splits option.splits)
    then show ?thesis
      by (elim disjE exE) (simp, rule assms(2) [unfolded heads_answer_def, rule_format])
  qed
  then obtain hh where hh: "p \<noteq> ''/''" "r = Inr hh" using eq hd less.prems(4) by (cases r) (auto split: if_splits)
  obtain ob where ob: "store s (key (fs_prefix s) p) = Some ob" "head_agrees content ob hh"
    using h(5) hh by (auto simp: answers_def)
  then obtain target where t: "link_of ob = Some target" "symlinkTarget (Some hh) = Some target"
    using symlinkTarget_link [OF ob(2)] eq hh hd less.prems(4) by (cases "link_of ob") auto
  show ?case
  proof (cases "Suc hops > maxSymlinkDepth")
    case True
    then have "hops = maxSymlinkDepth" using less.prems(3) by simp
    then show ?thesis using eq hh hd t ob by (auto simp: follow.simps)
  next
    case False
    then have n: "maxSymlinkDepth - hops = Suc (maxSymlinkDepth - Suc hops)" by simp
    have "resolveLoop E opn (nextHop p target) (Suc hops) s1 = ((p', h, hops', err), s')"
      using eq hh hd t False by simp
    from less.hyps [OF _ h(1) this _ less.prems(4)] False show ?thesis
      using h(2,3) follow_hop [of p "store s", OF hh(1) ob(1) t(1)] n by (simp add: same_conf_def)
  qed
qed

end

section \<open>Properties\<close>

text \<open>
  C5: uploads, deletions and server-side copies implement the map of objects. A successful
  \<^verbatim>\<open>put\<close>, \<^verbatim>\<open>delete\<close> or \<^verbatim>\<open>copy\<close> changes the bucket at its own key and nowhere else, as its
  name says, whatever characters the keys have; and both cache tiers stay coherent with the
  changed bucket, so later reads through them see the write.
\<close>

theorem mutations_refine_object_map:
  assumes "s3fs E objs content rest pages mview dview" "fs_ok objs content mview dview s"
  shows "(S3FS_put E k data meta s = (None, s1) \<longrightarrow>
            fs_ok objs content mview dview s1 \<and>
            (\<exists>ob. objs (fs_world s1) = (objs (fs_world s))(k \<mapsto> ob) \<and>
                  odata ob = (case data of None \<Rightarrow> [] | Some d \<Rightarrow> d) \<and> meta_sim (ometa ob) meta)) \<and>
         (S3FS_delete E k s = (None, s2) \<longrightarrow>
            fs_ok objs content mview dview s2 \<and> objs (fs_world s2) = (objs (fs_world s))(k := None)) \<and>
         (S3FS_copy E k k' s = (None, s3) \<longrightarrow>
            fs_ok objs content mview dview s3 \<and>
            (\<exists>ob ob'. objs (fs_world s) k = Some ob \<and> objs (fs_world s3) = (objs (fs_world s))(k' \<mapsto> ob') \<and>
                      odata ob' = odata ob \<and> ometa ob' = ometa ob))"
  using s3fs.put_ok(1,3) [OF assms] s3fs.delete_ok(1,3) [OF assms] s3fs.copy_ok(1,3) [OF assms] by blast

text \<open>A store with an object at \<open>d/f\<close> is copied from: the new object has the old one's bytes.\<close>

theorem mutations_refine_object_map_witness:
  "\<exists>s' ob'. S3FS_copy fake_env ''d/f'' ''e/100%'' demo_fs = (None, s') \<and>
     fake_objs (fs_world s') ''e/100%'' = Some ob' \<and> odata ob' = [49, 50, 51]"
proof -
  have "fst (S3FS_copy fake_env ''d/f'' ''e/100%'' demo_fs) = None" by code_simp
  then obtain s' where s': "S3FS_copy fake_env ''d/f'' ''e/100%'' demo_fs = (None, s')" by (metis prod.collapse)
  have "\<exists>ob ob'. fake_objs (fs_world demo_fs) ''d/f'' = Some ob \<and>
      fake_objs (fs_world s') = (fake_objs (fs_world demo_fs))(''e/100%'' \<mapsto> ob') \<and>
      odata ob' = odata ob \<and> ometa ob' = ometa ob"
    using mutations_refine_object_map [OF fake_fs.s3fs_axioms demo_fs_ok,
        of "''d/f''" None "[]" demo_fs demo_fs "''e/100%''" s'] s' by blast
  then show ?thesis using s' by (auto simp: demo_fs_def)
qed



text \<open>
  C11: symlink resolution refines following links on the map of objects. When \<^verbatim>\<open>resolve\<close>
  returns without an error, the path, the metadata and the number of hops are those obtained by
  following the links stored in the bucket, cached or not; and as long as lookups do not fail,
  it returns an error only for more links than \<^verbatim>\<open>maxSymlinkDepth\<close>, cycles included.
\<close>

theorem resolve_follows_links:
  assumes "s3fs E objs content rest pages mview dview" "fs_ok objs content mview dview s"
    "resolve E opn p s = ((p', h, hops, err), s')"
  shows "objs (fs_world s') = objs (fs_world s) \<and>
         (err = None \<longrightarrow>
            (\<exists>ob. follow (objs (fs_world s)) (fs_prefix s) maxSymlinkDepth (cleanPath p) = Some (p', ob, hops) \<and>
                  heads_agree content ob h)) \<and>
         (heads_answer (client E) \<and> err \<noteq> None \<longrightarrow>
            follow (objs (fs_world s)) (fs_prefix s) maxSymlinkDepth (cleanPath p) = None \<and>
            err = Some (PathError opn p' ErrTooManySymlinks))"
  using s3fs.resolveLoop_spec [OF assms(1,2) assms(3) [unfolded resolve_def]]
    s3fs.resolveLoop_total [OF assms(1,2) _ assms(3) [unfolded resolve_def]] by auto

definition link_obj :: "string \<Rightarrow> obj" where
  "link_obj t = \<lparr>odata = [], ometa = [(symlinkMetaKey, QueryEscape t)], oetag = tag_of []\<rparr>"

definition demo_links :: "(fake, (string \<times> memEntry lruEntry) list, (string \<times> diskEntry lruEntry) list) S3FS" where
  "demo_links = demo_fs\<lparr>fs_world := \<lparr>bucket_objs =
     [(''d/f'', \<lparr>odata = [49, 50, 51], ometa = [], oetag = tag_of [49, 50, 51]\<rparr>),
      (''l1'', link_obj ''d/l2''), (''d/l2'', link_obj ''f'')], fake_clock = 9\<rparr>\<rparr>"

lemma demo_links_ok: "fs_ok fake_objs tag_content (\<lambda>c. c) (\<lambda>c. c) demo_links"
  using demo_fs_ok by (simp add: demo_links_def fs_ok_def demo_fs_def)

theorem resolve_follows_links_witness:
  "\<exists>h s'. resolve fake_env ''open'' ''/l1'' demo_links = ((''/d/f'', h, 2, None), s') \<and>
     (\<exists>ob. follow (fake_objs (fs_world demo_links)) '''' maxSymlinkDepth ''/l1'' = Some (''/d/f'', ob, 2))"
proof -
  obtain p' h hops err s' where r: "resolve fake_env ''open'' ''/l1'' demo_links = ((p', h, hops, err), s')"
    by (metis prod.exhaust)
  have "(case fst (resolve fake_env ''open'' ''/l1'' demo_links) of (p', h, hops, err) \<Rightarrow> p' = ''/d/f'' \<and> hops = 2 \<and> err = None)"
    by code_simp
  moreover have "cleanPath ''/l1'' = ''/l1''" by code_simp
  moreover have "fs_prefix demo_links = ''''" by (simp add: demo_links_def demo_fs_def)
  ultimately show ?thesis
    using resolve_follows_links [OF fake_fs.s3fs_axioms demo_links_ok r] r by auto
qed

end
