(* ===== verification/FileWrite.thy ===== *)
theory FileWrite
  imports Opens
begin

text \<open>
  Files opened for writing, \<^verbatim>\<open>file_write.go\<close>: \<^verbatim>\<open>writeFile\<close>, whose contents are buffered and
  uploaded on \<^verbatim>\<open>Sync\<close> and \<^verbatim>\<open>Close\<close>, and \<^verbatim>\<open>sharedReadFile\<close>, which reads the buffer of a
  live writer. Writers are shared by pointer (from \<^verbatim>\<open>openWrites\<close> and from shared readers), so
  the state of the filesystem is extended by a store of writers under their handle numbers.
\<close>

unbundle bit_operations_syntax

section \<open>State\<close>

record writeFile =
  wf_name :: string
  wf_flag :: int
  wf_perm :: FileMode
  wf_buf :: writeBuf
  wf_pos :: int
  wf_dirty :: bool
  wf_closed :: bool
  wf_shared :: int
  wf_modTime :: instant
  wf_spillETag :: string

record ('w, 'c, 'd) wfs = "('w, 'c, 'd) S3FS" +
  ws_files :: "handle \<Rightarrow> writeFile"
  ws_open :: "string \<rightharpoonup> handle"

definition set_wf :: "handle \<Rightarrow> writeFile \<Rightarrow> ('w, 'c, 'd, 'z) wfs_scheme \<Rightarrow> ('w, 'c, 'd, 'z) wfs_scheme" where
  "set_wf a f s = s\<lparr>ws_files := (ws_files s)(a := f)\<rparr>"

text \<open>The registry of open writers, \<^verbatim>\<open>openWrites\<close> of \<^verbatim>\<open>s3fs.go\<close>.\<close>

definition trackWrite :: "handle \<Rightarrow> ('w, 'c, 'd, 'z) wfs_scheme \<Rightarrow> ('w, 'c, 'd, 'z) wfs_scheme" where
  "trackWrite a s = s\<lparr>ws_open := (ws_open s)(wf_name (ws_files s a) \<mapsto> a)\<rparr>"

definition untrackWrite :: "handle \<Rightarrow> ('w, 'c, 'd, 'z) wfs_scheme \<Rightarrow> ('w, 'c, 'd, 'z) wfs_scheme" where
  "untrackWrite a s =
     (if ws_open s (wf_name (ws_files s a)) = Some a
      then s\<lparr>ws_open := (ws_open s)(wf_name (ws_files s a) := None)\<rparr> else s)"

definition lookupWrite :: "string \<Rightarrow> ('w, 'c, 'd, 'z) wfs_scheme \<Rightarrow> handle option" where
  "lookupWrite p s = ws_open s p"

section \<open>The writer\<close>

text \<open>
  \<^verbatim>\<open>maybeSpillLocked\<close> moves a memory buffer into a spill file; if the local disk fails, the
  buffer stays in memory.
\<close>

definition spill_into ::
    "memBuf \<Rightarrow> fileBuf \<Rightarrow> writeFile \<Rightarrow> ('w, 'c, 'd, 'z) S3FS_scheme
       \<Rightarrow> writeFile \<times> ('w, 'c, 'd, 'z) S3FS_scheme" where
  "spill_into mb fb f s =
     (case (if mb_len mb > 0 then fileBuf_writeAt (mb_data mb) 0 fb (fs_mach s) else ((0, None), fb, fs_mach s)) of
        ((_, Some _), fb1, m) \<Rightarrow> (f, s\<lparr>fs_mach := fileBuf_destroy fb1 m\<rparr>)
      | ((_, None), fb1, m) \<Rightarrow> (f\<lparr>wf_buf := FileBuf fb1\<rparr>, s\<lparr>fs_mach := recycleData (mb_arr mb) m\<rparr>))"

definition maybeSpillLocked ::
    "int \<Rightarrow> writeFile \<Rightarrow> ('w, 'c, 'd, 'z) S3FS_scheme \<Rightarrow> writeFile \<times> ('w, 'c, 'd, 'z) S3FS_scheme" where
  "maybeSpillLocked newEnd f s =
     (if fs_disk s = None \<or> newEnd \<le> spillThreshold s then (f, s)
      else case wf_buf f of
        FileBuf _ \<Rightarrow> (f, s)
      | MemBuf mb \<Rightarrow>
          (case disk_run (Inl OsError) disk_newSpill s of
             (Inl _, s1) \<Rightarrow> (f, s1)
           | (Inr fb, s1) \<Rightarrow> spill_into mb fb f s1))"

definition newWriteFileBuf ::
    "('w, 'c, 'd) env \<Rightarrow> string \<Rightarrow> int \<Rightarrow> FileMode \<Rightarrow> writeBuf \<Rightarrow> bool \<Rightarrow> ('w, 'c, 'd, 'z) wfs_scheme
       \<Rightarrow> handle \<times> ('w, 'c, 'd, 'z) wfs_scheme" where
  "newWriteFileBuf E p flag perm buf dirty s =
     (let perm1 = (if perm = 0 then defaultFileMode else perm);
          f = \<lparr>wf_name = p, wf_flag = flag, wf_perm = Perm perm1, wf_buf = buf, wf_pos = 0, wf_dirty = dirty,
               wf_closed = False, wf_shared = 0, wf_modTime = now E s, wf_spillETag = ''''\<rparr>
      in case new_handle s of
           (a, s1) \<Rightarrow>
             (case maybeSpillLocked (buf_len buf) f s1 of
                (f1, s2) \<Rightarrow> (a, trackWrite a (set_wf a f1 s2))))"

definition newWriteFile ::
    "('w, 'c, 'd) env \<Rightarrow> string \<Rightarrow> int \<Rightarrow> FileMode \<Rightarrow> bytes option \<Rightarrow> bool \<Rightarrow> ('w, 'c, 'd, 'z) wfs_scheme
       \<Rightarrow> handle \<times> ('w, 'c, 'd, 'z) wfs_scheme" where
  "newWriteFile E p flag perm data dirty s =
     (case newMemBuf data (fs_mach s) of
        (b, m) \<Rightarrow> newWriteFileBuf E p flag perm (MemBuf b) dirty (s\<lparr>fs_mach := m\<rparr>))"

text \<open>\<^verbatim>\<open>reopenState\<close>: \<open>Inr None\<close> is \<^verbatim>\<open>ok=false\<close>.\<close>

definition reopenState ::
    "bool \<Rightarrow> writeFile \<Rightarrow> ('w, 'c, 'd, 'z) S3FS_scheme
       \<Rightarrow> (goerr + (FileMode \<times> bytes option) option) \<times> ('w, 'c, 'd, 'z) S3FS_scheme" where
  "reopenState withData f s =
     (if wf_closed f then (Inr None, s)
      else if withData then
        (case buf_snapshot (wf_buf f) (fs_mach s) of
           (Inl err, m) \<Rightarrow> (Inl err, s\<lparr>fs_mach := m\<rparr>)
         | (Inr data, m) \<Rightarrow> (Inr (Some (wf_perm f, data)), s\<lparr>fs_mach := m\<rparr>))
      else (Inr (Some (wf_perm f, None)), s))"

definition statLocked :: "writeFile \<Rightarrow> fileInfo" where
  "statLocked f =
     \<lparr>fi_name = path_Base (wf_name f), fi_size = buf_len (wf_buf f), fi_mode = wf_perm f, fi_modTime = wf_modTime f\<rparr>"

definition statIfOpen :: "writeFile \<Rightarrow> fileInfo option" where
  "statIfOpen f = (if wf_closed f then None else Some (statLocked f))"

definition writeFile_Stat :: "writeFile \<Rightarrow> fileInfo" where
  "writeFile_Stat f = statLocked f"

definition readable :: "writeFile \<Rightarrow> bool" where
  "readable f \<longleftrightarrow> wf_flag f AND (O_WRONLY OR O_RDWR) \<noteq> O_WRONLY"

text \<open>Reading a buffer; it stays what it is.\<close>

definition buf_read ::
    "nat \<Rightarrow> int \<Rightarrow> writeBuf \<Rightarrow> mach \<Rightarrow> read_result \<times> writeBuf \<times> mach" where
  "buf_read n off b m = (case buf_readAt n off b m of (r, m1) \<Rightarrow> (r, b, m1))"

definition writeFile_Read ::
    "nat \<Rightarrow> writeFile \<Rightarrow> ('w, 'c, 'd, 'z) S3FS_scheme
       \<Rightarrow> read_result \<times> writeFile \<times> ('w, 'c, 'd, 'z) S3FS_scheme" where
  "writeFile_Read n f s =
     (if wf_closed f then (([], Some (PathError ''read'' (wf_name f) ErrClosed)), f, s)
      else if \<not> readable f then (([], Some (PathError ''read'' (wf_name f) ErrPermission)), f, s)
      else case seq_read buf_read n (buf_len (wf_buf f)) (wf_pos f) (wf_buf f) (fs_mach s) of
        (r, pos, _, m) \<Rightarrow> (r, f\<lparr>wf_pos := pos\<rparr>, s\<lparr>fs_mach := m\<rparr>))"

definition readAtShared ::
    "nat \<Rightarrow> int \<Rightarrow> writeFile \<Rightarrow> ('w, 'c, 'd, 'z) S3FS_scheme
       \<Rightarrow> read_result \<times> ('w, 'c, 'd, 'z) S3FS_scheme" where
  "readAtShared n off f s =
     (if off \<ge> buf_len (wf_buf f) then (([], Some EOF), s)
      else case buf_readAt n off (wf_buf f) (fs_mach s) of (r, m) \<Rightarrow> (r, s\<lparr>fs_mach := m\<rparr>))"

definition writeFile_ReadAt ::
    "nat \<Rightarrow> int \<Rightarrow> writeFile \<Rightarrow> ('w, 'c, 'd, 'z) S3FS_scheme
       \<Rightarrow> read_result \<times> ('w, 'c, 'd, 'z) S3FS_scheme" where
  "writeFile_ReadAt n off f s =
     (if wf_closed f then (([], Some (PathError ''read'' (wf_name f) ErrClosed)), s)
      else if \<not> readable f then (([], Some (PathError ''readat'' (wf_name f) ErrPermission)), s)
      else if off < 0 then (([], Some (PathError ''readat'' (wf_name f) ErrInvalid)), s)
      else if off \<ge> buf_len (wf_buf f) then (([], Some EOF), s)
      else case buf_readAt n off (wf_buf f) (fs_mach s) of (r, m) \<Rightarrow> (r, s\<lparr>fs_mach := m\<rparr>))"

text \<open>\<^verbatim>\<open>writeAt\<close>: a run-time panic of the buffer passes through unwrapped.\<close>

definition writeFile_writeAt ::
    "('w, 'c, 'd) env \<Rightarrow> bytes \<Rightarrow> int \<Rightarrow> writeFile \<Rightarrow> ('w, 'c, 'd, 'z) S3FS_scheme
       \<Rightarrow> (nat \<times> goerr option) \<times> writeFile \<times> ('w, 'c, 'd, 'z) S3FS_scheme" where
  "writeFile_writeAt E p off f0 s0 =
     (case maybeSpillLocked (wrap64 (off + int (length p))) f0 s0 of
        (f, s) \<Rightarrow>
          (case buf_writeAt p off (wf_buf f) (fs_mach s) of
             ((n, Some err), b, m) \<Rightarrow>
               ((n, Some (if err = Panic then Panic else PathError ''write'' (wf_name f) err)),
                f\<lparr>wf_buf := b\<rparr>, s\<lparr>fs_mach := m\<rparr>)
           | ((n, None), b, m) \<Rightarrow>
               ((n, None), f\<lparr>wf_buf := b, wf_dirty := True, wf_modTime := now E s\<rparr>, s\<lparr>fs_mach := m\<rparr>)))"

definition writeFile_Write ::
    "('w, 'c, 'd) env \<Rightarrow> bytes \<Rightarrow> writeFile \<Rightarrow> ('w, 'c, 'd, 'z) S3FS_scheme
       \<Rightarrow> (nat \<times> goerr option) \<times> writeFile \<times> ('w, 'c, 'd, 'z) S3FS_scheme" where
  "writeFile_Write E p f0 s =
     (if wf_closed f0 then ((0, Some (PathError ''write'' (wf_name f0) ErrClosed)), f0, s)
      else let f = (if wf_flag f0 AND O_APPEND \<noteq> 0 then f0\<lparr>wf_pos := buf_len (wf_buf f0)\<rparr> else f0)
           in case writeFile_writeAt E p (wf_pos f) f s of
             ((n, err), f1, s1) \<Rightarrow> ((n, err), f1\<lparr>wf_pos := wrap64 (wf_pos f1 + int n)\<rparr>, s1))"

definition writeFile_WriteAt ::
    "('w, 'c, 'd) env \<Rightarrow> bytes \<Rightarrow> int \<Rightarrow> writeFile \<Rightarrow> ('w, 'c, 'd, 'z) S3FS_scheme
       \<Rightarrow> (nat \<times> goerr option) \<times> writeFile \<times> ('w, 'c, 'd, 'z) S3FS_scheme" where
  "writeFile_WriteAt E p off f s =
     (if wf_closed f then ((0, Some (PathError ''write'' (wf_name f) ErrClosed)), f, s)
      else if off < 0 then ((0, Some (PathError ''writeat'' (wf_name f) ErrInvalid)), f, s)
      else writeFile_writeAt E p off f s)"

definition writeFile_Seek :: "int \<Rightarrow> int \<Rightarrow> writeFile \<Rightarrow> (goerr + int) \<times> writeFile" where
  "writeFile_Seek offset whence f =
     (if wf_closed f then (Inl (PathError ''seek'' (wf_name f) ErrClosed), f)
      else case seekPos (wf_pos f) (buf_len (wf_buf f)) offset whence of
        Inl e \<Rightarrow> (Inl (PathError ''seek'' (wf_name f) e), f)
      | Inr a \<Rightarrow> (Inr a, f\<lparr>wf_pos := a\<rparr>))"

definition writeFile_Truncate ::
    "('w, 'c, 'd) env \<Rightarrow> int \<Rightarrow> writeFile \<Rightarrow> ('w, 'c, 'd, 'z) S3FS_scheme
       \<Rightarrow> goerr option \<times> writeFile \<times> ('w, 'c, 'd, 'z) S3FS_scheme" where
  "writeFile_Truncate E size0 f0 s0 =
     (if wf_closed f0 then (Some (PathError ''truncate'' (wf_name f0) ErrClosed), f0, s0)
      else if size0 < 0 then (Some (PathError ''truncate'' (wf_name f0) ErrInvalid), f0, s0)
      else case maybeSpillLocked size0 f0 s0 of
        (f, s) \<Rightarrow>
          (case buf_truncate size0 (wf_buf f) (fs_mach s) of
             (Some err, b, m) \<Rightarrow> (Some (PathError ''truncate'' (wf_name f) err), f\<lparr>wf_buf := b\<rparr>, s\<lparr>fs_mach := m\<rparr>)
           | (None, b, m) \<Rightarrow> (None, f\<lparr>wf_buf := b, wf_dirty := True, wf_modTime := now E s\<rparr>, s\<lparr>fs_mach := m\<rparr>)))"

definition writeFile_flush ::
    "('w, 'c, 'd) env \<Rightarrow> writeFile \<Rightarrow> ('w, 'c, 'd, 'z) S3FS_scheme
       \<Rightarrow> goerr option \<times> writeFile \<times> ('w, 'c, 'd, 'z) S3FS_scheme" where
  "writeFile_flush E f s =
     (if \<not> wf_dirty f then (None, f, s)
      else let meta = [(modeMetaKey, octal (wf_perm f))]; k = key (fs_prefix s) (wf_name f)
           in case wf_buf f of
             MemBuf b \<Rightarrow>
               (case S3FS_put E k (memBuf_bytes b) meta s of
                  (Some err, s1) \<Rightarrow> (Some err, f, s1)
                | (None, s1) \<Rightarrow> (None, f\<lparr>wf_dirty := False\<rparr>, s1))
           | FileBuf fb \<Rightarrow>
               (case S3FS_putSpill E k fb meta s of
                  (Inl err, s1) \<Rightarrow> (Some err, f, s1)
                | (Inr etag, s1) \<Rightarrow> (None, f\<lparr>wf_spillETag := etag, wf_dirty := False\<rparr>, s1)))"

definition writeFile_Sync ::
    "('w, 'c, 'd) env \<Rightarrow> writeFile \<Rightarrow> ('w, 'c, 'd, 'z) S3FS_scheme
       \<Rightarrow> goerr option \<times> writeFile \<times> ('w, 'c, 'd, 'z) S3FS_scheme" where
  "writeFile_Sync E f s =
     (if wf_closed f then (Some (PathError ''sync'' (wf_name f) ErrClosed), f, s) else writeFile_flush E f s)"

definition maybeDestroyLocked ::
    "writeFile \<Rightarrow> ('w, 'c, 'd, 'z) S3FS_scheme \<Rightarrow> writeFile \<times> ('w, 'c, 'd, 'z) S3FS_scheme" where
  "maybeDestroyLocked f s =
     (if wf_closed f \<and> wf_shared f = 0
      then (f\<lparr>wf_buf := MemBuf \<lparr>mb_arr = [], mb_len = 0\<rparr>\<rparr>, s\<lparr>fs_mach := buf_destroy (wf_buf f) (fs_mach s)\<rparr>)
      else (f, s))"

text \<open>Handing a spill file over to the disk tier on \<^verbatim>\<open>Close\<close>.\<close>

definition adopt_spill ::
    "('w, 'c, 'd) env \<Rightarrow> writeFile \<Rightarrow> ('w, 'c, 'd, 'z) S3FS_scheme \<Rightarrow> ('w, 'c, 'd, 'z) S3FS_scheme" where
  "adopt_spill E f s =
     (case wf_buf f of
        MemBuf _ \<Rightarrow> s
      | FileBuf fb \<Rightarrow>
          if wf_spillETag f = '''' then s
          else with_disk (disk_adopt (disk_lru E) (now E s) (key (fs_prefix s) (wf_name f))
                            (wf_spillETag f) (fb_path fb) (fb_sz fb)) s)"

text \<open>\<^verbatim>\<open>Close\<close>, and its part after the flush.\<close>

fun after_flush ::
    "('w, 'c, 'd) env \<Rightarrow> handle \<Rightarrow> goerr option \<times> writeFile \<times> ('w, 'c, 'd, 'z) wfs_scheme
       \<Rightarrow> goerr option \<times> ('w, 'c, 'd, 'z) wfs_scheme" where
  "after_flush E a (Some err, f, s) = (Some err, set_wf a f s)"
| "after_flush E a (None, f1, s) =
     (let f = f1\<lparr>wf_closed := True\<rparr>
      in case maybeDestroyLocked f (adopt_spill E f (fs_release E (wf_name f) a (untrackWrite a (set_wf a f s)))) of
           (f2, s1) \<Rightarrow> (None, set_wf a f2 s1))"

definition writeFile_Close ::
    "('w, 'c, 'd) env \<Rightarrow> handle \<Rightarrow> ('w, 'c, 'd, 'z) wfs_scheme
       \<Rightarrow> goerr option \<times> ('w, 'c, 'd, 'z) wfs_scheme" where
  "writeFile_Close E a s =
     (let f = ws_files s a
      in if wf_closed f then (Some (PathError ''close'' (wf_name f) ErrClosed), s)
         else after_flush E a (writeFile_flush E f s))"

definition writeFile_Lock ::
    "('w, 'c, 'd) env \<Rightarrow> handle \<Rightarrow> ('w, 'c, 'd, 'z) wfs_scheme \<Rightarrow> lockOutcome \<times> ('w, 'c, 'd, 'z) wfs_scheme" where
  "writeFile_Lock E a s = handle_Lock E (wf_closed (ws_files s a)) (wf_name (ws_files s a)) a s"

definition writeFile_Unlock ::
    "('w, 'c, 'd) env \<Rightarrow> handle \<Rightarrow> ('w, 'c, 'd, 'z) wfs_scheme \<Rightarrow> goerr option \<times> ('w, 'c, 'd, 'z) wfs_scheme" where
  "writeFile_Unlock E a s = handle_Unlock E (wf_closed (ws_files s a)) (wf_name (ws_files s a)) a s"

section \<open>Shared readers\<close>

record sharedReadFile =
  sh_id :: handle
  sh_wf :: handle
  sh_pos :: int
  sh_closed :: bool

definition newSharedReadFile ::
    "handle \<Rightarrow> ('w, 'c, 'd, 'z) wfs_scheme \<Rightarrow> sharedReadFile option \<times> ('w, 'c, 'd, 'z) wfs_scheme" where
  "newSharedReadFile a s =
     (let wf = ws_files s a
      in if wf_closed wf then (None, s)
         else case new_handle (set_wf a (wf\<lparr>wf_shared := wf_shared wf + 1\<rparr>) s) of
           (h, s1) \<Rightarrow> (Some \<lparr>sh_id = h, sh_wf = a, sh_pos = 0, sh_closed = False\<rparr>, s1))"

definition sharedReadFile_Stat :: "sharedReadFile \<Rightarrow> ('w, 'c, 'd, 'z) wfs_scheme \<Rightarrow> fileInfo" where
  "sharedReadFile_Stat f s = writeFile_Stat (ws_files s (sh_wf f))"

definition sharedReadFile_Read ::
    "nat \<Rightarrow> sharedReadFile \<Rightarrow> ('w, 'c, 'd, 'z) wfs_scheme
       \<Rightarrow> read_result \<times> sharedReadFile \<times> ('w, 'c, 'd, 'z) wfs_scheme" where
  "sharedReadFile_Read n f s =
     (if sh_closed f then (([], Some (PathError ''read'' (wf_name (ws_files s (sh_wf f))) ErrClosed)), f, s)
      else case readAtShared n (sh_pos f) (ws_files s (sh_wf f)) s of
        ((d, err), s1) \<Rightarrow>
          ((d, if d \<noteq> [] \<and> err = Some EOF then None else err),
           f\<lparr>sh_pos := wrap64 (sh_pos f + int (length d))\<rparr>, s1))"

definition sharedReadFile_ReadAt ::
    "nat \<Rightarrow> int \<Rightarrow> sharedReadFile \<Rightarrow> ('w, 'c, 'd, 'z) wfs_scheme \<Rightarrow> read_result \<times> ('w, 'c, 'd, 'z) wfs_scheme" where
  "sharedReadFile_ReadAt n off f s =
     (if sh_closed f then (([], Some (PathError ''read'' (wf_name (ws_files s (sh_wf f))) ErrClosed)), s)
      else if off < 0 then (([], Some (PathError ''readat'' (wf_name (ws_files s (sh_wf f))) ErrInvalid)), s)
      else readAtShared n off (ws_files s (sh_wf f)) s)"

definition sharedReadFile_Seek ::
    "int \<Rightarrow> int \<Rightarrow> sharedReadFile \<Rightarrow> ('w, 'c, 'd, 'z) wfs_scheme \<Rightarrow> (goerr + int) \<times> sharedReadFile" where
  "sharedReadFile_Seek offset whence f s =
     (let wf = ws_files s (sh_wf f)
      in if sh_closed f then (Inl (PathError ''seek'' (wf_name wf) ErrClosed), f)
         else case seekPos (sh_pos f) (buf_len (wf_buf wf)) offset whence of
           Inl e \<Rightarrow> (Inl (PathError ''seek'' (wf_name wf) e), f)
         | Inr p \<Rightarrow> (Inr p, f\<lparr>sh_pos := p\<rparr>))"

definition sharedReadFile_Write ::
    "bytes \<Rightarrow> sharedReadFile \<Rightarrow> ('w, 'c, 'd, 'z) wfs_scheme \<Rightarrow> nat \<times> goerr option" where
  "sharedReadFile_Write p f s = (0, Some (PathError ''write'' (wf_name (ws_files s (sh_wf f))) ErrPermission))"

definition sharedReadFile_WriteAt ::
    "bytes \<Rightarrow> int \<Rightarrow> sharedReadFile \<Rightarrow> ('w, 'c, 'd, 'z) wfs_scheme \<Rightarrow> nat \<times> goerr option" where
  "sharedReadFile_WriteAt p off f s = (0, Some (PathError ''writeat'' (wf_name (ws_files s (sh_wf f))) ErrPermission))"

definition sharedReadFile_Truncate ::
    "int \<Rightarrow> sharedReadFile \<Rightarrow> ('w, 'c, 'd, 'z) wfs_scheme \<Rightarrow> goerr option" where
  "sharedReadFile_Truncate n f s = Some (PathError ''truncate'' (wf_name (ws_files s (sh_wf f))) ErrPermission)"

definition sharedReadFile_Close ::
    "('w, 'c, 'd) env \<Rightarrow> sharedReadFile \<Rightarrow> ('w, 'c, 'd, 'z) wfs_scheme
       \<Rightarrow> goerr option \<times> sharedReadFile \<times> ('w, 'c, 'd, 'z) wfs_scheme" where
  "sharedReadFile_Close E f s =
     (let a = sh_wf f; wf = ws_files s a
      in if sh_closed f then (Some (PathError ''close'' (wf_name wf) ErrClosed), f, s)
         else case maybeDestroyLocked (wf\<lparr>wf_shared := wf_shared wf - 1\<rparr>) s of
           (wf1, s1) \<Rightarrow> (None, f\<lparr>sh_closed := True\<rparr>, fs_release E (wf_name wf) (sh_id f) (set_wf a wf1 s1)))"

definition sharedReadFile_Lock ::
    "('w, 'c, 'd) env \<Rightarrow> sharedReadFile \<Rightarrow> ('w, 'c, 'd, 'z) wfs_scheme \<Rightarrow> lockOutcome \<times> ('w, 'c, 'd, 'z) wfs_scheme" where
  "sharedReadFile_Lock E f s = handle_Lock E (sh_closed f) (wf_name (ws_files s (sh_wf f))) (sh_id f) s"

definition sharedReadFile_Unlock ::
    "('w, 'c, 'd) env \<Rightarrow> sharedReadFile \<Rightarrow> ('w, 'c, 'd, 'z) wfs_scheme \<Rightarrow> goerr option \<times> ('w, 'c, 'd, 'z) wfs_scheme" where
  "sharedReadFile_Unlock E f s = handle_Unlock E (sh_closed f) (wf_name (ws_files s (sh_wf f))) (sh_id f) s"

section \<open>Buffers of different handles\<close>

text \<open>
  Two buffers are apart when they are not the same spill file. An operation on one buffer,
  from \<open>b\<close> to \<open>b'\<close>, leaves those apart from it alone.
\<close>

fun bufs_apart :: "writeBuf \<Rightarrow> writeBuf \<Rightarrow> bool" where
  "bufs_apart (FileBuf x) (FileBuf y) \<longleftrightarrow> fb_f x \<noteq> fb_f y"
| "bufs_apart _ _ \<longleftrightarrow> True"

definition others_kept ::
    "('d \<Rightarrow> (string \<times> diskEntry lruEntry) list) \<Rightarrow> ('w, 'c, 'd, 'z) S3FS_scheme \<Rightarrow> writeBuf
       \<Rightarrow> ('w, 'c, 'd, 'z) S3FS_scheme \<Rightarrow> writeBuf \<Rightarrow> bool" where
  "others_kept dview s b s' b' \<longleftrightarrow>
     (\<forall>b2. buf_ok dview s b2 \<longrightarrow> bufs_apart b b2 \<longrightarrow>
           buf_ok dview s' b2 \<and> buf_data s' b2 = buf_data s b2 \<and> bufs_apart b' b2)"

lemma others_kept_trans:
  "others_kept dview s b s1 b1 \<Longrightarrow> others_kept dview s1 b1 s2 b2 \<Longrightarrow> others_kept dview s b s2 b2"
  unfolding others_kept_def by auto

lemma keeps_others: "keeps dview s s' \<Longrightarrow> others_kept dview s b s' b"
  using keeps_buf [of dview s s'] by (simp add: others_kept_def)

fun is_spill :: "writeBuf \<Rightarrow> bool" where
  "is_spill (MemBuf _) = False"
| "is_spill (FileBuf _) = True"

text \<open>What a call on a buffer does to the machine.\<close>

fun touches :: "writeBuf \<Rightarrow> mach \<Rightarrow> writeBuf \<Rightarrow> mach \<Rightarrow> bool" where
  "touches (MemBuf x) m (MemBuf y) m' \<longleftrightarrow> mos m' = mos m"
| "touches (FileBuf x) m (FileBuf y) m' \<longleftrightarrow>
     dirents (mos m') = dirents (mos m) \<and> next_ino (mos m') = next_ino (mos m) \<and>
     (\<forall>j. j \<noteq> fb_f x \<longrightarrow> inodes (mos m') j = inodes (mos m) j) \<and> fb_f y = fb_f x \<and> fb_path y = fb_path x"
| "touches _ _ _ _ \<longleftrightarrow> False"

lemma touches_kind: "touches b m b' m' \<Longrightarrow> is_spill b' = is_spill b"
  by (cases b; cases b') auto

lemma recycleData_mos [simp]: "mos (recycleData arr m) = mos m"
  by (simp add: recycleData_def)

lemma memBuf_grow_mos: "memBuf_grow n b m = (b', m') \<Longrightarrow> mos m' = mos m"
  by (auto simp: memBuf_grow_def Let_def split: if_splits)

lemma memBuf_writeAt_mos: "memBuf_writeAt p off b m = (r, b', m') \<Longrightarrow> mos m' = mos m"
  by (auto simp: memBuf_writeAt_def Let_def split: prod.splits if_splits dest!: memBuf_grow_mos)

lemma memBuf_truncate_mos: "memBuf_truncate n b m = (r, b', m') \<Longrightarrow> mos m' = mos m"
  by (auto simp: memBuf_truncate_def split: if_splits dest!: memBuf_grow_mos)

lemma writeAt_touches: "buf_writeAt p off b m = (r, b', m') \<Longrightarrow> touches b m b' m'"
  by (cases b) (auto split: prod.splits dest: memBuf_writeAt_mos fileBuf_writeAt_frame)

lemma truncate_touches: "buf_truncate n b m = (r, b', m') \<Longrightarrow> touches b m b' m'"
  by (cases b) (auto split: prod.splits dest: memBuf_truncate_mos fileBuf_truncate_frame)

lemma readAt_shrinks: "buf_readAt n off b m = (r, m') \<Longrightarrow> shrinks (mos m) (mos m')"
  by (cases b) (auto simp: fileBuf_readAt_def shrinks_def split: if_splits prod.splits dest: os_ReadAt_frame)

lemma snapshot_shrinks: "buf_snapshot b m = (r, m') \<Longrightarrow> shrinks (mos m) (mos m')"
  by (cases b) (auto simp: fileBuf_snapshot_def shrinks_def split: if_splits prod.splits dest: os_ReadAt_frame)

lemma touches_others:
  assumes "touches b (fs_mach s) b' m" "buf_ok dview s b"
  shows "others_kept dview s b (s\<lparr>fs_mach := m\<rparr>) b'"
  unfolding others_kept_def
proof (intro allI impI)
  fix b2 assume b2: "buf_ok dview s b2" "bufs_apart b b2"
  have "bufs_apart b' b2" using assms(1) b2(2) by (cases b; cases b'; cases b2) auto
  moreover have "buf_ok dview (s\<lparr>fs_mach := m\<rparr>) b2 \<and> buf_data (s\<lparr>fs_mach := m\<rparr>) b2 = buf_data s b2"
  proof (cases b2)
    case (MemBuf x)
    then show ?thesis using b2(1) by (simp add: buf_ok_def buf_data_def)
  next
    case (FileBuf x)
    have "inodes (mos m) (fb_f x) = inodes (mos (fs_mach s)) (fb_f x)" "dirents (mos m) = dirents (mos (fs_mach s))"
        "next_ino (mos m) = next_ino (mos (fs_mach s))"
      using assms(1) b2(2) FileBuf by (cases b; cases b'; auto)+
    then show ?thesis using b2(1) FileBuf by (auto simp: buf_ok_def buf_data_def private_ino_def)
  qed
  ultimately show "buf_ok dview (s\<lparr>fs_mach := m\<rparr>) b2 \<and> buf_data (s\<lparr>fs_mach := m\<rparr>) b2 = buf_data s b2 \<and> bufs_apart b' b2"
    by blast
qed

lemma touches_own:
  assumes "touches b (fs_mach s) b' m" "buf_ok dview s b" "buf_wf m b'"
  shows "buf_ok dview (s\<lparr>fs_mach := m\<rparr>) b'"
  using assms by (cases b; cases b') (auto simp: buf_ok_def private_ino_def)

context s3fs
begin

lemma ok_mach: "ok (s\<lparr>fs_mach := m\<rparr>) = ok (set_os (mos m) s)"
  by (simp add: fs_ok_def set_os_def)

lemma touches_ok:
  assumes "ok s" "touches b (fs_mach s) b' m" "buf_ok dview s b"
  shows "ok (s\<lparr>fs_mach := m\<rparr>)"
proof (cases b)
  case (MemBuf x)
  then show ?thesis using assms by (cases b') (auto simp: fs_ok_def)
next
  case (FileBuf x)
  then have fr: "dirents (mos m) = dirents (mos (fs_mach s))" "next_ino (mos m) = next_ino (mos (fs_mach s))"
      "\<And>j. j \<noteq> fb_f x \<Longrightarrow> inodes (mos m) j = inodes (mos (fs_mach s)) j"
    using assms(2) by (cases b'; auto)+
  show ?thesis
    unfolding ok_mach
  proof (rule set_os_ok [OF assms(1)])
    fix c assume "fs_disk s = Some c" "disk_inv dview content c (mos (fs_mach s))"
    then show "disk_inv dview content c (mos m)"
      using private_write [of dview content c "mos (fs_mach s)" "fb_f x" "mos m"] assms(3) FileBuf fr
      by (auto simp: buf_ok_def)
  qed
qed

section \<open>Spilling\<close>

lemma buf_len_data: "buf_ok dview s b \<Longrightarrow> buf_len b = int (length (buf_data s b))"
  using any_buf.len_contents by (simp add: buf_ok_def buf_data_def)

lemma spill_into_spec:
  assumes s1: "ok s1" "buf_ok dview s1 (FileBuf fb)" "buf_data s1 (FileBuf fb) = []"
    and mb: "mb_len mb \<le> length (mb_arr mb)" "int64 (int (mb_len mb))"
    and s: "kept s s1" "fs_disk s \<noteq> None \<Longrightarrow> next_ino (mos (fs_mach s)) \<le> fb_f fb"
    and op: "spill_into mb fb f s1 = (f', s')"
  shows "ok s' \<and> store s' = store s1 \<and> same_conf s1 s' \<and> kept s s' \<and>
         (f' = f \<or> (\<exists>fb'. f' = f\<lparr>wf_buf := FileBuf fb'\<rparr> \<and> fb_f fb' = fb_f fb \<and> buf_ok dview s' (FileBuf fb') \<and>
                        buf_data s' (FileBuf fb') = mb_data mb))"
proof -
  obtain n er fb1 m where w: "(if mb_len mb > 0 then fileBuf_writeAt (mb_data mb) 0 fb (fs_mach s1)
      else ((0, None), fb, fs_mach s1)) = ((n, er), fb1, m)" by (metis prod.exhaust)
  have t: "touches (FileBuf fb) (fs_mach s1) (FileBuf fb1) m"
    using w by (auto split: if_splits dest: fileBuf_writeAt_frame)
  have ok1: "ok (s1\<lparr>fs_mach := m\<rparr>)" by (rule touches_ok [OF s1(1) t s1(2)])
  have k1: "kept s (s1\<lparr>fs_mach := m\<rparr>)"
    by (rule write_keeps [OF s(1), of _ "fb_f fb"]) (use t s(2) in auto)
  show ?thesis
  proof (cases er)
    case (Some e)
    then have s': "f' = f" "s' = s1\<lparr>fs_mach := fileBuf_destroy fb1 m\<rparr>" using op w by (auto simp: spill_into_def)
    have "ok s'" using destroy_ok [OF ok1, of fb1] s'(2) by simp
    moreover have "kept s s'"
      using keeps_trans [OF k1 destroy_keeps [of "s1\<lparr>fs_mach := m\<rparr>" fb1]] s'(2) by simp
    ultimately show ?thesis using k1 s' by (simp add: same_conf_def)
  next
    case None
    then have s': "f' = f\<lparr>wf_buf := FileBuf fb1\<rparr>" "s' = s1\<lparr>fs_mach := recycleData (mb_arr mb) m\<rparr>"
      using op w by (auto simp: spill_into_def)
    have sz: "fb_sz fb = int (length (inodes (mos (fs_mach s1)) (fb_f fb)))" "inodes (mos (fs_mach s1)) (fb_f fb) = []"
      using s1(2,3) by (auto simp: buf_ok_def buf_data_def)
    have d: "buf_wf m (FileBuf fb1) \<and> inodes (mos m) (fb_f fb1) = mb_data mb"
    proof (cases "mb_len mb > 0")
      case True
      then have "fileBuf_writeAt (mb_data mb) 0 fb (fs_mach s1) = ((n, None), fb1, m)" using w None by simp
      moreover have "mb_data mb \<noteq> []" "length (mb_data mb) = mb_len mb" using True mb(1) by (auto simp: mb_data_def)
      ultimately show ?thesis
        using fileBuf_writeAt_spec [of fb "fs_mach s1" 0 "mb_data mb" n fb1 m] sz mb(2) by (auto simp: overlay_def)
    next
      case False
      then show ?thesis using w None sz by (simp add: mb_data_def)
    qed
    have "buf_ok dview (s1\<lparr>fs_mach := m\<rparr>) (FileBuf fb1)" using touches_own [OF t s1(2)] d by blast
    then have "buf_ok dview s' (FileBuf fb1)" using s'(2) by (simp add: buf_ok_def)
    moreover have "ok s'" using ok1 s'(2) by (simp add: fs_ok_def)
    moreover have "kept s s'"
      by (rule keeps_trans [OF k1]) (rule keeps_same, simp_all add: s'(2))
    moreover have "fb_f fb1 = fb_f fb" "buf_data s' (FileBuf fb1) = mb_data mb" using t d s'(2) by (simp_all add: buf_data_def)
    ultimately show ?thesis using s' by (auto simp: same_conf_def)
  qed
qed

text \<open>Spilling, or failing to, is not observable: the handle stands for the same bytes.\<close>

lemma maybeSpill_spec:
  assumes ok: "ok s" and b: "buf_ok dview s (wf_buf f)" "int64 (buf_len (wf_buf f))"
    and op: "maybeSpillLocked n f s = (f', s')"
  shows "still s s' \<and> others_kept dview s (wf_buf f) s' (wf_buf f') \<and> f' = f\<lparr>wf_buf := wf_buf f'\<rparr> \<and>
         buf_ok dview s' (wf_buf f') \<and> buf_data s' (wf_buf f') = buf_data s (wf_buf f) \<and>
         (is_spill (wf_buf f) \<longrightarrow> is_spill (wf_buf f'))"
proof -
  have same: ?thesis if "f' = f" "still s s'"
    using that keeps_buf [OF calmD(4) [OF that(2)]] b(1) keeps_others [OF calmD(4) [OF that(2)]] by simp
  obtain x s1 where sp: "disk_run (Inl OsError) disk_newSpill s = (x, s1)"
    by (cases "disk_run (Inl OsError) disk_newSpill s")
  have c1: "still s s1"
    using newSpill_run_fail [OF ok sp] disk_run_frame [OF sp] newSpill_keeps [OF ok_disk [OF ok] sp]
    by (simp add: calm_def)
  consider (same) "f' = f" "s' = s \<or> s' = s1" | (spill) mb fb where "wf_buf f = MemBuf mb" "x = Inr fb" "spill_into mb fb f s1 = (f', s')"
    using op sp by (auto simp: maybeSpillLocked_def split: if_splits writeBuf.splits sum.splits)
  then show ?thesis
  proof cases
    case same
    then show ?thesis using \<open>f' = f \<Longrightarrow> still s s' \<Longrightarrow> ?thesis\<close> c1 calm_refl [OF ok] by blast
  next
    case spill
    note sp1 = newSpill_run [OF ok sp [unfolded spill(2)]] and fresh = newSpill_fresh [OF ok sp [unfolded spill(2)]]
    have mb: "mb_len mb \<le> length (mb_arr mb)" "int64 (int (mb_len mb))"
      using b spill(1) by (auto simp: buf_ok_def memBuf_len_def)
    note si = spill_into_spec [OF sp1 mb calmD(4) [OF c1] eq_imp_le [OF fresh] spill(3)]
    have c2: "still s s'"
      using si fresh calmD [OF c1] same_conf_trans [of s s1 s'] by (simp add: calm_def)
    from si consider "f' = f" | fb' where "f' = f\<lparr>wf_buf := FileBuf fb'\<rparr>" "fb_f fb' = fb_f fb"
        "buf_ok dview s' (FileBuf fb')" "buf_data s' (FileBuf fb') = mb_data mb" by blast
    then show ?thesis
    proof cases
      case 1
      then show ?thesis using same c2 by blast
    next
      case 2
      have "others_kept dview s (wf_buf f) s' (FileBuf fb')"
        unfolding others_kept_def
      proof (intro allI impI conjI)
        fix b2 assume b2: "buf_ok dview s b2" "bufs_apart (wf_buf f) b2"
        show "buf_ok dview s' b2" "buf_data s' b2 = buf_data s b2" using keeps_buf [OF calmD(4) [OF c2] b2(1)] by auto
        show "bufs_apart (FileBuf fb') b2" using b2(1) 2(2) fresh by (cases b2) (auto simp: buf_ok_def)
      qed
      then show ?thesis using 2 c2 spill(1) by (simp add: buf_data_def)
    qed
  qed
qed

end

section \<open>A writer as a sequence of bytes with a position\<close>

text \<open>
  The invariant of an open writer: its buffer is sound, its position is a position, its mode
  has only permission bits, and when nothing is left to upload the entity tag of the last
  spill upload stands for the bytes it has.
\<close>

definition wf_ok ::
    "(string \<Rightarrow> bytes) \<Rightarrow> ('d \<Rightarrow> (string \<times> diskEntry lruEntry) list) \<Rightarrow> ('w, 'c, 'd, 'z) S3FS_scheme
       \<Rightarrow> writeFile \<Rightarrow> bool" where
  "wf_ok content dview s f \<longleftrightarrow>
     buf_ok dview s (wf_buf f) \<and> int64 (buf_len (wf_buf f)) \<and> 0 \<le> wf_pos f \<and> int64 (wf_pos f) \<and> wf_perm f < 512 \<and>
     (wf_spillETag f \<noteq> '''' \<longrightarrow>
        is_spill (wf_buf f) \<and> (\<not> wf_dirty f \<longrightarrow> content (wf_spillETag f) = buf_data s (wf_buf f)))"

definition wf_view :: "('w, 'c, 'd, 'z) S3FS_scheme \<Rightarrow> writeFile \<Rightarrow> bytes \<times> nat" where
  "wf_view s f = (buf_data s (wf_buf f), nat (wf_pos f))"

text \<open>The abstract file.\<close>

definition file_write :: "bool \<Rightarrow> bytes \<Rightarrow> bytes \<times> nat \<Rightarrow> bytes \<times> nat" where
  "file_write app p v = (case v of (d, pos) \<Rightarrow> let q = (if app then length d else pos) in (overlay d q p, q + length p))"

definition file_writeAt :: "bytes \<Rightarrow> nat \<Rightarrow> bytes \<times> nat \<Rightarrow> bytes \<times> nat" where
  "file_writeAt p off v = (case v of (d, pos) \<Rightarrow> (overlay d off p, pos))"

definition file_truncate :: "nat \<Rightarrow> bytes \<times> nat \<Rightarrow> bytes \<times> nat" where
  "file_truncate n v = (case v of (d, pos) \<Rightarrow> (resize d n, pos))"

definition appending :: "writeFile \<Rightarrow> bool" where
  "appending f \<longleftrightarrow> wf_flag f AND O_APPEND \<noteq> 0"

definition write_pos :: "writeFile \<Rightarrow> int" where
  "write_pos f = (if appending f then buf_len (wf_buf f) else wf_pos f)"

text \<open>An operation on the buffer of one handle: everything else stays.\<close>

definition edits ::
    "('w \<Rightarrow> objects) \<Rightarrow> (string \<Rightarrow> bytes) \<Rightarrow> ('c \<Rightarrow> (string \<times> memEntry lruEntry) list)
       \<Rightarrow> ('d \<Rightarrow> (string \<times> diskEntry lruEntry) list)
       \<Rightarrow> ('w, 'c, 'd, 'z) S3FS_scheme \<Rightarrow> writeFile \<Rightarrow> ('w, 'c, 'd, 'z) S3FS_scheme \<Rightarrow> writeFile \<Rightarrow> bool" where
  "edits objs content mview dview s f s' f' \<longleftrightarrow>
     fs_ok objs content mview dview s' \<and> objs (fs_world s') = objs (fs_world s) \<and> same_conf s s' \<and>
     others_kept dview s (wf_buf f) s' (wf_buf f') \<and>
     wf_name f' = wf_name f \<and> wf_flag f' = wf_flag f \<and> wf_perm f' = wf_perm f \<and>
     wf_closed f' = wf_closed f \<and> wf_shared f' = wf_shared f"

lemma edits_trans:
  "edits objs content mview dview s f s1 f1 \<Longrightarrow> edits objs content mview dview s1 f1 s2 f2 \<Longrightarrow>
     edits objs content mview dview s f s2 f2"
  unfolding edits_def using others_kept_trans same_conf_trans by fastforce

lemma overlay_int64:
  "int64 (int (length d)) \<Longrightarrow> 0 \<le> off \<Longrightarrow> int64 (off + int (length p)) \<Longrightarrow> int64 (int (length (overlay d (nat off) p)))"
  by (simp add: int64_def max_def) linarith

context s3fs
begin

abbreviation (input) edited where "edited \<equiv> edits objs content mview dview"

abbreviation (input) wok where "wok \<equiv> wf_ok content dview"

lemma maybeSpill_edits:
  assumes ok: "ok s" and f: "wok s f" and op: "maybeSpillLocked n f s = (f', s')"
  shows "edited s f s' f'" "wok s' f'" "wf_view s' f' = wf_view s f" "f' = f\<lparr>wf_buf := wf_buf f'\<rparr>"
proof -
  have b: "buf_ok dview s (wf_buf f)" "int64 (buf_len (wf_buf f))" using f by (auto simp: wf_ok_def)
  note sp = maybeSpill_spec [OF ok b op]
  then have f': "wf_name f' = wf_name f" "wf_flag f' = wf_flag f" "wf_perm f' = wf_perm f" "wf_closed f' = wf_closed f"
      "wf_shared f' = wf_shared f" "wf_pos f' = wf_pos f" "wf_dirty f' = wf_dirty f" "wf_spillETag f' = wf_spillETag f"
    by (metis writeFile.select_convs writeFile.surjective writeFile.update_convs(4))+
  show "edited s f s' f'" using sp f' calmD(1-3) [of objs content mview dview s s'] by (simp add: edits_def)
  have "buf_len (wf_buf f') = buf_len (wf_buf f)"
    using buf_len_data [of s' "wf_buf f'"] buf_len_data [OF b(1)] sp by simp
  then show "wok s' f'" using f sp f' by (auto simp: wf_ok_def)
  show "wf_view s' f' = wf_view s f" "f' = f\<lparr>wf_buf := wf_buf f'\<rparr>" using sp f' by (simp_all add: wf_view_def)
qed

lemma writeAt_cases:
  assumes "writeFile_writeAt E p off f s = ((n, err), f', s')"
  obtains f1 s1 err1 b m where "maybeSpillLocked (wrap64 (off + int (length p))) f s = (f1, s1)"
    "buf_writeAt p off (wf_buf f1) (fs_mach s1) = ((n, err1), b, m)" "(err = None) = (err1 = None)"
    "s' = s1\<lparr>fs_mach := m\<rparr>"
    "f' = (if err1 = None then f1\<lparr>wf_buf := b, wf_dirty := True, wf_modTime := now E s1\<rparr> else f1\<lparr>wf_buf := b\<rparr>)"
  using assms by (auto simp: writeFile_writeAt_def split: prod.splits option.splits)

lemma writeAt_edits:
  assumes ok: "ok s" and f: "wok s f" and op: "writeFile_writeAt E p off f s = ((n, err), f', s')"
  shows "edited s f s' f'"
proof -
  obtain f1 s1 err1 b m where c: "maybeSpillLocked (wrap64 (off + int (length p))) f s = (f1, s1)"
      "buf_writeAt p off (wf_buf f1) (fs_mach s1) = ((n, err1), b, m)" "s' = s1\<lparr>fs_mach := m\<rparr>"
      "f' = (if err1 = None then f1\<lparr>wf_buf := b, wf_dirty := True, wf_modTime := now E s1\<rparr> else f1\<lparr>wf_buf := b\<rparr>)"
    using op by (rule writeAt_cases)
  note e1 = maybeSpill_edits [OF ok f c(1)]
  have b1: "ok s1" "buf_ok dview s1 (wf_buf f1)" using e1(1,2) by (auto simp: edits_def wf_ok_def)
  note t = writeAt_touches [OF c(2)]
  have "edited s1 f1 s' f'"
    using touches_ok [OF b1(1) t b1(2)] touches_others [OF t b1(2)] c(3,4) by (simp add: edits_def same_conf_def)
  then show ?thesis by (rule edits_trans [OF e1(1)])
qed

lemma writeAt_spec:
  assumes ok: "ok s" and f: "wok s f" and off: "0 \<le> off" "int64 (off + int (length p))"
    "p \<noteq> [] \<or> off \<le> int (length (buf_data s (wf_buf f)))"
    and op: "writeFile_writeAt E p off f s = ((n, None), f', s')"
  shows "n = length p \<and> wok s' f' \<and> wf_view s' f' = file_writeAt p (nat off) (wf_view s f) \<and> wf_dirty f' \<and> wf_pos f' = wf_pos f"
proof -
  obtain f1 s1 b m where c: "maybeSpillLocked (wrap64 (off + int (length p))) f s = (f1, s1)"
      "buf_writeAt p off (wf_buf f1) (fs_mach s1) = ((n, None), b, m)" "s' = s1\<lparr>fs_mach := m\<rparr>"
      "f' = f1\<lparr>wf_buf := b, wf_dirty := True, wf_modTime := now E s1\<rparr>"
    using op by (rule writeAt_cases) simp
  note e1 = maybeSpill_edits [OF ok f c(1)]
  have b1: "buf_ok dview s1 (wf_buf f1)" "buf_wf (fs_mach s1) (wf_buf f1)" using e1(2) by (auto simp: wf_ok_def buf_ok_def)
  have d1: "buf_data s1 (wf_buf f1) = buf_data s (wf_buf f)" "wf_pos f1 = wf_pos f"
    using e1(3,4) by (auto simp: wf_view_def) (metis writeFile.select_convs(5) writeFile.surjective writeFile.update_convs(4))
  have w: "n = length p" "buf_wf m b" "buf_contents m b = overlay (buf_contents (fs_mach s1) (wf_buf f1)) (nat off) p"
    using any_buf.writeAt_ok [OF b1(2) off(1,2) _ c(2)] off(3) buf_len_data [OF b1(1)] d1 by auto
  have bd: "buf_data s' b = overlay (buf_data s (wf_buf f)) (nat off) p" using w(3) d1(1) c(3) by (simp add: buf_data_def)
  have bok: "buf_ok dview s' b" using touches_own [OF writeAt_touches [OF c(2)] b1(1) w(2)] c(3) by simp
  have "int64 (int (length (buf_data s (wf_buf f))))" using f buf_len_data [of s "wf_buf f"] by (simp add: wf_ok_def)
  then have "int64 (buf_len b)" using buf_len_data [OF bok] bd overlay_int64 off by simp
  then show ?thesis
    using w(1) e1(2) c(4) bok bd d1 touches_kind [OF writeAt_touches [OF c(2)]]
    by (simp add: wf_ok_def wf_view_def file_writeAt_def)
qed

text \<open>\<^verbatim>\<open>Write\<close>, \<^verbatim>\<open>WriteAt\<close>, \<^verbatim>\<open>Truncate\<close> and the reads refine the abstract file.\<close>


lemma Write_spec:
  assumes ok: "ok s" and f: "wok s f" and off: "int64 (write_pos f + int (length p))"
    "p \<noteq> [] \<or> write_pos f \<le> buf_len (wf_buf f)"
    and op: "writeFile_Write E p f s = ((n, None), f', s')"
  shows "n = length p \<and> wok s' f' \<and> wf_view s' f' = file_write (appending f) p (wf_view s f) \<and> wf_dirty f' \<and>
         edited s f s' f'"
proof -
  let ?f = "if wf_flag f AND O_APPEND \<noteq> 0 then f\<lparr>wf_pos := buf_len (wf_buf f)\<rparr> else f"
  have len: "buf_len (wf_buf f) = int (length (buf_data s (wf_buf f)))"
    using f buf_len_data [of s "wf_buf f"] by (simp add: wf_ok_def)
  have fq: "wok s ?f" "wf_pos ?f = write_pos f" "wf_buf ?f = wf_buf f" using f len by (auto simp: wf_ok_def write_pos_def appending_def)
  obtain f1 where w: "writeFile_writeAt E p (write_pos f) ?f s = ((n, None), f1, s')"
      and f': "f' = f1\<lparr>wf_pos := wrap64 (wf_pos f1 + int n)\<rparr>"
    using op fq(2) by (auto simp: writeFile_Write_def Let_def split: if_splits prod.splits)
  have pos: "0 \<le> write_pos f" using f len by (simp add: write_pos_def wf_ok_def)
  have w1: "n = length p" "wok s' f1" "wf_view s' f1 = file_writeAt p (nat (write_pos f)) (wf_view s ?f)"
      "wf_dirty f1" "wf_pos f1 = write_pos f"
    using writeAt_spec [OF ok fq(1) pos off(1) _ w] off(2) fq(2,3) len by auto
  have e: "edited s ?f s' f1" by (rule writeAt_edits [OF ok fq(1) w])
  have wr: "wrap64 (wf_pos f1 + int n) = write_pos f + int (length p)" using w1 off(1) by simp
  have "nat (write_pos f) = (if appending f then length (buf_data s (wf_buf f)) else nat (wf_pos f))"
    using len by (simp add: write_pos_def)
  then have "wf_view s' f' = file_write (appending f) p (wf_view s f)"
    using w1(3) f' wr pos fq(3) by (auto simp: wf_view_def file_writeAt_def file_write_def Let_def nat_add_distrib)
  moreover have "wok s' f'" using w1(2) f' wr pos off(1) by (simp add: wf_ok_def)
  moreover have "edited s f s' f'" using e f' fq(3) by (auto simp: edits_def)
  ultimately show ?thesis using w1 f' by simp
qed

lemma Truncate_cases:
  assumes "writeFile_Truncate E n f s = (err, f', s')" "\<not> wf_closed f" "0 \<le> n"
  obtains f1 s1 err1 b m where "maybeSpillLocked n f s = (f1, s1)"
    "buf_truncate n (wf_buf f1) (fs_mach s1) = (err1, b, m)" "(err = None) = (err1 = None)" "s' = s1\<lparr>fs_mach := m\<rparr>"
    "f' = (if err1 = None then f1\<lparr>wf_buf := b, wf_dirty := True, wf_modTime := now E s1\<rparr> else f1\<lparr>wf_buf := b\<rparr>)"
  using assms by (auto simp: writeFile_Truncate_def split: prod.splits option.splits)

lemma Truncate_spec:
  assumes ok: "ok s" and f: "wok s f" "\<not> wf_closed f" and n: "0 \<le> n" "int64 n"
    and op: "writeFile_Truncate E n f s = (err, f', s')"
  shows "edited s f s' f'"
    and "err = None \<Longrightarrow> wok s' f' \<and> wf_view s' f' = file_truncate (nat n) (wf_view s f) \<and> wf_dirty f'"
proof -
  obtain f1 s1 err1 b m where c: "maybeSpillLocked n f s = (f1, s1)"
      "buf_truncate n (wf_buf f1) (fs_mach s1) = (err1, b, m)" "(err = None) = (err1 = None)" "s' = s1\<lparr>fs_mach := m\<rparr>"
      "f' = (if err1 = None then f1\<lparr>wf_buf := b, wf_dirty := True, wf_modTime := now E s1\<rparr> else f1\<lparr>wf_buf := b\<rparr>)"
    using op f(2) n(1) by (rule Truncate_cases)
  note e1 = maybeSpill_edits [OF ok f(1) c(1)]
  have b1: "ok s1" "buf_ok dview s1 (wf_buf f1)" "buf_wf (fs_mach s1) (wf_buf f1)"
    using e1(1,2) by (auto simp: edits_def wf_ok_def buf_ok_def)
  note t = truncate_touches [OF c(2)]
  have "edited s1 f1 s' f'"
    using touches_ok [OF b1(1) t b1(2)] touches_others [OF t b1(2)] c(4,5) by (simp add: edits_def same_conf_def)
  then show "edited s f s' f'" by (rule edits_trans [OF e1(1)])
  show "wok s' f' \<and> wf_view s' f' = file_truncate (nat n) (wf_view s f) \<and> wf_dirty f'" if "err = None"
  proof -
    have w: "buf_wf m b" "buf_contents m b = resize (buf_contents (fs_mach s1) (wf_buf f1)) (nat n)"
      using any_buf.truncate_ok [OF b1(3) n(1), of b m] c(2,3) that by auto
    have bok: "buf_ok dview s' b" using touches_own [OF t b1(2) w(1)] c(4) by simp
    have bd: "buf_data s' b = resize (buf_data s1 (wf_buf f1)) (nat n)" using w(2) c(4) by (simp add: buf_data_def)
    have "buf_len b = n" using buf_len_data [OF bok] bd n(1) by simp
    then show ?thesis
      using e1(2,3) c(3,5) that bok bd n(2) touches_kind [OF t] by (auto simp: wf_ok_def wf_view_def file_truncate_def)
  qed
qed

end

section \<open>Reading a buffer\<close>

definition buf_serves :: "writeBuf \<Rightarrow> mach \<Rightarrow> bytes \<Rightarrow> bool" where
  "buf_serves b m d \<longleftrightarrow> buf_wf m b \<and> buf_contents m b = d \<and> int64 (int (length d))"

lemma os_ReadAt_prefix:
  "os_ReadAt n off i s = ((x, err), s') \<Longrightarrow> prefix x (drop (nat off) (inodes s i)) \<and> length x \<le> n \<and>
     (err = Some EOF \<longrightarrow> off \<ge> 0 \<and> x = drop (nat off) (inodes s i))"
  by (auto simp: os_ReadAt_def Let_def take_is_prefix dest: next_fault_frame split: if_splits prod.splits option.splits)

lemma buf_readAt_piece:
  assumes "buf_serves b m d" "0 \<le> off" "off < int (length d)" "buf_readAt n off b m = ((x, err), m')"
  shows "prefix x (drop (nat off) d) \<and> length x \<le> n \<and> buf_serves b m' d \<and>
         (err = Some EOF \<longrightarrow> nat off + length x = length d)"
proof -
  have s: "buf_serves b m' d" using any_buf.readAt_frame [OF assms(4)] assms(1) by (simp add: buf_serves_def)
  show ?thesis
  proof (cases b)
    case (MemBuf y)
    then have "d = mb_data y" "length d = mb_len y" using assms(1) by (auto simp: buf_serves_def mb_data_def)
    then show ?thesis
      using assms(2-4) s MemBuf by (auto simp: memBuf_readAt_def Let_def take_is_prefix split: if_splits)
  next
    case (FileBuf y)
    then have d: "d = inodes (mos m) (fb_f y)" "fb_sz y = int (length d)" using assms(1) by (auto simp: buf_serves_def)
    obtain o1 where "os_ReadAt n off (fb_f y) (mos m) = ((x, err), o1)"
      using assms(3,4) d FileBuf by (auto simp: fileBuf_readAt_def split: prod.splits)
    from os_ReadAt_prefix [OF this] show ?thesis using s d(1) assms(3) by (auto simp: prefix_def)
  qed
qed

interpretation wb: read_backend buf_read buf_serves
proof
  show "int64 (int (length d))" if "buf_serves b s d" for b s d using that by (simp add: buf_serves_def)
next
  fix b s d off n x err b' s'
  assume "buf_serves b s d" "0 \<le> off" "off < int (length d)" "buf_read n off b s = ((x, err), b', s')"
  then show "prefix x (drop (nat off) d) \<and> length x \<le> n \<and> buf_serves b' s' d \<and>
      (err = Some EOF \<longrightarrow> nat off + length x = length d)"
    using buf_readAt_piece [of b s d off n x err s'] by (auto simp: buf_read_def split: prod.splits)
qed

section \<open>Uploading\<close>

text \<open>The object a writer uploads.\<close>

definition uploaded :: "objects \<Rightarrow> string \<Rightarrow> bytes \<Rightarrow> FileMode \<Rightarrow> objects \<Rightarrow> bool" where
  "uploaded m k d perm m' \<longleftrightarrow>
     (\<exists>ob. m' = m(k \<mapsto> ob) \<and> odata ob = d \<and> meta_sim (ometa ob) [(modeMetaKey, octal perm)])"

context s3fs
begin

lemma putSpill_ok:
  assumes ok: "ok s" and b: "buf_ok dview s (FileBuf fb)" and op: "S3FS_putSpill E k fb meta s = (Inr etag, s')"
  shows "ok s'" and "same_conf s s'"
    and "\<exists>obj. store s' = (store s)(k \<mapsto> obj) \<and> odata obj = buf_data s (FileBuf fb) \<and>
               meta_sim (ometa obj) meta \<and> (etag \<noteq> '''' \<longrightarrow> content etag = odata obj)"
proof -
  define d where "d = buf_data s (FileBuf fb)"
  have sz: "fb_sz fb = int (length d)" using b by (simp add: d_def buf_ok_def buf_data_def)
  obtain o1 where sk: "os_SeekStart (fb_f fb) (mos (fs_mach s)) = (None, o1)"
    using op by (auto simp: S3FS_putSpill_def split: prod.splits option.splits)
  note sh = SeekStart_shrinks [OF sk]
  have d1: "inodes o1 (fb_f fb) = d" using sh by (simp add: d_def buf_data_def shrinks_def)
  define s0 where "s0 = set_os o1 s"
  have ok0: "ok s0" "fs_world s0 = fs_world s" "fs_bucket s0 = fs_bucket s" "same_conf s s0"
    using shrink_ok [OF ok sh] by (simp_all add: s0_def)
  let ?i = "\<lparr>put_Bucket = fs_bucket s, put_Key = k, put_Body = d, put_ContentLength = Some (fb_sz fb),
            put_Metadata = meta, put_IfNoneMatch = None, put_IfMatch = None\<rparr>"
  obtain t w where rq: "PutObject (client E) ?i (fs_world s) = (Inr t, w)" and t: "etag = ToString t"
      and s': "s' = with_disk (disk_dropDeleted (disk_lru E) k)
        (with_mem (mem_storeWrite (mem_lru E) (now E (s0\<lparr>fs_world := w\<rparr>)) k (int (length d)) etag None meta)
           (s0\<lparr>fs_world := w\<rparr>))"
    using op sk d1 sz ok0(2,3)
    by (auto simp: S3FS_putSpill_def request_def Let_def s0_def [symmetric] split: prod.splits sum.splits)
  obtain obj where obj: "objs w = (store s)(k \<mapsto> obj)" "odata obj = d" "meta_sim (ometa obj) meta"
      "etag \<noteq> '''' \<Longrightarrow> content etag = odata obj"
    using PutObject_ok [OF rq] sz t by auto
  have "ok (with_mem (mem_storeWrite (mem_lru E) (now E (s0\<lparr>fs_world := w\<rparr>)) k (int (length d)) etag None meta)
           (s0\<lparr>fs_world := w\<rparr>))"
  proof (rule with_mem_ok [OF ok0_world [OF ok_ok0 [OF ok0(1)]], simplified])
    fix c assume "fs_mem s0 = Some c"
    then have "mem_ok mview content (store s) c" using mem_fact [OF ok0(1)] ok0(2) by simp
    then show "mem_ok mview content (objs w)
        (mem_storeWrite (mem_lru E) (now E (s0\<lparr>fs_world := w\<rparr>)) k (int (length d)) etag None meta c)"
      unfolding obj(1) using obj by (intro mem.storeWrite_ok) (auto intro: meta_sim_sym)
  qed
  then show "ok s'" unfolding s' by (rule drop_disk_ok)
  show "same_conf s s'" unfolding s' using ok0(4)
    by (blast intro: same_conf_trans same_conf_world with_mem_frame(4) with_disk_frame(3))
  show "\<exists>obj. store s' = (store s)(k \<mapsto> obj) \<and> odata obj = buf_data s (FileBuf fb) \<and>
               meta_sim (ometa obj) meta \<and> (etag \<noteq> '''' \<longrightarrow> content etag = odata obj)"
    using obj unfolding s' d_def [symmetric] by auto
qed

lemma flush_spec:
  assumes ok: "ok s" and f: "wok s f" and op: "writeFile_flush E f s = (None, f', s')"
  shows "ok s' \<and> same_conf s s' \<and> kept s s' \<and> wok s' f' \<and> \<not> wf_dirty f' \<and> wf_buf f' = wf_buf f \<and>
         buf_data s' (wf_buf f') = buf_data s (wf_buf f) \<and>
         f' = f\<lparr>wf_dirty := False, wf_spillETag := wf_spillETag f'\<rparr> \<and>
         (if wf_dirty f then uploaded (store s) (key (fs_prefix s) (wf_name f)) (buf_data s (wf_buf f)) (wf_perm f) (store s')
          else s' = s)"
proof (cases "wf_dirty f")
  case False
  then show ?thesis using op f ok by (simp add: writeFile_flush_def)
next
  case True
  let ?meta = "[(modeMetaKey, octal (wf_perm f))]" and ?k = "key (fs_prefix s) (wf_name f)"
  have b: "buf_ok dview s (wf_buf f)" using f by (simp add: wf_ok_def)
  show ?thesis
  proof (cases "wf_buf f")
    case (MemBuf mb)
    obtain s1 where p: "S3FS_put E ?k (Some (mb_data mb)) ?meta s = (None, s')" "f' = f\<lparr>wf_dirty := False\<rparr>"
      using op True MemBuf
      by (auto simp: writeFile_flush_def Let_def memBuf_bytes_def split: prod.splits option.splits)
    note pk = put_keeps [OF ok_disk [OF ok] p(1)] and po = put_ok [OF ok p(1)]
    show ?thesis
      using po pk keeps_buf [OF pk b] p(2) True f MemBuf
      by (auto simp: uploaded_def wf_ok_def buf_data_def)
  next
    case (FileBuf fb)
    obtain etag where p: "S3FS_putSpill E ?k fb ?meta s = (Inr etag, s')"
        "f' = f\<lparr>wf_spillETag := etag, wf_dirty := False\<rparr>"
      using op True FileBuf by (auto simp: writeFile_flush_def Let_def split: prod.splits sum.splits)
    note pk = putSpill_keeps [OF ok p(1)] and po = putSpill_ok [OF ok b [unfolded FileBuf] p(1)]
    show ?thesis
      using po pk keeps_buf [OF pk b] p(2) True f FileBuf
      by (auto simp: uploaded_def wf_ok_def)
  qed
qed

end

section \<open>Closing\<close>

lemma fs_release_frame:
  "fs_prefix (fs_release E p h s) = fs_prefix s" "fs_bucket (fs_release E p h s) = fs_bucket s"
  "fs_mem (fs_release E p h s) = fs_mem s" "fs_disk (fs_release E p h s) = fs_disk s"
  "fs_mach (fs_release E p h s) = fs_mach s" "S3FS.more (fs_release E p h s) = S3FS.more s"
  by (simp_all add: fs_release_def split: prod.split)

lemma buf_same:
  "fs_disk s' = fs_disk s \<Longrightarrow> mos (fs_mach s') = mos (fs_mach s) \<Longrightarrow>
     buf_ok dview s' b = buf_ok dview s b \<and> buf_data s' b = buf_data s b"
  by (cases b) (simp_all add: buf_ok_def buf_data_def)

lemma set_wf_frame [simp]:
  "fs_bucket (set_wf a f s) = fs_bucket s" "fs_prefix (set_wf a f s) = fs_prefix s" "fs_world (set_wf a f s) = fs_world s"
  "fs_mach (set_wf a f s) = fs_mach s" "fs_mem (set_wf a f s) = fs_mem s" "fs_disk (set_wf a f s) = fs_disk s"
  "fs_locks (set_wf a f s) = fs_locks s" "fs_nextid (set_wf a f s) = fs_nextid s" "ws_open (set_wf a f s) = ws_open s"
  "ws_files (set_wf a f s) = (ws_files s)(a := f)"
  by (simp_all add: set_wf_def)

lemma untrackWrite_frame [simp]:
  "fs_bucket (untrackWrite a s) = fs_bucket s" "fs_prefix (untrackWrite a s) = fs_prefix s"
  "fs_world (untrackWrite a s) = fs_world s" "fs_mach (untrackWrite a s) = fs_mach s" "fs_mem (untrackWrite a s) = fs_mem s"
  "fs_disk (untrackWrite a s) = fs_disk s" "ws_files (untrackWrite a s) = ws_files s"
  by (simp_all add: untrackWrite_def)

lemma trackWrite_frame [simp]:
  "fs_bucket (trackWrite a s) = fs_bucket s" "fs_prefix (trackWrite a s) = fs_prefix s"
  "fs_world (trackWrite a s) = fs_world s" "fs_mach (trackWrite a s) = fs_mach s" "fs_mem (trackWrite a s) = fs_mem s"
  "fs_disk (trackWrite a s) = fs_disk s" "ws_files (trackWrite a s) = ws_files s"
  by (simp_all add: trackWrite_def)

text \<open>What the operations that end a handle's use keep: the tiers, and the buffers of others.\<close>

definition settles ::
    "('w \<Rightarrow> objects) \<Rightarrow> (string \<Rightarrow> bytes) \<Rightarrow> ('c \<Rightarrow> (string \<times> memEntry lruEntry) list)
       \<Rightarrow> ('d \<Rightarrow> (string \<times> diskEntry lruEntry) list)
       \<Rightarrow> writeBuf \<Rightarrow> ('w, 'c, 'd, 'z) S3FS_scheme \<Rightarrow> ('w, 'c, 'd, 'z) S3FS_scheme \<Rightarrow> bool" where
  "settles objs content mview dview b s s' \<longleftrightarrow>
     fs_ok objs content mview dview s' \<and> objs (fs_world s') = objs (fs_world s) \<and>
     fs_prefix s' = fs_prefix s \<and> fs_bucket s' = fs_bucket s \<and>
     (\<forall>b2. buf_ok dview s b2 \<longrightarrow> bufs_apart b b2 \<longrightarrow> buf_ok dview s' b2 \<and> buf_data s' b2 = buf_data s b2)"

lemma settles_trans:
  "settles objs content mview dview b s s1 \<Longrightarrow> settles objs content mview dview b s1 s2 \<Longrightarrow>
     settles objs content mview dview b s s2"
  unfolding settles_def by auto

lemma settles_same:
  "fs_ok objs content mview dview s \<Longrightarrow> fs_mem s' = fs_mem s \<Longrightarrow> fs_disk s' = fs_disk s \<Longrightarrow>
     fs_mach s' = fs_mach s \<Longrightarrow> objs (fs_world s') = objs (fs_world s) \<Longrightarrow> fs_prefix s' = fs_prefix s \<Longrightarrow>
     fs_bucket s' = fs_bucket s \<Longrightarrow> settles objs content mview dview b s s'"
  using buf_same [of s' s] by (simp add: settles_def fs_ok_def)

lemma keeps_settles:
  "fs_ok objs content mview dview s' \<Longrightarrow> objs (fs_world s') = objs (fs_world s) \<Longrightarrow> same_conf s s' \<Longrightarrow>
     keeps dview s s' \<Longrightarrow> settles objs content mview dview b s s'"
  using keeps_buf [of dview s s'] by (simp add: settles_def same_conf_def)

context s3fs
begin

abbreviation (input) settled where "settled \<equiv> settles objs content mview dview"

lemma release_settles: "ok s \<Longrightarrow> settled b s (fs_release E p h s)"
  using release_ok [of s p h] by (intro settles_same) (simp_all add: fs_release_frame)

lemma adopt_settles:
  assumes ok: "ok s" and b: "buf_ok dview s (FileBuf fb)"
    and etag: "content etag = buf_data s (FileBuf fb)"
  shows "settled (FileBuf fb) s (with_disk (disk_adopt (disk_lru E) t k etag (fb_path fb) (fb_sz fb)) s)"
proof (cases "fs_disk s")
  case None
  then show ?thesis using ok by (intro settles_same) (simp_all add: with_disk_def)
next
  case (Some c)
  let ?o = "mos (fs_mach s)"
  obtain c' o' where ad: "disk_adopt (disk_lru E) t k etag (fb_path fb) (fb_sz fb) c ?o = (c', o')"
    by (cases "disk_adopt (disk_lru E) t k etag (fb_path fb) (fb_sz fb) c ?o")
  have inv: "disk_inv dview content c ?o" using ok Some by (simp add: fs_ok_def)
  have own: "i = fb_f fb" if "dirents ?o (fb_path fb) = Some i" for i using b that by (simp add: buf_ok_def)
  have src: "inodes ?o i = content etag" if "dirents ?o (fb_path fb) = Some i" for i
    using own [OF that] etag by (simp add: buf_data_def)
  have sz: "0 \<le> fb_sz fb" using b by (simp add: buf_ok_def)
  have iv: "disk_inv dview content c' o'"
      "\<And>i. private_ino dview c ?o i \<Longrightarrow> dirents ?o (fb_path fb) \<noteq> Some i \<Longrightarrow> private_ino dview c' o' i"
    using disk.adopt_inv [OF inv ad _ sz] src by blast+
  note fr = disk.adopt_frame [OF inv ad]
  have s': "with_disk (disk_adopt (disk_lru E) t k etag (fb_path fb) (fb_sz fb)) s = set_os o' (s\<lparr>fs_disk := Some c'\<rparr>)"
    using Some ad by (simp add: with_disk_def)
  have "buf_ok dview (set_os o' (s\<lparr>fs_disk := Some c'\<rparr>)) b2 \<and>
        buf_data (set_os o' (s\<lparr>fs_disk := Some c'\<rparr>)) b2 = buf_data s b2"
    if b2: "buf_ok dview s b2" "bufs_apart (FileBuf fb) b2" for b2
  proof (cases b2)
    case (MemBuf x)
    then show ?thesis using b2(1) by (simp add: buf_ok_def buf_data_def)
  next
    case (FileBuf x)
    have x: "private_ino dview c ?o (fb_f x)" "cache_path c (fb_path x)" "fb_f x < next_ino ?o"
        "\<forall>i. dirents ?o (fb_path x) = Some i \<longrightarrow> i = fb_f x" "fb_f fb \<noteq> fb_f x"
        "fb_sz x = int (length (inodes ?o (fb_f x)))"
      using b2 FileBuf Some by (auto simp: buf_ok_def)
    have "private_ino dview c' o' (fb_f x)" using iv(2) [OF x(1)] own [of "fb_f x"] x(5) by auto
    moreover have "cache_path c' (fb_path x)" using cache_path_mono [OF x(2), of c'] fr by (simp add: disk_frame_def)
    moreover have "\<forall>i. dirents o' (fb_path x) = Some i \<longrightarrow> i = fb_f x" "fb_f x < next_ino o'"
        "inodes o' (fb_f x) = inodes ?o (fb_f x)"
      using fr x(2-4) by (auto simp: disk_frame_def)
    ultimately show ?thesis using FileBuf x(6) by (simp add: buf_ok_def buf_data_def)
  qed
  then show ?thesis using ok iv(1) s' by (auto simp: settles_def fs_ok_def set_os_def)
qed

lemma destroy_settles: "ok s \<Longrightarrow> settled b s (s\<lparr>fs_mach := buf_destroy b2 (fs_mach s)\<rparr>)"
proof (cases b2)
  case (MemBuf x)
  assume "ok s"
  then show ?thesis using MemBuf buf_same [of "s\<lparr>fs_mach := recycleData (mb_arr x) (fs_mach s)\<rparr>" s]
    by (simp add: settles_def memBuf_destroy_def fs_ok_def)
next
  case (FileBuf x)
  assume "ok s"
  then show ?thesis
    using destroy_ok [of s x] destroy_keeps [of s x] FileBuf
    by (intro keeps_settles) (simp_all add: same_conf_def)
qed

end

context s3fs
begin

lemma adopt_spill_settles:
  assumes ok: "ok s" and f: "wok s f" "\<not> wf_dirty f"
  shows "settled (wf_buf f) s (adopt_spill E f s)"
proof (cases "wf_buf f")
  case (MemBuf x)
  then show ?thesis using ok by (intro settles_same) (simp_all add: adopt_spill_def)
next
  case (FileBuf x)
  show ?thesis
  proof (cases "wf_spillETag f = ''''")
    case True
    then show ?thesis using ok FileBuf by (intro settles_same) (simp_all add: adopt_spill_def)
  next
    case False
    then have "buf_ok dview s (FileBuf x)" "content (wf_spillETag f) = buf_data s (FileBuf x)"
      using f FileBuf by (auto simp: wf_ok_def)
    from adopt_settles [OF ok this] show ?thesis using False FileBuf by (simp add: adopt_spill_def)
  qed
qed

end

lemma wfs_same: "same_conf s s' \<Longrightarrow> ws_files s' = ws_files s \<and> ws_open s' = ws_open s"
  by (cases s; cases s') (simp add: same_conf_def)

lemma adopt_spill_conf: "same_conf s (adopt_spill E f s)"
  by (simp add: adopt_spill_def split: writeBuf.split)

lemma fs_release_wfs [simp]:
  "ws_files (fs_release E p h s) = ws_files s" "ws_open (fs_release E p h s) = ws_open s"
  by (simp_all add: fs_release_def split: prod.split)

lemma wf_ok_same:
  "fs_disk s' = fs_disk s \<Longrightarrow> fs_mach s' = fs_mach s \<Longrightarrow> wf_ok content dview s' f = wf_ok content dview s f"
  using buf_same [of s' s] by (simp add: wf_ok_def)

definition untracked :: "handle \<Rightarrow> string \<Rightarrow> (string \<rightharpoonup> handle) \<Rightarrow> (string \<rightharpoonup> handle)" where
  "untracked a p m = (if m p = Some a then m(p := None) else m)"

lemma untrackWrite_open: "ws_open (untrackWrite a s) = untracked a (wf_name (ws_files s a)) (ws_open s)"
  by (simp add: untrackWrite_def untracked_def)

context s3fs
begin

lemma maybeDestroy_settles:
  "ok s \<Longrightarrow> maybeDestroyLocked f s = (f', s') \<Longrightarrow>
     settled b s s' \<and> same_conf s s' \<and> wf_closed f' = wf_closed f \<and> wf_shared f' = wf_shared f \<and> wf_name f' = wf_name f"
  using destroy_settles [of s b "wf_buf f"] settles_same [of objs content mview dview s s b]
  by (auto simp: maybeDestroyLocked_def same_conf_def split: if_splits)

lemma Close_spec:
  assumes ok: "ok s" and f: "wok s (ws_files s a)" "\<not> wf_closed (ws_files s a)"
    and op: "writeFile_Close E a s = (None, s')"
  shows "ok s'" and "fs_prefix s' = fs_prefix s"
    and "if wf_dirty (ws_files s a)
         then uploaded (store s) (key (fs_prefix s) (wf_name (ws_files s a))) (buf_data s (wf_buf (ws_files s a)))
                (wf_perm (ws_files s a)) (store s')
         else store s' = store s"
    and "wf_closed (ws_files s' a)" and "wf_name (ws_files s' a) = wf_name (ws_files s a)"
    and "h \<noteq> a \<Longrightarrow> ws_files s' h = ws_files s h"
    and "ws_open s' = untracked a (wf_name (ws_files s a)) (ws_open s)"
    and "buf_ok dview s b2 \<Longrightarrow> bufs_apart (wf_buf (ws_files s a)) b2 \<Longrightarrow>
         buf_ok dview s' b2 \<and> buf_data s' b2 = buf_data s b2"
    and "fs_nextid s \<le> fs_nextid s'"
proof -
  define f where "f = ws_files s a"
  obtain e f1 s1 where fl0: "writeFile_flush E f s = (e, f1, s1)" by (metis prod.exhaust)
  then have fl: "writeFile_flush E f s = (None, f1, s1)"
    using op f(2) by (cases e) (auto simp: writeFile_Close_def f_def Let_def)
  define f2 where "f2 = f1\<lparr>wf_closed := True\<rparr>"
  define s2 where "s2 = fs_release E (wf_name f2) a (untrackWrite a (set_wf a f2 s1))"
  define s3 where "s3 = adopt_spill E f2 s2"
  obtain f3 s4 where de: "maybeDestroyLocked f2 s3 = (f3, s4)" by (cases "maybeDestroyLocked f2 s3")
  have s': "s' = set_wf a f3 s4"
    using op f(2) fl de by (simp add: writeFile_Close_def f_def Let_def f2_def s2_def s3_def)
  note fs = flush_spec [OF ok f(1) [folded f_def] fl]
  have f1: "wf_name f1 = wf_name f" "wf_closed f1 = wf_closed f" "wf_buf f1 = wf_buf f" using fs
    by (metis writeFile.select_convs writeFile.surjective writeFile.update_convs(6) writeFile.update_convs(10))+
  have ok2: "ok (untrackWrite a (set_wf a f2 s1))" using fs by (simp add: fs_ok_def)
  have r2: "ok s2" "store s2 = store s1" "fs_mach s2 = fs_mach s1" "fs_disk s2 = fs_disk s1" "fs_prefix s2 = fs_prefix s1"
    using release_ok [OF ok2] by (simp_all add: s2_def fs_release_frame)
  have "wok s1 f1" using fs by blast
  then have "wok s2 f1" using wf_ok_same r2(3,4) by metis
  then have w2: "wok s2 f2" by (simp add: wf_ok_def f2_def)
  have t3: "settled (wf_buf f) s2 s3"
    using adopt_spill_settles [OF r2(1) w2] fs f1(3) by (simp add: s3_def f2_def)
  have t4: "settled (wf_buf f) s3 s4" "same_conf s3 s4" "wf_closed f3" "wf_name f3 = wf_name f"
    using maybeDestroy_settles [OF _ de, of "wf_buf f"] t3 f1 by (simp_all add: settles_def f2_def)
  have t: "settled (wf_buf f) s2 s4" by (rule settles_trans [OF t3 t4(1)])
  have "ok s4" using t by (simp add: settles_def)
  then show "ok s'" by (simp add: s' fs_ok_def)
  show "fs_prefix s' = fs_prefix s" using t r2(5) fs by (simp add: s' settles_def same_conf_def)
  show "if wf_dirty (ws_files s a)
        then uploaded (store s) (key (fs_prefix s) (wf_name (ws_files s a))) (buf_data s (wf_buf (ws_files s a)))
               (wf_perm (ws_files s a)) (store s')
        else store s' = store s"
    using fs t r2(2) unfolding f_def [symmetric] by (auto simp: s' settles_def)
  have c: "ws_files s4 = ws_files s2" "ws_open s4 = ws_open s2"
    using wfs_same [OF t4(2)] wfs_same [OF adopt_spill_conf [of s2 E f2]] by (simp_all add: s3_def)
  have c1: "ws_files s1 = ws_files s" "ws_open s1 = ws_open s" using wfs_same [of s s1] fs by auto
  have "fs_nextid s2 = fs_nextid s1"
    by (simp add: s2_def fs_release_def untrackWrite_def set_wf_def split: prod.split)
  then show "fs_nextid s \<le> fs_nextid s'"
    using fs t4(2) adopt_spill_conf [of s2 E f2] by (simp add: s' s3_def same_conf_def)
  show "wf_closed (ws_files s' a)" "wf_name (ws_files s' a) = wf_name (ws_files s a)"
    using t4(3,4) by (simp_all add: s' f_def)
  show "ws_files s' h = ws_files s h" if "h \<noteq> a" using that c c1 by (simp add: s' s2_def)
  show "ws_open s' = untracked a (wf_name (ws_files s a)) (ws_open s)"
    using c c1 f1(1) by (simp add: s' s2_def untrackWrite_open f2_def f_def)
  show "buf_ok dview s' b2 \<and> buf_data s' b2 = buf_data s b2"
    if b2: "buf_ok dview s b2" "bufs_apart (wf_buf (ws_files s a)) b2"
  proof -
    have "buf_ok dview s1 b2 \<and> buf_data s1 b2 = buf_data s b2" using keeps_buf [OF _ b2(1)] fs by blast
    then have "buf_ok dview s2 b2 \<and> buf_data s2 b2 = buf_data s b2" using buf_same [of s2 s1 dview b2] r2 by simp
    then show ?thesis using t b2(2) buf_same [of s' s4 dview b2] by (simp add: settles_def f_def s')
  qed
qed

end

section \<open>All writers of a filesystem\<close>

text \<open>
  A writer is live from its creation to its \<^verbatim>\<open>Close\<close>; slots whose handle number has not been
  given out hold a closed writer. Live writers are sound and have their own buffers, and the
  registry of open writers lists live writers under their names.
\<close>

definition live :: "('w, 'c, 'd, 'z) wfs_scheme \<Rightarrow> handle \<Rightarrow> bool" where
  "live s a \<longleftrightarrow> \<not> wf_closed (ws_files s a)"

definition writers_ok ::
    "(string \<Rightarrow> bytes) \<Rightarrow> ('d \<Rightarrow> (string \<times> diskEntry lruEntry) list) \<Rightarrow> ('w, 'c, 'd, 'z) wfs_scheme \<Rightarrow> bool" where
  "writers_ok content dview s \<longleftrightarrow>
     (\<forall>a. live s a \<longrightarrow> a < fs_nextid s \<and> wf_ok content dview s (ws_files s a)) \<and>
     (\<forall>a b. live s a \<longrightarrow> live s b \<longrightarrow> a \<noteq> b \<longrightarrow> bufs_apart (wf_buf (ws_files s a)) (wf_buf (ws_files s b))) \<and>
     (\<forall>p a. ws_open s p = Some a \<longrightarrow> live s a \<and> wf_name (ws_files s a) = p)"

text \<open>The view of each live writer.\<close>

definition views :: "('w, 'c, 'd, 'z) wfs_scheme \<Rightarrow> handle \<Rightarrow> (bytes \<times> nat) option" where
  "views s a = (if live s a then Some (wf_view s (ws_files s a)) else None)"

lemma wf_ok_kept:
  "wf_ok content dview s f \<Longrightarrow> buf_ok dview s' (wf_buf f) \<Longrightarrow> buf_data s' (wf_buf f) = buf_data s (wf_buf f) \<Longrightarrow>
     wf_ok content dview s' f"
  by (auto simp: wf_ok_def)

lemma bufs_apart_sym: "bufs_apart a b = bufs_apart b a"
  by (cases a; cases b) auto

lemma writers_okD:
  assumes "writers_ok content dview s" "live s a"
  shows "wf_ok content dview s (ws_files s a)" and "buf_ok dview s (wf_buf (ws_files s a))" and "\<not> wf_closed (ws_files s a)"
  using assms by (auto simp: writers_ok_def wf_ok_def live_def)

lemma writers_ok_same:
  assumes "writers_ok content dview s" "fs_disk s' = fs_disk s" "mos (fs_mach s') = mos (fs_mach s)"
    "ws_files s' = ws_files s" "ws_open s' = ws_open s" "fs_nextid s \<le> fs_nextid s'"
  shows "writers_ok content dview s'"
  using assms buf_same [of s' s dview] by (auto simp: writers_ok_def wf_ok_def live_def)

text \<open>
  The common part: writer \<open>a\<close> moves on to \<open>f'\<close>, whose buffer stays clear of the others, and
  everything else of the writers stays.
\<close>

lemma one_writer:
  assumes w: "writers_ok content dview s" and a: "ws_open s' = ws_open s"
    and s': "fs_nextid s \<le> fs_nextid s'" "\<And>h. h \<noteq> a \<Longrightarrow> ws_files s' h = ws_files s h"
    and f: "wf_name (ws_files s' a) = wf_name (ws_files s a)" "wf_closed (ws_files s' a) = wf_closed (ws_files s a)"
      "wf_ok content dview s' (ws_files s' a)"
    and k: "others_kept dview s (wf_buf (ws_files s a)) s' (wf_buf (ws_files s' a))" "live s a"
  shows "writers_ok content dview s' \<and> views s' = (views s)(a := views s' a)"
proof -
  have lv: "live s' h = live s h" for h using s' f(2) by (cases "h = a") (auto simp: live_def)
  have other: "wf_ok content dview s' (ws_files s h) \<and> buf_data s' (wf_buf (ws_files s h)) = buf_data s (wf_buf (ws_files s h)) \<and>
      bufs_apart (wf_buf (ws_files s' a)) (wf_buf (ws_files s h))" if "live s h" "h \<noteq> a" for h
  proof -
    have "buf_ok dview s (wf_buf (ws_files s h))" "bufs_apart (wf_buf (ws_files s a)) (wf_buf (ws_files s h))"
      using w that k(2) by (auto simp: writers_ok_def wf_ok_def)
    then show ?thesis using k(1) wf_ok_kept [OF writers_okD(1) [OF w that(1)], of s'] by (auto simp: others_kept_def)
  qed
  have "writers_ok content dview s'"
    unfolding writers_ok_def lv
  proof (intro conjI allI impI)
    show "wf_ok content dview s' (ws_files s' h)" "h < fs_nextid s'" if "live s h" for h
      using that f(3) other s' w by (cases "h = a"; auto simp: writers_ok_def)+
  next
    fix h h2 assume h: "live s h" "live s h2" "h \<noteq> h2"
    then show "bufs_apart (wf_buf (ws_files s' h)) (wf_buf (ws_files s' h2))"
      using other [of h] other [of h2] s'(2) w bufs_apart_sym
      by (cases "h = a"; cases "h2 = a") (auto simp: writers_ok_def)
  next
    fix p h assume h: "ws_open s' p = Some h"
    then show "live s h" "wf_name (ws_files s' h) = p"
      using w a s'(2) f(1) by (cases "h = a"; auto simp: writers_ok_def)+
  qed
  moreover have "views s' h = views s h" if "h \<noteq> a" for h
    using that other s'(2) by (simp add: views_def lv wf_view_def)
  ultimately show ?thesis by auto
qed

lemma edits_wfs: "edits objs content mview dview s f s' f' \<Longrightarrow> ws_files s' = ws_files s \<and> ws_open s' = ws_open s"
  using wfs_same [of s s'] by (simp add: edits_def)

lemma views_live: "live s a \<Longrightarrow> views s a = Some (wf_view s (ws_files s a))"
  by (simp add: views_def)

lemma wf_view_set [simp]: "wf_view (set_wf a f s) g = wf_view s g"
  by (simp add: wf_view_def buf_data_def)

lemma buf_set_wf [simp]: "buf_ok dview (set_wf a f s) b = buf_ok dview s b" "buf_data (set_wf a f s) b = buf_data s b"
  using buf_same [of "set_wf a f s" s dview b] by simp_all

context s3fs
begin

text \<open>One live writer is replaced by another state of it.\<close>

lemma replace_writer:
  assumes ok: "ok s1" and w: "writers_ok content dview s" "live s a" and c: "same_conf s s1"
    and k: "others_kept dview s (wf_buf (ws_files s a)) s1 (wf_buf f)" "wok s1 f"
    and f: "wf_name f = wf_name (ws_files s a)" "wf_closed f = wf_closed (ws_files s a)"
  shows "ok (set_wf a f s1)" and "writers_ok content dview (set_wf a f s1)"
    and "views (set_wf a f s1) = (views s)(a \<mapsto> wf_view s1 f)"
proof -
  show "ok (set_wf a f s1)" using ok by (simp add: fs_ok_def)
  have e: "writers_ok content dview (set_wf a f s1) \<and> views (set_wf a f s1) = (views s)(a := views (set_wf a f s1) a)"
    using k f wfs_same [OF c] w c by (intro one_writer [OF w(1), where a = a]) (auto simp: wf_ok_def others_kept_def same_conf_def)
  then show "writers_ok content dview (set_wf a f s1)" by blast
  have "live (set_wf a f s1) a" using w(2) f(2) by (simp add: live_def)
  then show "views (set_wf a f s1) = (views s)(a \<mapsto> wf_view s1 f)"
    using e views_live [of "set_wf a f s1" a] by simp
qed

lemma edited_writer:
  assumes w: "writers_ok content dview s" "live s a" and e: "edited s (ws_files s a) s1 f" "wok s1 f"
  shows "ok (set_wf a f s1)" and "writers_ok content dview (set_wf a f s1)"
    and "views (set_wf a f s1) = (views s)(a \<mapsto> wf_view s1 f)" and "store (set_wf a f s1) = store s"
  using replace_writer [OF _ w, of s1 f] e by (simp_all add: edits_def)

end

text \<open>
  C3: an open writer is a sequence of bytes with a position. \<^verbatim>\<open>Write\<close> (at the position, or
  at the end with \<^verbatim>\<open>O_APPEND\<close>), \<^verbatim>\<open>WriteAt\<close> and \<^verbatim>\<open>Truncate\<close>, when they succeed, change the view
  of that writer as the abstract file operations say, whether the buffer stays in memory,
  moves to a spill file on the way or fails to. The views of all other live writers, the
  bucket and the caches stay as they are, and the invariant of the writers is kept.
\<close>

theorem writers_refine_byte_files:
  assumes "s3fs E objs content rest pages mview dview" "fs_ok objs content mview dview s"
    "writers_ok content dview s" "live s a"
  shows "(writeFile_Write E p (ws_files s a) s = ((n1, None), f1, s1) \<longrightarrow>
            int64 (write_pos (ws_files s a) + int (length p)) \<longrightarrow> p \<noteq> [] \<longrightarrow>
            n1 = length p \<and> fs_ok objs content mview dview (set_wf a f1 s1) \<and> writers_ok content dview (set_wf a f1 s1) \<and>
            views (set_wf a f1 s1) =
              (views s)(a \<mapsto> file_write (appending (ws_files s a)) p (wf_view s (ws_files s a))) \<and>
            objs (fs_world s1) = objs (fs_world s)) \<and>
         (writeFile_WriteAt E p off (ws_files s a) s = ((n2, None), f2, s2) \<longrightarrow>
            int64 (off + int (length p)) \<longrightarrow> p \<noteq> [] \<longrightarrow>
            n2 = length p \<and> fs_ok objs content mview dview (set_wf a f2 s2) \<and> writers_ok content dview (set_wf a f2 s2) \<and>
            views (set_wf a f2 s2) = (views s)(a \<mapsto> file_writeAt p (nat off) (wf_view s (ws_files s a))) \<and>
            objs (fs_world s2) = objs (fs_world s)) \<and>
         (writeFile_Truncate E size0 (ws_files s a) s = (None, f3, s3) \<longrightarrow> int64 size0 \<longrightarrow>
            fs_ok objs content mview dview (set_wf a f3 s3) \<and> writers_ok content dview (set_wf a f3 s3) \<and>
            views (set_wf a f3 s3) = (views s)(a \<mapsto> file_truncate (nat size0) (wf_view s (ws_files s a))) \<and>
            objs (fs_world s3) = objs (fs_world s))"
proof (intro conjI impI)
  note f = writers_okD [OF assms(3,4)] and ew = s3fs.edited_writer [OF assms(1,3,4)]
  assume "writeFile_Write E p (ws_files s a) s = ((n1, None), f1, s1)"
    "int64 (write_pos (ws_files s a) + int (length p))" "p \<noteq> []"
  from s3fs.Write_spec [OF assms(1,2) f(1) this(2) disjI1 [OF this(3)] this(1)] ew [of s1 f1]
  show "n1 = length p" "fs_ok objs content mview dview (set_wf a f1 s1)" "writers_ok content dview (set_wf a f1 s1)"
    "views (set_wf a f1 s1) = (views s)(a \<mapsto> file_write (appending (ws_files s a)) p (wf_view s (ws_files s a)))"
    "objs (fs_world s1) = objs (fs_world s)" by simp_all
next
  note f = writers_okD [OF assms(3,4)] and ew = s3fs.edited_writer [OF assms(1,3,4)]
  assume wr: "writeFile_WriteAt E p off (ws_files s a) s = ((n2, None), f2, s2)"
    and off: "int64 (off + int (length p))" "p \<noteq> []"
  have wa: "0 \<le> off" "writeFile_writeAt E p off (ws_files s a) s = ((n2, None), f2, s2)"
    using wr f(3) by (auto simp: writeFile_WriteAt_def split: if_splits)
  from s3fs.writeAt_spec [OF assms(1,2) f(1) wa(1) off(1) disjI1 [OF off(2)] wa(2)]
    s3fs.writeAt_edits [OF assms(1,2) f(1) wa(2)] ew [of s2 f2]
  show "n2 = length p" "fs_ok objs content mview dview (set_wf a f2 s2)" "writers_ok content dview (set_wf a f2 s2)"
    "views (set_wf a f2 s2) = (views s)(a \<mapsto> file_writeAt p (nat off) (wf_view s (ws_files s a)))"
    "objs (fs_world s2) = objs (fs_world s)" by simp_all
next
  note f = writers_okD [OF assms(3,4)] and ew = s3fs.edited_writer [OF assms(1,3,4)]
  assume tr: "writeFile_Truncate E size0 (ws_files s a) s = (None, f3, s3)" and sz: "int64 size0"
  have "0 \<le> size0" using tr f(3) by (auto simp: writeFile_Truncate_def split: if_splits)
  from s3fs.Truncate_spec [OF assms(1,2) f(1,3) this sz tr] ew [of s3 f3]
  show "fs_ok objs content mview dview (set_wf a f3 s3)" "writers_ok content dview (set_wf a f3 s3)"
    "views (set_wf a f3 s3) = (views s)(a \<mapsto> file_truncate (nat size0) (wf_view s (ws_files s a)))"
    "objs (fs_world s3) = objs (fs_world s)" by simp_all
qed

section \<open>Creating, uploading and closing writers\<close>

lemma trackWrite_open:
  "ws_open (trackWrite a s) = (ws_open s)(wf_name (ws_files s a) \<mapsto> a)" "fs_nextid (trackWrite a s) = fs_nextid s"
  by (simp_all add: trackWrite_def)

lemma buf_track [simp]: "buf_ok dview (trackWrite a s) b = buf_ok dview s b" "buf_data (trackWrite a s) b = buf_data s b"
  using buf_same [of "trackWrite a s" s dview b] by simp_all

lemma Perm_less: "Perm m < 512"
  by (simp add: Perm_def)

context s3fs
begin

lemma newWriteFileBuf_spec:
  assumes ok: "ok s" and w: "writers_ok content dview s" and b: "buf_ok dview s b" "int64 (buf_len b)"
    and apart: "\<And>h. live s h \<Longrightarrow> bufs_apart b (wf_buf (ws_files s h))"
    and op: "newWriteFileBuf E p flag perm b dirty s = (a, s')"
  shows "ok s'" and "writers_ok content dview s'" and "store s' = store s"
    and "views s' = (views s)(a \<mapsto> (buf_data s b, 0))" and "ws_open s' = (ws_open s)(p \<mapsto> a)"
    and "\<not> live s a" and "h \<noteq> a \<Longrightarrow> ws_files s' h = ws_files s h" and "fs_prefix s' = fs_prefix s"
    and "live s' a" and "wf_name (ws_files s' a) = p" and "wf_flag (ws_files s' a) = flag" and "wf_dirty (ws_files s' a) = dirty"
    and "wf_perm (ws_files s' a) = Perm (if perm = 0 then defaultFileMode else perm)" and "wf_shared (ws_files s' a) = 0"
proof -
  define f where "f = \<lparr>wf_name = p, wf_flag = flag, wf_perm = Perm (if perm = 0 then defaultFileMode else perm),
    wf_buf = b, wf_pos = 0, wf_dirty = dirty, wf_closed = False, wf_shared = 0, wf_modTime = now E s, wf_spillETag = ''''\<rparr>"
  define s1 where "s1 = s\<lparr>fs_nextid := fs_nextid s + 1\<rparr>"
  obtain f1 s2 where sp: "maybeSpillLocked (buf_len b) f s1 = (f1, s2)" by (cases "maybeSpillLocked (buf_len b) f s1")
  have s': "a = fs_nextid s" "s' = trackWrite a (set_wf a f1 s2)"
    using op sp by (auto simp: newWriteFileBuf_def new_handle_def f_def s1_def Let_def)
  have b1: "buf_ok dview s1 b2 = buf_ok dview s b2" "buf_data s1 b2 = buf_data s b2" for b2
    using buf_same [of s1 s dview b2] by (simp_all add: s1_def)
  have ok1: "ok s1" using ok by (simp add: s1_def fs_ok_def)
  have wf: "wok s1 f" using b b1 Perm_less by (simp add: wf_ok_def f_def int64_def)
  note e = maybeSpill_edits [OF ok1 wf sp]
  have e1: "ok s2" "store s2 = store s1" "same_conf s1 s2" "others_kept dview s1 b s2 (wf_buf f1)"
      "wf_name f1 = p" "wf_flag f1 = flag" "wf_perm f1 = wf_perm f" "\<not> wf_closed f1" "wf_shared f1 = 0"
    using e(1) by (simp_all add: edits_def f_def)
  have fd: "wf_dirty f1 = dirty" using e(4)
    by (metis f_def writeFile.select_convs(6) writeFile.surjective writeFile.update_convs(4))
  have same: "ws_files s2 = ws_files s" "ws_open s2 = ws_open s" "fs_nextid s < fs_nextid s2" "fs_prefix s2 = fs_prefix s"
    using wfs_same [OF e1(3)] e1(3) by (simp_all add: s1_def same_conf_def)
  have fl: "ws_files s' = (ws_files s)(a := f1)" "ws_open s' = (ws_open s)(p \<mapsto> a)" "fs_nextid s' = fs_nextid s2"
    using same e1(5) by (simp_all add: s'(2) trackWrite_open set_wf_def)
  show na: "\<not> live s a" using w s'(1) by (auto simp: writers_ok_def)
  have la: "live s' h = (h = a \<or> live s h)" for h using fl(1) e1(8) by (simp add: live_def)
  have bb: "buf_ok dview s' b2 = buf_ok dview s2 b2" "buf_data s' b2 = buf_data s2 b2" for b2 by (simp_all add: s'(2))
  have other: "wf_ok content dview s' (ws_files s h) \<and> buf_data s' (wf_buf (ws_files s h)) = buf_data s (wf_buf (ws_files s h)) \<and>
      bufs_apart (wf_buf f1) (wf_buf (ws_files s h))" if "live s h" for h
    using e1(4) writers_okD(1,2) [OF w that] apart [OF that] b1 bb wf_ok_kept [of content dview s "ws_files s h" s']
    by (simp add: others_kept_def)
  have own: "wok s' f1" using e(2) wf_ok_kept [of content dview s2 f1 s'] bb by (simp add: wf_ok_def)
  show "writers_ok content dview s'"
    unfolding writers_ok_def la
  proof (intro conjI allI impI)
    show "h < fs_nextid s'" "wok s' (ws_files s' h)" if "h = a \<or> live s h" for h
      using that w own other [of h] na fl same(3) s'(1) by (cases "h = a"; auto simp: writers_ok_def)+
  next
    fix h h2 assume "h = a \<or> live s h" "h2 = a \<or> live s h2" "h \<noteq> h2"
    then show "bufs_apart (wf_buf (ws_files s' h)) (wf_buf (ws_files s' h2))"
      using other w fl(1) bufs_apart_sym by (cases "h = a"; cases "h2 = a") (auto simp: writers_ok_def)
  next
    fix q h assume "ws_open s' q = Some h"
    then show "h = a \<or> live s h" "wf_name (ws_files s' h) = q"
      using w na fl(1,2) e1(5) by (cases "q = p"; auto simp: writers_ok_def)+
  qed
  have "views s' h = (if h = a then Some (buf_data s b, 0) else views s h)" for h
    using other [of h] la e(3) fl(1) na b1 bb by (auto simp: views_def wf_view_def f_def)
  then show "views s' = (views s)(a \<mapsto> (buf_data s b, 0))" by auto
  show "ok s'" using e1(1) by (simp add: s'(2) fs_ok_def)
  show "store s' = store s" "fs_prefix s' = fs_prefix s" using e1(2) same(4) by (simp_all add: s'(2) s1_def)
  show "ws_open s' = (ws_open s)(p \<mapsto> a)" "h \<noteq> a \<Longrightarrow> ws_files s' h = ws_files s h" "live s' a" "wf_name (ws_files s' a) = p"
    "wf_flag (ws_files s' a) = flag" "wf_dirty (ws_files s' a) = dirty"
    "wf_perm (ws_files s' a) = Perm (if perm = 0 then defaultFileMode else perm)" "wf_shared (ws_files s' a) = 0"
    using fl la e1(5-9) fd by (simp_all add: f_def)
qed

lemma Close_writers:
  assumes ok: "ok s" and w: "writers_ok content dview s" "live s a" and op: "writeFile_Close E a s = (None, s')"
  shows "writers_ok content dview s'" and "views s' = (views s)(a := None)"
proof -
  note f = writers_okD [OF w] and c = Close_spec [OF ok writers_okD(1,3) [OF w] op]
  have lv: "live s' h = (h \<noteq> a \<and> live s h)" for h using c(4,6) by (cases "h = a") (auto simp: live_def)
  have other: "wf_ok content dview s' (ws_files s h) \<and> buf_data s' (wf_buf (ws_files s h)) = buf_data s (wf_buf (ws_files s h))"
    if "live s h" "h \<noteq> a" for h
  proof -
    have "bufs_apart (wf_buf (ws_files s a)) (wf_buf (ws_files s h))" using w that by (simp add: writers_ok_def)
    from c(8) [OF writers_okD(2) [OF w(1) that(1)] this] show ?thesis
      using wf_ok_kept [OF writers_okD(1) [OF w(1) that(1)]] by blast
  qed
  show "writers_ok content dview s'"
    unfolding writers_ok_def lv
  proof (intro conjI allI impI)
    show "h < fs_nextid s'" "wok s' (ws_files s' h)" if "h \<noteq> a \<and> live s h" for h
      using that other [of h] c(6,9) w(1) by (auto simp: writers_ok_def)
  next
    fix h h2 assume "h \<noteq> a \<and> live s h" "h2 \<noteq> a \<and> live s h2" "h \<noteq> h2"
    then show "bufs_apart (wf_buf (ws_files s' h)) (wf_buf (ws_files s' h2))"
      using w c(6) by (auto simp: writers_ok_def)
  next
    fix q h assume "ws_open s' q = Some h"
    then have q: "ws_open s q = Some h" "\<not> (h = a \<and> q = wf_name (ws_files s a))"
      using c(7) by (auto simp: untracked_def split: if_splits)
    then have "h \<noteq> a" "live s h" "wf_name (ws_files s h) = q" using w(1) by (auto simp: writers_ok_def)
    then show "h \<noteq> a" "live s h" "wf_name (ws_files s' h) = q" using c(6) [of h] by auto
  qed
  have "views s' h = ((views s)(a := None)) h" for h
    using other [of h] c(6) [of h] by (cases "h = a") (simp_all add: views_def lv wf_view_def)
  then show "views s' = (views s)(a := None)" by blast
qed

end

context s3fs
begin

lemma Sync_writers:
  assumes ok: "ok s" and w: "writers_ok content dview s" "live s a"
    and op: "writeFile_Sync E (ws_files s a) s = (None, f', s')"
  shows "ok (set_wf a f' s')" and "writers_ok content dview (set_wf a f' s')" and "views (set_wf a f' s') = views s"
    and "if wf_dirty (ws_files s a)
         then uploaded (store s) (key (fs_prefix s) (wf_name (ws_files s a))) (buf_data s (wf_buf (ws_files s a)))
                (wf_perm (ws_files s a)) (store s')
         else store s' = store s"
    and "\<not> wf_dirty f'"
proof -
  note f = writers_okD [OF w]
  have fl: "writeFile_flush E (ws_files s a) s = (None, f', s')" using op f(3) by (simp add: writeFile_Sync_def)
  note fs = flush_spec [OF ok f(1) fl]
  have f1: "wf_name f' = wf_name (ws_files s a)" "wf_closed f' = wf_closed (ws_files s a)" "wf_pos f' = wf_pos (ws_files s a)"
    using fs by (metis writeFile.select_convs writeFile.surjective writeFile.update_convs(6) writeFile.update_convs(10))+
  have k: "others_kept dview s (wf_buf (ws_files s a)) s' (wf_buf f')" using keeps_others fs by metis
  have fs1: "ok s'" "same_conf s s'" "wok s' f'" using fs by auto
  note r = replace_writer [OF fs1(1) w fs1(2) k fs1(3) f1(1,2)]
  show "ok (set_wf a f' s')" "writers_ok content dview (set_wf a f' s')" by (fact r(1), fact r(2))
  have "wf_buf f' = wf_buf (ws_files s a)" "buf_data s' (wf_buf f') = buf_data s (wf_buf (ws_files s a))" using fs by blast+
  then have "wf_view s' f' = wf_view s (ws_files s a)" using f1(3) by (simp add: wf_view_def)
  then show "views (set_wf a f' s') = views s" using r(3) views_live [OF w(2)] by auto
  show "if wf_dirty (ws_files s a)
         then uploaded (store s) (key (fs_prefix s) (wf_name (ws_files s a))) (buf_data s (wf_buf (ws_files s a)))
                (wf_perm (ws_files s a)) (store s')
         else store s' = store s" "\<not> wf_dirty f'" using fs by auto
qed

end

text \<open>
  C2: closing or syncing a writer uploads exactly what it holds. If the writer has unsaved
  changes, a successful \<^verbatim>\<open>Close\<close> or \<^verbatim>\<open>Sync\<close> puts one object, at the writer's key, with the
  writer's bytes and mode, from memory or from the spill file; otherwise the bucket stays as
  it is. Both caches agree with the bucket afterwards (also when the spill file is handed
  over to the disk cache), no other writer is disturbed, and a closed writer leaves the
  registry.
\<close>

theorem close_and_sync_upload_contents:
  assumes "s3fs E objs content rest pages mview dview" "fs_ok objs content mview dview s"
    "writers_ok content dview s" "live s a"
  shows "(writeFile_Close E a s = (None, s1) \<longrightarrow>
            fs_ok objs content mview dview s1 \<and> writers_ok content dview s1 \<and> views s1 = (views s)(a := None) \<and>
            (if wf_dirty (ws_files s a)
             then uploaded (objs (fs_world s)) (key (fs_prefix s) (wf_name (ws_files s a)))
                    (fst (wf_view s (ws_files s a))) (wf_perm (ws_files s a)) (objs (fs_world s1))
             else objs (fs_world s1) = objs (fs_world s))) \<and>
         (writeFile_Sync E (ws_files s a) s = (None, f2, s2) \<longrightarrow>
            fs_ok objs content mview dview (set_wf a f2 s2) \<and> writers_ok content dview (set_wf a f2 s2) \<and>
            views (set_wf a f2 s2) = views s \<and> \<not> wf_dirty f2 \<and>
            (if wf_dirty (ws_files s a)
             then uploaded (objs (fs_world s)) (key (fs_prefix s) (wf_name (ws_files s a)))
                    (fst (wf_view s (ws_files s a))) (wf_perm (ws_files s a)) (objs (fs_world s2))
             else objs (fs_world s2) = objs (fs_world s)))"
proof (intro conjI impI)
  assume cl: "writeFile_Close E a s = (None, s1)"
  note w = s3fs.Close_writers [OF assms cl] and c = s3fs.Close_spec [OF assms(1,2) writers_okD(1,3) [OF assms(3,4)] cl]
  show "fs_ok objs content mview dview s1" "writers_ok content dview s1" "views s1 = (views s)(a := None)"
    by (fact c(1), fact w(1), fact w(2))
  show "if wf_dirty (ws_files s a)
        then uploaded (objs (fs_world s)) (key (fs_prefix s) (wf_name (ws_files s a)))
               (fst (wf_view s (ws_files s a))) (wf_perm (ws_files s a)) (objs (fs_world s1))
        else objs (fs_world s1) = objs (fs_world s)" using c(3) by (simp add: wf_view_def)
next
  assume sy: "writeFile_Sync E (ws_files s a) s = (None, f2, s2)"
  note w = s3fs.Sync_writers [OF assms sy]
  show "fs_ok objs content mview dview (set_wf a f2 s2)" "writers_ok content dview (set_wf a f2 s2)"
    "views (set_wf a f2 s2) = views s" "\<not> wf_dirty f2"
    by (fact w(1), fact w(2), fact w(3), fact w(5))
  show "if wf_dirty (ws_files s a)
        then uploaded (objs (fs_world s)) (key (fs_prefix s) (wf_name (ws_files s a)))
               (fst (wf_view s (ws_files s a))) (wf_perm (ws_files s a)) (objs (fs_world s2))
        else objs (fs_world s2) = objs (fs_world s)" using w(4) by (simp add: wf_view_def)
qed

section \<open>Examples\<close>

text \<open>For evaluation, the pool's limit is compared in binary.\<close>

lemma recycleData_code [code]:
  "recycleData arr m = (if arr = [] \<or> 4194304 < int (length arr) then m else m\<lparr>dataPool := arr # dataPool m\<rparr>)"
  by (auto simp: recycleData_def maxPooledDataBytes_def)

text \<open>A filesystem with no writer yet, and one with a new writer holding a byte.\<close>

definition no_writers :: "('w, 'c, 'd) S3FS \<Rightarrow> ('w, 'c, 'd) wfs" where
  "no_writers s = S3FS.extend s
     \<lparr>ws_files = \<lambda>_. \<lparr>wf_name = '''', wf_flag = 0, wf_perm = 0, wf_buf = MemBuf \<lparr>mb_arr = [], mb_len = 0\<rparr>, wf_pos = 0,
                       wf_dirty = False, wf_closed = True, wf_shared = 0, wf_modTime = 0, wf_spillETag = ''''\<rparr>,
      ws_open = Map.empty\<rparr>"

definition demo_wfs :: "(fake, (string \<times> memEntry lruEntry) list, (string \<times> diskEntry lruEntry) list) wfs" where
  "demo_wfs = snd (newWriteFileBuf fake_env ''/x'' O_RDWR 0 (MemBuf \<lparr>mb_arr = [7], mb_len = 1\<rparr>) True (no_writers demo_fs))"

lemma no_writers_ok:
  "writers_ok content dview (no_writers s)" "\<not> live (no_writers s) h"
  "fs_ok objs content mview dview (no_writers s) = fs_ok objs content mview dview s"
  "objs (fs_world (no_writers s)) = objs (fs_world s)"
  by (simp_all add: writers_ok_def live_def no_writers_def S3FS.defs fs_ok_def)

lemma demo_wfs_ok:
  "fs_ok fake_objs tag_content (\<lambda>c. c) (\<lambda>c. c) demo_wfs" "writers_ok tag_content (\<lambda>c. c) demo_wfs" "live demo_wfs 0"
  "wf_view demo_wfs (ws_files demo_wfs 0) = ([7], 0)"
proof -
  let ?b = "MemBuf \<lparr>mb_arr = [7], mb_len = 1\<rparr>"
  have "newWriteFileBuf fake_env ''/x'' O_RDWR 0 ?b True (no_writers demo_fs) = (0, demo_wfs)"
    by (simp add: demo_wfs_def newWriteFileBuf_def Let_def new_handle_def maybeSpillLocked_def no_writers_def S3FS.defs demo_fs_def)
  note sp = fake_fs.newWriteFileBuf_spec [OF _ no_writers_ok(1) _ _ _ this]
  have pre: "fs_ok fake_objs tag_content (\<lambda>c. c) (\<lambda>c. c) (no_writers demo_fs)"
    "buf_ok (\<lambda>c. c) (no_writers demo_fs) ?b" "int64 (buf_len ?b)" "buf_data (no_writers demo_fs) ?b = [7]"
    using demo_fs_ok by (simp_all add: no_writers_ok(3) buf_ok_def buf_data_def memBuf_len_def int64_def mb_data_def)
  show "fs_ok fake_objs tag_content (\<lambda>c. c) (\<lambda>c. c) demo_wfs" "writers_ok tag_content (\<lambda>c. c) demo_wfs" "live demo_wfs 0"
    using sp(1,2,9) pre no_writers_ok(2) by blast+
  then show "wf_view demo_wfs (ws_files demo_wfs 0) = ([7], 0)"
    using sp(4) [OF pre(1-3)] pre(4) no_writers_ok(2) views_live [of demo_wfs 0] by simp
qed

theorem writers_refine_byte_files_witness:
  "\<exists>f s'. writeFile_WriteAt fake_env [5, 6] 3 (ws_files demo_wfs 0) demo_wfs = ((2, None), f, s') \<and>
     views (set_wf 0 f s') 0 = Some ([7, 0, 0, 5, 6], 0)"
proof -
  have "fst (writeFile_WriteAt fake_env [5, 6] 3 (ws_files demo_wfs 0) demo_wfs) = (2, None)" by code_simp
  then obtain f s' where w: "writeFile_WriteAt fake_env [5, 6] 3 (ws_files demo_wfs 0) demo_wfs = ((2, None), f, s')"
    by (metis prod.collapse)
  have "overlay [7] 3 [5, 6] = ([7, 0, 0, 5, 6] :: bytes)" by code_simp
  then show ?thesis
    using writers_refine_byte_files [OF fake_fs.s3fs_axioms demo_wfs_ok(1-3), of "[5, 6]" 0 f s' 3 2 f s' 0 f s'] w demo_wfs_ok(4)
    by (simp add: file_writeAt_def int64_def)
qed

theorem close_and_sync_upload_contents_witness:
  "\<exists>s'. writeFile_Close fake_env 0 demo_wfs = (None, s') \<and>
     uploaded (fake_objs (fs_world demo_fs)) ''x'' [7] defaultFileMode (fake_objs (fs_world s'))"
proof -
  have "fst (writeFile_Close fake_env 0 demo_wfs) = None" "wf_dirty (ws_files demo_wfs 0)"
    "key (fs_prefix demo_wfs) (wf_name (ws_files demo_wfs 0)) = ''x''" "wf_perm (ws_files demo_wfs 0) = defaultFileMode"
    "fs_world demo_wfs = fs_world demo_fs"
    by code_simp+
  moreover then obtain s' where c: "writeFile_Close fake_env 0 demo_wfs = (None, s')" by (metis prod.collapse)
  ultimately show ?thesis
    using close_and_sync_upload_contents [OF fake_fs.s3fs_axioms demo_wfs_ok(1-3), of s' "ws_files demo_wfs 0" demo_wfs]
      demo_wfs_ok(4) by simp
qed

text \<open>
  One with both cache tiers, whose local disk fails on its fourth call after one byte, and a
  writer used there: it writes three bytes (which spill), syncs, fails to overwrite the first
  two, and is closed.
\<close>

definition faulty_fs :: "(fake, (string \<times> memEntry lruEntry) list, (string \<times> diskEntry lruEntry) list) S3FS" where
  "faulty_fs = demo_fs\<lparr>
     fs_mem := Some (newMemCache list_lru 8 0),
     fs_disk := Some ((newDiskCache list_lru ''/t'' 1000 0)\<lparr>dc_init := Some None\<rparr>),
     fs_mach := \<lparr>mos = \<lparr>dirents = Map.empty, inodes = \<lambda>_. [], next_ino = 0, faults = [None, None, None, Some 1]\<rparr>,
                 dataPool = [], pool_picks = []\<rparr>\<rparr>"

definition on_file ::
    "handle \<Rightarrow> (writeFile \<Rightarrow> ('w, 'c, 'd, 'z) wfs_scheme \<Rightarrow> 'r \<times> writeFile \<times> ('w, 'c, 'd, 'z) wfs_scheme)
       \<Rightarrow> ('w, 'c, 'd, 'z) wfs_scheme \<Rightarrow> 'r \<times> ('w, 'c, 'd, 'z) wfs_scheme" where
  "on_file a f s = (case f (ws_files s a) s of (r, f1, s1) \<Rightarrow> (r, set_wf a f1 s1))"

definition synced_fs :: "(fake, (string \<times> memEntry lruEntry) list, (string \<times> diskEntry lruEntry) list) wfs" where
  "synced_fs =
     snd (on_file 0 (writeFile_Sync fake_env)
       (snd (on_file 0 (writeFile_Write fake_env [1, 2, 3])
         (snd (newWriteFile fake_env ''/x'' O_RDWR 0 None True (no_writers faulty_fs))))))"

definition overwritten_fs ::
    "(nat \<times> goerr option) \<times> (fake, (string \<times> memEntry lruEntry) list, (string \<times> diskEntry lruEntry) list) wfs" where
  "overwritten_fs = on_file 0 (writeFile_WriteAt fake_env [8, 9] 0) synced_fs"

definition closed_fs ::
    "goerr option \<times> (fake, (string \<times> memEntry lruEntry) list, (string \<times> diskEntry lruEntry) list) wfs" where
  "closed_fs = writeFile_Close fake_env 0 (snd overwritten_fs)"

text \<open>The body the disk cache serves for a key and an entity tag.\<close>

definition cached_body ::
    "string \<Rightarrow> string \<Rightarrow> ('w, 'c, (string \<times> diskEntry lruEntry) list, 'z) S3FS_scheme \<Rightarrow> bytes option" where
  "cached_body k t s =
     (case fs_disk s of
        None \<Rightarrow> None
      | Some c \<Rightarrow> case disk_open list_lru 0 k t c (mos (fs_mach s)) of (r, _, o1) \<Rightarrow> map_option (inodes o1) r)"


end
