(* ===== verification/S3fs.thy ===== *)
theory S3fs
  imports FileWrite
begin

text \<open>
  The filesystem methods of \<^verbatim>\<open>s3fs.go\<close>: construction from options, opening, metadata, links,
  renaming, removal and directories, over the request primitives and the file handles.
  \<^verbatim>\<open>TempFile\<close> and \<^verbatim>\<open>Chroot\<close> only wrap functions of go-billy and are left out.
\<close>

unbundle bit_operations_syntax

section \<open>Construction\<close>

text \<open>
  The options. The client, the lock backend and the presign client are not part of the
  repository: they go into the environment, together with the two LRU caches. \<open>None\<close> is the
  panic of \<^verbatim>\<open>New\<close> without a client.
\<close>

datatype ('w, 'p) Option =
    OptClient "'w Client"
  | OptPresignClient 'p
  | OptPrefix string
  | OptContext
  | OptMemCache int int
  | OptLocker "'w Locker"
  | OptDiskCache string int int

record ('w, 'c, 'd, 'p) building =
  bd_client :: "'w Client option"
  bd_presign :: "'p option"
  bd_locker :: "'w Locker option"
  bd_fs :: "('w, 'c, 'd) wfs"

fun apply_option ::
    "'c mem_gc \<Rightarrow> 'd disk_gc \<Rightarrow> ('w, 'p) Option \<Rightarrow> ('w, 'c, 'd, 'p) building \<Rightarrow> ('w, 'c, 'd, 'p) building" where
  "apply_option mgc dgc (OptClient cl) b = b\<lparr>bd_client := Some cl\<rparr>"
| "apply_option mgc dgc (OptPresignClient p) b = b\<lparr>bd_presign := Some p\<rparr>"
| "apply_option mgc dgc (OptPrefix q) b = b\<lparr>bd_fs := (bd_fs b)\<lparr>fs_prefix := WithPrefix q\<rparr>\<rparr>"
| "apply_option mgc dgc OptContext b = b"
| "apply_option mgc dgc (OptMemCache n t) b =
     (if n > 0 then b\<lparr>bd_fs := (bd_fs b)\<lparr>fs_mem := Some (newMemCache mgc n t)\<rparr>\<rparr> else b)"
| "apply_option mgc dgc (OptLocker l) b = b\<lparr>bd_locker := Some l\<rparr>"
| "apply_option mgc dgc (OptDiskCache dir n t) b =
     (if dir \<noteq> '''' \<and> n > 0 then b\<lparr>bd_fs := (bd_fs b)\<lparr>fs_disk := Some (newDiskCache dgc dir n t)\<rparr>\<rparr> else b)"

definition S3FS_New ::
    "'c mem_gc \<Rightarrow> 'd disk_gc \<Rightarrow> 'w \<Rightarrow> mach \<Rightarrow> string \<Rightarrow> ('w, 'p) Option list
       \<Rightarrow> (('w, 'c, 'd) env \<times> 'p option \<times> ('w, 'c, 'd) wfs) option" where
  "S3FS_New mgc dgc w m bucket opts =
     (let b = fold (apply_option mgc dgc) opts
                \<lparr>bd_client = None, bd_presign = None, bd_locker = None,
                 bd_fs = no_writers \<lparr>fs_bucket = bucket, fs_prefix = '''', fs_world = w, fs_mach = m, fs_mem = None,
                           fs_disk = None, fs_locks = newLockManager, fs_nextid = 0\<rparr>\<rparr>
      in map_option (\<lambda>cl. (\<lparr>client = cl, mem_lru = mgc, disk_lru = dgc, locker = bd_locker b\<rparr>, bd_presign b, bd_fs b))
           (bd_client b))"

datatype Capability =
    WriteCapability | ReadCapability | ReadAndWriteCapability | SeekCapability | TruncateCapability | LockCapability

definition Capabilities :: "Capability list" where
  "Capabilities = [WriteCapability, ReadCapability, ReadAndWriteCapability, SeekCapability, TruncateCapability,
     LockCapability]"

definition S3FS_Join :: "string list \<Rightarrow> string" where
  "S3FS_Join elem = path_Join elem"

definition S3FS_Root :: string where
  "S3FS_Root = ''/''"

section \<open>Opening\<close>

datatype File = ReadFile readOnlyFile | WriteFile handle | SharedFile sharedReadFile

text \<open>
  \<^verbatim>\<open>OpenFile\<close>, in the order of the code: a file being written in this instance
  (\<open>None\<close>: none, or it was closed in between), an existing object, a missing one.
\<close>

definition excl :: "int \<Rightarrow> bool" where
  "excl flag \<longleftrightarrow> flag AND (O_CREATE OR O_EXCL) = O_CREATE OR O_EXCL"

definition writable :: "int \<Rightarrow> bool" where
  "writable flag \<longleftrightarrow> flag AND (O_WRONLY OR O_RDWR) \<noteq> 0"

definition openLive ::
    "('w, 'c, 'd) env \<Rightarrow> string \<Rightarrow> int \<Rightarrow> ('w, 'c, 'd, 'z) wfs_scheme
       \<Rightarrow> (goerr + File) option \<times> ('w, 'c, 'd, 'z) wfs_scheme" where
  "openLive E filename flag s =
     (case lookupWrite (cleanPath filename) s of
        None \<Rightarrow> (None, s)
      | Some a \<Rightarrow>
          if excl flag then (Some (Inl (PathError ''open'' filename ErrExist)), s)
          else if \<not> writable flag then
            (case newSharedReadFile a s of
               (Some rf, s1) \<Rightarrow> (Some (Inr (SharedFile rf)), s1)
             | (None, s1) \<Rightarrow> (None, s1))
          else
            (case reopenState (flag AND O_TRUNC = 0) (ws_files s a) s of
               (Inl err, s1) \<Rightarrow> (Some (Inl err), s1)
             | (Inr (Some (wfPerm, data)), s1) \<Rightarrow>
                 (case newWriteFile E (cleanPath filename) flag wfPerm data True s1 of
                    (h, s2) \<Rightarrow> (Some (Inr (WriteFile h)), s2))
             | (Inr None, s1) \<Rightarrow> (None, s1)))"

definition openForRead ::
    "('w, 'c, 'd) env \<Rightarrow> string \<Rightarrow> HeadObjectOutput \<Rightarrow> GetObjectOutput option \<Rightarrow> ('w, 'c, 'd, 'z) S3FS_scheme
       \<Rightarrow> (goerr + readOnlyFile) \<times> ('w, 'c, 'd, 'z) S3FS_scheme" where
  "openForRead E p h g s =
     (case g of
        Some gg \<Rightarrow> openFromGet E p h gg s
      | None \<Rightarrow>
          (case cachedOpen E p h s of
             (Inl err, s1) \<Rightarrow> (Inl err, s1)
           | (Inr (Some f), s1) \<Rightarrow> (Inr f, s1)
           | (Inr None, s1) \<Rightarrow> (case newReadFile p h None s1 of (f, s2) \<Rightarrow> (Inr f, s2))))"

definition openForWrite ::
    "('w, 'c, 'd) env \<Rightarrow> string \<Rightarrow> string \<Rightarrow> int \<Rightarrow> HeadObjectOutput \<Rightarrow> GetObjectOutput option
       \<Rightarrow> ('w, 'c, 'd, 'z) wfs_scheme \<Rightarrow> (goerr + handle) \<times> ('w, 'c, 'd, 'z) wfs_scheme" where
  "openForWrite E filename p flag h g s =
     (if flag AND O_TRUNC \<noteq> 0
      then (case newWriteFile E p flag (modeFromHead h) None True s of (a, s1) \<Rightarrow> (Inr a, s1))
      else case (case g of Some gg \<Rightarrow> bufFromGet h gg s | None \<Rightarrow> bufForExisting E p h s) of
        (Inl err, s1) \<Rightarrow> (Inl (if isNotFound err then PathError ''open'' filename ErrNotExist else err), s1)
      | (Inr buf, s1) \<Rightarrow> (case newWriteFileBuf E p flag (modeFromHead h) buf False s1 of (a, s2) \<Rightarrow> (Inr a, s2)))"

definition openMissing ::
    "('w, 'c, 'd) env \<Rightarrow> string \<Rightarrow> string \<Rightarrow> int \<Rightarrow> FileMode \<Rightarrow> ('w, 'c, 'd, 'z) wfs_scheme
       \<Rightarrow> (goerr + handle) \<times> ('w, 'c, 'd, 'z) wfs_scheme" where
  "openMissing E filename p flag perm s =
     (case dirExists E p s of
        (Inl err, s1) \<Rightarrow> (Inl err, s1)
      | (Inr True, s1) \<Rightarrow> (Inl (PathError ''open'' filename ErrIsDirectory), s1)
      | (Inr False, s1) \<Rightarrow>
          if flag AND O_CREATE = 0 then (Inl (PathError ''open'' filename ErrNotExist), s1)
          else (case newWriteFile E p flag perm None True s1 of (a, s2) \<Rightarrow> (Inr a, s2)))"

definition openResolve ::
    "('w, 'c, 'd) env \<Rightarrow> string \<Rightarrow> int \<Rightarrow> ('w, 'c, 'd, 'z) S3FS_scheme
       \<Rightarrow> (string \<times> HeadObjectOutput option \<times> GetObjectOutput option \<times> nat \<times> goerr option)
           \<times> ('w, 'c, 'd, 'z) S3FS_scheme" where
  "openResolve E filename flag s =
     (if flag AND O_TRUNC = 0 then resolveForRead E ''open'' filename s
      else case resolve E ''open'' filename s of ((p, h, hops, err), s1) \<Rightarrow> ((p, h, None, hops, err), s1))"

definition wrap_file :: "('a \<Rightarrow> File) \<Rightarrow> (goerr + 'a) \<times> 's \<Rightarrow> (goerr + File) \<times> 's" where
  "wrap_file f r = (case r of (Inl err, s) \<Rightarrow> (Inl err, s) | (Inr a, s) \<Rightarrow> (Inr (f a), s))"

definition openObject ::
    "('w, 'c, 'd) env \<Rightarrow> string \<Rightarrow> int \<Rightarrow> FileMode \<Rightarrow> ('w, 'c, 'd, 'z) wfs_scheme
       \<Rightarrow> (goerr + File) \<times> ('w, 'c, 'd, 'z) wfs_scheme" where
  "openObject E filename flag perm s =
     (case openResolve E filename flag s of
        ((p, h, g, hops, Some err), s1) \<Rightarrow> (Inl err, s1)
      | ((p, h, g, hops, None), s1) \<Rightarrow>
          if p = ''/'' then (Inl (PathError ''open'' filename ErrIsDirectory), s1)
          else if excl flag \<and> (h \<noteq> None \<or> hops > 0) then (Inl (PathError ''open'' filename ErrExist), s1)
          else case h of
            Some ho \<Rightarrow>
              if \<not> writable flag then wrap_file ReadFile (openForRead E p ho g s1)
              else wrap_file WriteFile (openForWrite E filename p flag ho g s1)
          | None \<Rightarrow> wrap_file WriteFile (openMissing E filename p flag perm s1))"

definition OpenFile ::
    "('w, 'c, 'd) env \<Rightarrow> string \<Rightarrow> int \<Rightarrow> FileMode \<Rightarrow> ('w, 'c, 'd, 'z) wfs_scheme
       \<Rightarrow> (goerr + File) \<times> ('w, 'c, 'd, 'z) wfs_scheme" where
  "OpenFile E filename flag perm s =
     (case openLive E filename flag s of
        (Some r, s1) \<Rightarrow> (r, s1)
      | (None, s1) \<Rightarrow> openObject E filename flag perm s1)"

definition S3FS_Create ::
    "('w, 'c, 'd) env \<Rightarrow> string \<Rightarrow> ('w, 'c, 'd, 'z) wfs_scheme \<Rightarrow> (goerr + File) \<times> ('w, 'c, 'd, 'z) wfs_scheme" where
  "S3FS_Create E filename s = OpenFile E filename (O_RDWR OR O_CREATE OR O_TRUNC) defaultFileMode s"

definition S3FS_Open ::
    "('w, 'c, 'd) env \<Rightarrow> string \<Rightarrow> ('w, 'c, 'd, 'z) wfs_scheme \<Rightarrow> (goerr + File) \<times> ('w, 'c, 'd, 'z) wfs_scheme" where
  "S3FS_Open E filename s = OpenFile E filename O_RDONLY 0 s"

section \<open>Metadata and links\<close>

definition dirInfo :: "string \<Rightarrow> fileInfo" where
  "dirInfo name = \<lparr>fi_name = name, fi_size = 0, fi_mode = defaultDirMode, fi_modTime = 0\<rparr>"

text \<open>The end of \<^verbatim>\<open>Stat\<close> and \<^verbatim>\<open>Lstat\<close>: a directory, or nothing.\<close>

definition statDir ::
    "('w, 'c, 'd) env \<Rightarrow> string \<Rightarrow> string \<Rightarrow> string \<Rightarrow> ('w, 'c, 'd, 'z) S3FS_scheme
       \<Rightarrow> (goerr + fileInfo) \<times> ('w, 'c, 'd, 'z) S3FS_scheme" where
  "statDir E opn filename p s =
     (case dirExists E p s of
        (Inl err, s1) \<Rightarrow> (Inl err, s1)
      | (Inr True, s1) \<Rightarrow> (Inr (dirInfo (path_Base p)), s1)
      | (Inr False, s1) \<Rightarrow> (Inl (PathError opn filename ErrNotExist), s1))"

definition liveInfo :: "string \<Rightarrow> ('w, 'c, 'd, 'z) wfs_scheme \<Rightarrow> fileInfo option" where
  "liveInfo filename s = Option.bind (lookupWrite (cleanPath filename) s) (\<lambda>a. statIfOpen (ws_files s a))"

definition S3FS_Stat ::
    "('w, 'c, 'd) env \<Rightarrow> string \<Rightarrow> ('w, 'c, 'd, 'z) wfs_scheme \<Rightarrow> (goerr + fileInfo) \<times> ('w, 'c, 'd, 'z) wfs_scheme" where
  "S3FS_Stat E filename s =
     (case liveInfo filename s of
        Some fi \<Rightarrow> (Inr fi, s)
      | None \<Rightarrow>
          (case resolve E ''stat'' filename s of
             ((p, h, _, Some err), s1) \<Rightarrow> (Inl err, s1)
           | ((p, h, _, None), s1) \<Rightarrow>
               if p = ''/'' then (Inr (dirInfo ''/''), s1)
               else case h of
                 Some ho \<Rightarrow> (Inr (infoFromHead (path_Base p) ho), s1)
               | None \<Rightarrow> statDir E ''stat'' filename p s1))"

definition S3FS_Lstat ::
    "('w, 'c, 'd) env \<Rightarrow> string \<Rightarrow> ('w, 'c, 'd, 'z) S3FS_scheme
       \<Rightarrow> (goerr + fileInfo) \<times> ('w, 'c, 'd, 'z) S3FS_scheme" where
  "S3FS_Lstat E filename s =
     (let p = cleanPath filename
      in if p = ''/'' then (Inr (dirInfo ''/''), s)
         else case S3FS_head E (key (fs_prefix s) p) s of
           (Inr h, s1) \<Rightarrow>
             (case symlinkTarget (Some h) of
                Some target \<Rightarrow>
                  (Inr \<lparr>fi_name = path_Base p, fi_size = int (length target), fi_mode = ModeSymlink + 511,
                        fi_modTime = ToTime (LastModified h)\<rparr>, s1)
              | None \<Rightarrow> (Inr (infoFromHead (path_Base p) h), s1))
         | (Inl err, s1) \<Rightarrow> if \<not> isNotFound err then (Inl err, s1) else statDir E ''lstat'' filename p s1)"

definition S3FS_Symlink ::
    "('w, 'c, 'd) env \<Rightarrow> string \<Rightarrow> string \<Rightarrow> ('w, 'c, 'd, 'z) S3FS_scheme
       \<Rightarrow> goerr option \<times> ('w, 'c, 'd, 'z) S3FS_scheme" where
  "S3FS_Symlink E target link s =
     (let p = cleanPath link
      in if p = ''/'' then (Some (LinkError ''symlink'' target link ErrExist), s)
         else case S3FS_head E (key (fs_prefix s) p) s of
           (Inr _, s1) \<Rightarrow> (Some (LinkError ''symlink'' target link ErrExist), s1)
         | (Inl err, s1) \<Rightarrow>
             if \<not> isNotFound err then (Some err, s1)
             else case dirExists E p s1 of
               (Inl e, s2) \<Rightarrow> (Some e, s2)
             | (Inr True, s2) \<Rightarrow> (Some (LinkError ''symlink'' target link ErrExist), s2)
             | (Inr False, s2) \<Rightarrow>
                 S3FS_put E (key (fs_prefix s2) p) None [(symlinkMetaKey, QueryEscape target)] s2)"

definition S3FS_Readlink ::
    "('w, 'c, 'd) env \<Rightarrow> string \<Rightarrow> ('w, 'c, 'd, 'z) S3FS_scheme
       \<Rightarrow> (goerr + string) \<times> ('w, 'c, 'd, 'z) S3FS_scheme" where
  "S3FS_Readlink E link s =
     (case S3FS_head E (key (fs_prefix s) (cleanPath link)) s of
        (Inl err, s1) \<Rightarrow> (Inl (if isNotFound err then PathError ''readlink'' link ErrNotExist else err), s1)
      | (Inr h, s1) \<Rightarrow>
          (case symlinkTarget (Some h) of
             None \<Rightarrow> (Inl (PathError ''readlink'' link ErrInvalid), s1)
           | Some target \<Rightarrow> (Inr target, s1)))"

section \<open>Renaming and removing\<close>

fun copyAll ::
    "('w, 'c, 'd) env \<Rightarrow> string \<Rightarrow> string \<Rightarrow> string list \<Rightarrow> ('w, 'c, 'd, 'z) S3FS_scheme
       \<Rightarrow> goerr option \<times> ('w, 'c, 'd, 'z) S3FS_scheme" where
  "copyAll E oldPrefix newPrefix [] s = (None, s)"
| "copyAll E oldPrefix newPrefix (k # ks) s =
     (case S3FS_copy E k (newPrefix @ TrimPrefix k oldPrefix) s of
        (Some err, s1) \<Rightarrow> (Some err, s1)
      | (None, s1) \<Rightarrow> copyAll E oldPrefix newPrefix ks s1)"

fun deleteAll ::
    "('w, 'c, 'd) env \<Rightarrow> string list \<Rightarrow> ('w, 'c, 'd, 'z) S3FS_scheme
       \<Rightarrow> goerr option \<times> ('w, 'c, 'd, 'z) S3FS_scheme" where
  "deleteAll E [] s = (None, s)"
| "deleteAll E (k # ks) s =
     (case S3FS_delete E k s of
        (Some err, s1) \<Rightarrow> (Some err, s1)
      | (None, s1) \<Rightarrow> deleteAll E ks s1)"

definition renameSame ::
    "('w, 'c, 'd) env \<Rightarrow> string \<Rightarrow> string \<Rightarrow> string \<Rightarrow> ('w, 'c, 'd, 'z) S3FS_scheme
       \<Rightarrow> goerr option \<times> ('w, 'c, 'd, 'z) S3FS_scheme" where
  "renameSame E oldpath newpath p s =
     (case S3FS_head E (key (fs_prefix s) p) s of
        (Inr _, s1) \<Rightarrow> (None, s1)
      | (Inl err, s1) \<Rightarrow>
          if \<not> isNotFound err then (Some err, s1)
          else case dirExists E p s1 of
            (Inl e, s2) \<Rightarrow> (Some e, s2)
          | (Inr True, s2) \<Rightarrow> (None, s2)
          | (Inr False, s2) \<Rightarrow> (Some (LinkError ''rename'' oldpath newpath ErrNotExist), s2))"

definition renameDir ::
    "('w, 'c, 'd) env \<Rightarrow> nat \<Rightarrow> string \<Rightarrow> string \<Rightarrow> string \<Rightarrow> string \<Rightarrow> ('w, 'c, 'd, 'z) S3FS_scheme
       \<Rightarrow> (goerr option \<times> ('w, 'c, 'd, 'z) S3FS_scheme) option" where
  "renameDir E fuel oldpath newpath oldp newp s =
     (if HasPrefix (newp @ ''/'') (oldp @ ''/'') then Some (Some (LinkError ''rename'' oldpath newpath ErrInvalid), s)
      else case listAllKeys E fuel (listPrefix (fs_prefix s) oldp) s of
        None \<Rightarrow> None
      | Some (Inl err, s1) \<Rightarrow> Some (Some err, s1)
      | Some (Inr ks, s1) \<Rightarrow>
          (case copyAll E (listPrefix (fs_prefix s1) oldp) (listPrefix (fs_prefix s1) newp) ks s1 of
             (Some err, s2) \<Rightarrow> Some (Some err, s2)
           | (None, s2) \<Rightarrow> Some (deleteAll E ks s2)))"

definition S3FS_Rename ::
    "('w, 'c, 'd) env \<Rightarrow> nat \<Rightarrow> string \<Rightarrow> string \<Rightarrow> ('w, 'c, 'd, 'z) S3FS_scheme
       \<Rightarrow> (goerr option \<times> ('w, 'c, 'd, 'z) S3FS_scheme) option" where
  "S3FS_Rename E fuel oldpath newpath s =
     (let oldp = cleanPath oldpath; newp = cleanPath newpath
      in if oldp = ''/'' then Some (Some ErrBaseDirCannotBeRenamed, s)
         else if newp = ''/'' then Some (Some (LinkError ''rename'' oldpath newpath ErrExist), s)
         else if oldp = newp then Some (renameSame E oldpath newpath oldp s)
         else case S3FS_head E (key (fs_prefix s) oldp) s of
           (Inr _, s1) \<Rightarrow>
             (case S3FS_copy E (key (fs_prefix s1) oldp) (key (fs_prefix s1) newp) s1 of
                (Some err, s2) \<Rightarrow> Some (Some err, s2)
              | (None, s2) \<Rightarrow> Some (S3FS_delete E (key (fs_prefix s2) oldp) s2))
         | (Inl err, s1) \<Rightarrow>
             if \<not> isNotFound err then Some (Some err, s1)
             else case dirExists E oldp s1 of
               (Inl e, s2) \<Rightarrow> Some (Some e, s2)
             | (Inr False, s2) \<Rightarrow> Some (Some (LinkError ''rename'' oldpath newpath ErrNotExist), s2)
             | (Inr True, s2) \<Rightarrow> renameDir E fuel oldpath newpath oldp newp s2)"

definition removeDir ::
    "('w, 'c, 'd) env \<Rightarrow> string \<Rightarrow> string \<Rightarrow> ('w, 'c, 'd, 'z) S3FS_scheme
       \<Rightarrow> goerr option \<times> ('w, 'c, 'd, 'z) S3FS_scheme" where
  "removeDir E filename pre s =
     (case request (ListObjectsV2 (client E)
             \<lparr>list_Bucket = fs_bucket s, list_Prefix = pre, list_Delimiter = None,
              list_MaxKeys = Some 2, list_ContinuationToken = None\<rparr>) s of
        (Inl err, s1) \<Rightarrow> (Some err, s1)
      | (Inr out, s1) \<Rightarrow>
          if ToBool (IsTruncated out) then (Some (PathError ''remove'' filename ErrDirNotEmpty), s1)
          else if Contents out = [] then (Some (PathError ''remove'' filename ErrNotExist), s1)
          else if list_ex (\<lambda>x. ToString (obj_Key x) \<noteq> pre) (Contents out)
          then (Some (PathError ''remove'' filename ErrDirNotEmpty), s1)
          else S3FS_delete E pre s1)"

definition S3FS_Remove ::
    "('w, 'c, 'd) env \<Rightarrow> string \<Rightarrow> ('w, 'c, 'd, 'z) S3FS_scheme
       \<Rightarrow> goerr option \<times> ('w, 'c, 'd, 'z) S3FS_scheme" where
  "S3FS_Remove E filename s =
     (let p = cleanPath filename
      in if p = ''/'' then (Some ErrBaseDirCannotBeRemoved, s)
         else case S3FS_head E (key (fs_prefix s) p) s of
           (Inr _, s1) \<Rightarrow> S3FS_delete E (key (fs_prefix s1) p) s1
         | (Inl err, s1) \<Rightarrow>
             if \<not> isNotFound err then (Some err, s1)
             else removeDir E filename (listPrefix (fs_prefix s1) p) s1)"

section \<open>Directories\<close>

text \<open>\<^verbatim>\<open>byName\<close> is an association list; its order does not matter, as the entries are sorted.\<close>

type_synonym byName = "(string \<times> dirEntry) list"

definition addDir :: "string \<Rightarrow> byName \<Rightarrow> byName" where
  "addDir name m =
     (if name = '''' \<or> map_of m name \<noteq> None then m else AList.update name \<lparr>de_info = dirInfo name\<rparr> m)"

definition addObject :: "string \<Rightarrow> s3_Object \<Rightarrow> byName \<Rightarrow> byName" where
  "addObject pre ob m =
     (let name = TrimPrefix (ToString (obj_Key ob)) pre
      in if name = '''' then m
         else case CutSuffix name ''/'' of
           Some dir \<Rightarrow> addDir dir m
         | None \<Rightarrow>
             AList.update name
               \<lparr>de_info = \<lparr>fi_name = name, fi_size = ToInt64 (obj_Size ob), fi_mode = defaultFileMode,
                           fi_modTime = ToTime (obj_LastModified ob)\<rparr>\<rparr> m)"

definition addPage :: "string \<Rightarrow> ListObjectsV2Output \<Rightarrow> byName \<Rightarrow> byName" where
  "addPage pre out m =
     fold (\<lambda>cp. addDir (TrimSuffix (TrimPrefix cp pre) ''/'')) (CommonPrefixes out)
       (fold (addObject pre) (Contents out) m)"

fun readDirLoop ::
    "('w, 'c, 'd) env \<Rightarrow> nat \<Rightarrow> ListObjectsV2Input \<Rightarrow> bool \<Rightarrow> byName \<Rightarrow> ('w, 'c, 'd, 'z) S3FS_scheme
       \<Rightarrow> ((goerr + bool \<times> byName) \<times> ('w, 'c, 'd, 'z) S3FS_scheme) option" where
  "readDirLoop E 0 inp found m s = None"
| "readDirLoop E (Suc fuel) inp found m s =
     (case request (ListObjectsV2 (client E) inp) s of
        (Inl err, s1) \<Rightarrow> Some (Inl err, s1)
      | (Inr out, s1) \<Rightarrow>
          let found1 = (found \<or> Contents out \<noteq> [] \<or> CommonPrefixes out \<noteq> []);
              m1 = addPage (list_Prefix inp) out m
          in if ToBool (IsTruncated out)
             then readDirLoop E fuel (inp\<lparr>list_ContinuationToken := NextContinuationToken out\<rparr>) found1 m1 s1
             else Some (Inr (found1, m1), s1))"

definition listDir ::
    "('w, 'c, 'd) env \<Rightarrow> nat \<Rightarrow> string \<Rightarrow> string \<Rightarrow> ('w, 'c, 'd, 'z) S3FS_scheme
       \<Rightarrow> ((goerr + dirEntry list) \<times> ('w, 'c, 'd, 'z) S3FS_scheme) option" where
  "listDir E fuel p rp s =
     (case readDirLoop E fuel \<lparr>list_Bucket = fs_bucket s, list_Prefix = listPrefix (fs_prefix s) rp,
             list_Delimiter = Some ''/'', list_MaxKeys = None, list_ContinuationToken = None\<rparr> False [] s of
        None \<Rightarrow> None
      | Some (Inl err, s1) \<Rightarrow> Some (Inl err, s1)
      | Some (Inr (found, m), s1) \<Rightarrow>
          if \<not> found \<and> rp \<noteq> ''/'' then Some (Inl (PathError ''open'' p ErrNotExist), s1)
          else Some (Inr (sort_key dirEntry_Name (map snd m)), s1))"

definition S3FS_ReadDir ::
    "('w, 'c, 'd) env \<Rightarrow> nat \<Rightarrow> string \<Rightarrow> ('w, 'c, 'd, 'z) S3FS_scheme
       \<Rightarrow> ((goerr + dirEntry list) \<times> ('w, 'c, 'd, 'z) S3FS_scheme) option" where
  "S3FS_ReadDir E fuel p s =
     (case resolve E ''open'' p s of
        ((rp, h, _, Some err), s1) \<Rightarrow> Some (Inl err, s1)
      | ((rp, h, _, None), s1) \<Rightarrow>
          if h \<noteq> None then Some (Inl (PathError ''open'' p ErrNotADirectory), s1)
          else listDir E fuel p rp s1)"

definition S3FS_MkdirAll ::
    "('w, 'c, 'd) env \<Rightarrow> string \<Rightarrow> FileMode \<Rightarrow> ('w, 'c, 'd, 'z) S3FS_scheme
       \<Rightarrow> goerr option \<times> ('w, 'c, 'd, 'z) S3FS_scheme" where
  "S3FS_MkdirAll E p perm s =
     (case resolve E ''mkdir'' p s of
        ((rp, h, _, Some err), s1) \<Rightarrow> (Some err, s1)
      | ((rp, h, _, None), s1) \<Rightarrow>
          if rp = ''/'' then (None, s1)
          else if h \<noteq> None then (Some (PathError ''mkdir'' p ErrNotADirectory), s1)
          else case dirExists E rp s1 of
            (Inl err, s2) \<Rightarrow> (Some err, s2)
          | (Inr True, s2) \<Rightarrow> (None, s2)
          | (Inr False, s2) \<Rightarrow> S3FS_put E (listPrefix (fs_prefix s2) rp) None [] s2)"

section \<open>A filesystem with its writers\<close>

definition sys_ok ::
    "('w \<Rightarrow> objects) \<Rightarrow> (string \<Rightarrow> bytes) \<Rightarrow> ('c \<Rightarrow> (string \<times> memEntry lruEntry) list)
       \<Rightarrow> ('d \<Rightarrow> (string \<times> diskEntry lruEntry) list) \<Rightarrow> ('w, 'c, 'd, 'z) wfs_scheme \<Rightarrow> bool" where
  "sys_ok objs content mview dview s \<longleftrightarrow> fs_ok objs content mview dview s \<and> writers_ok content dview s"

lemma same_confD:
  "same_conf s s' \<Longrightarrow> fs_prefix s' = fs_prefix s" "same_conf s s' \<Longrightarrow> fs_bucket s' = fs_bucket s"
  by (simp_all add: same_conf_def)

text \<open>Operations that only read leave the writers as they are.\<close>

lemma kept_writers:
  assumes w: "writers_ok content dview s" and c: "same_conf s s'" "keeps dview s s'"
  shows "writers_ok content dview s'" and "views s' = views s" and "ws_files s' = ws_files s" and "ws_open s' = ws_open s"
proof -
  have f: "ws_files s' = ws_files s" "ws_open s' = ws_open s" "fs_nextid s \<le> fs_nextid s'"
    using wfs_same [OF c(1)] c(1) unfolding same_conf_def by blast+
  have k: "buf_ok dview s' b \<and> buf_data s' b = buf_data s b" if "buf_ok dview s b" for b
    using keeps_buf [OF c(2) that] by blast
  have lv: "live s' h = live s h" for h by (simp add: live_def f)
  have wf: "wf_ok content dview s' (ws_files s h)" if "live s h" for h
    using wf_ok_kept [OF writers_okD(1) [OF w that]] k [OF writers_okD(2) [OF w that]] by blast
  have "h < fs_nextid s'" if "live s h" for h using w that f(3) unfolding writers_ok_def by (meson order_less_le_trans)
  then show "writers_ok content dview s'" using w wf by (simp add: writers_ok_def lv f(1,2))
  have "views s' h = views s h" for h
    using k [OF writers_okD(2) [OF w], of h] by (cases "live s h") (simp_all add: views_def lv wf_view_def f(1))
  then show "views s' = views s" by blast
  show "ws_files s' = ws_files s" "ws_open s' = ws_open s" by (fact f)+
qed

lemma calm_writers:
  assumes "writers_ok content dview s" "calm objs content mview dview s s'"
  shows "writers_ok content dview s'" "views s' = views s" "ws_files s' = ws_files s" "ws_open s' = ws_open s"
  using kept_writers [OF assms(1) calmD(3,4) [OF assms(2)]] by blast+

lemma calm_sys:
  "sys_ok objs content mview dview s \<Longrightarrow> calm objs content mview dview s s' \<Longrightarrow> sys_ok objs content mview dview s'"
  unfolding sys_ok_def using calm_writers(1) calmD(1) by blast

section \<open>Construction\<close>

definition os_ok :: "osfs \<Rightarrow> bool" where
  "os_ok s \<longleftrightarrow> (\<forall>p i. dirents s p = Some i \<longrightarrow> i < next_ino s)"

definition new_ok ::
    "('w \<Rightarrow> objects) \<Rightarrow> (string \<Rightarrow> bytes) \<Rightarrow> ('c \<Rightarrow> (string \<times> memEntry lruEntry) list)
       \<Rightarrow> ('d \<Rightarrow> (string \<times> diskEntry lruEntry) list) \<Rightarrow> ('w, 'c, 'd, 'z) wfs_scheme \<Rightarrow> bool" where
  "new_ok objs content mview dview s \<longleftrightarrow>
     fs_ok objs content mview dview s \<and> os_ok (mos (fs_mach s)) \<and> (\<forall>h. \<not> live s h) \<and> ws_open s = Map.empty"

lemma live_same [simp]:
  "live (s\<lparr>fs_prefix := p\<rparr>) h = live s h" "live (s\<lparr>fs_mem := mc\<rparr>) h = live s h" "live (s\<lparr>fs_disk := dc\<rparr>) h = live s h"
  by (simp_all add: live_def)

lemma new_sys: "new_ok objs content mview dview s \<Longrightarrow> sys_ok objs content mview dview s \<and> \<not> live s h"
  by (simp add: new_ok_def sys_ok_def writers_ok_def)

context s3fs
begin

lemma newDiskCache_inv: "dir \<noteq> '''' \<Longrightarrow> 0 \<le> n \<Longrightarrow> os_ok o1 \<Longrightarrow> disk_inv dview content (newDiskCache (disk_lru E) dir n t) o1"
  by (simp add: disk_inv_def newDiskCache_def newLRUIndex_def lru_inv_def lru_entries_def disk.view_New os_ok_def)

lemma apply_option_ok:
  "new_ok objs content mview dview (bd_fs b) \<Longrightarrow>
     new_ok objs content mview dview (bd_fs (apply_option (mem_lru E) (disk_lru E) opt b))"
proof (cases opt)
  case (OptMemCache n t)
  assume "new_ok objs content mview dview (bd_fs b)"
  then show ?thesis using OptMemCache mem.newMemCache_ok [of n "store (bd_fs b)" t] by (auto simp: new_ok_def fs_ok_def)
next
  case (OptDiskCache dir n t)
  assume "new_ok objs content mview dview (bd_fs b)"
  then show ?thesis
    using OptDiskCache newDiskCache_inv [of dir n "mos (fs_mach (bd_fs b))" t] by (auto simp: new_ok_def fs_ok_def)
qed (auto simp: new_ok_def fs_ok_def)

lemma apply_options_ok:
  "new_ok objs content mview dview (bd_fs b) \<Longrightarrow>
     new_ok objs content mview dview (bd_fs (fold (apply_option (mem_lru E) (disk_lru E)) opts b))"
  by (induction opts arbitrary: b) (simp_all add: apply_option_ok)

end

text \<open>
  C17: a new filesystem is in order. Whatever the options and their order, \<^verbatim>\<open>New\<close> either
  panics, exactly when no option sets a client, or yields a state that satisfies the
  invariant all operations rely on and keep: empty caches, a cleaned prefix, no open writer.
\<close>

theorem new_filesystem_in_order:
  assumes "S3FS_New mgc dgc w m bucket opts = Some (E, pc, s)" "s3fs E objs content rest pages mview dview"
    "CHR ''%'' \<notin> set bucket" "os_ok (mos m)"
  shows "sys_ok objs content mview dview s \<and> \<not> live s h"
proof -
  let ?b = "\<lparr>bd_client = None, bd_presign = None, bd_locker = None,
     bd_fs = no_writers \<lparr>fs_bucket = bucket, fs_prefix = '''', fs_world = w, fs_mach = m, fs_mem = None,
               fs_disk = None, fs_locks = newLockManager, fs_nextid = 0\<rparr>\<rparr>"
  have E: "mem_lru E = mgc" "disk_lru E = dgc" "s = bd_fs (fold (apply_option mgc dgc) opts ?b)"
    using assms(1) by (auto simp: S3FS_New_def Let_def)
  have "WithPrefix '''' = ''''" by code_simp
  then have "\<exists>p. '''' = WithPrefix p" by metis
  then have "new_ok objs content mview dview (bd_fs ?b)"
    using assms(3,4) no_writers_ok(2) by (simp add: new_ok_def no_writers_ok fs_ok_def) (simp add: no_writers_def S3FS.defs)
  from new_sys [OF s3fs.apply_options_ok [OF assms(2) this [folded E(1,2)], of opts]] show ?thesis using E by simp
qed

theorem new_filesystem_in_order_witness:
  "\<exists>E pc s. S3FS_New list_lru list_lru (fs_world demo_fs) demo_disk_mach ''b''
       [OptClient fake_client, OptPrefix ''/a/../p/'', OptMemCache 100 0, OptDiskCache ''/t'' 1000 0] = Some (E, pc :: unit option, s) \<and>
     sys_ok fake_objs tag_content (\<lambda>c. c) (\<lambda>c. c) s \<and> fs_prefix s = ''p''"
proof -
  let ?n = "S3FS_New list_lru list_lru (fs_world demo_fs) demo_disk_mach ''b''
       [OptClient fake_client, OptPrefix ''/a/../p/'', OptMemCache 100 0, OptDiskCache ''/t'' 1000 0] ::
     ((fake, (string \<times> memEntry lruEntry) list, (string \<times> diskEntry lruEntry) list) env \<times> unit option \<times> _) option"
  obtain s where n: "?n = Some (fake_env, None, s)" and p: "fs_prefix s = WithPrefix ''/a/../p/''"
    by (simp add: S3FS_New_def Let_def fake_env_def)
  have "WithPrefix ''/a/../p/'' = ''p''" by code_simp
  moreover have "os_ok (mos demo_disk_mach)"
    using demo_disk_inv by (simp add: disk_inv_def os_ok_def demo_disk_mach_def)
  ultimately show ?thesis
    using new_filesystem_in_order [OF n fake_fs.s3fs_axioms, of 0] n p by auto
qed

section \<open>Metadata\<close>

text \<open>
  A client whose requests do not fail, other than by reporting that an object does not exist.
\<close>

definition answering :: "'w Client \<Rightarrow> bool" where
  "answering cl \<longleftrightarrow> heads_answer cl \<and> (\<forall>i w e w'. ListObjectsV2 cl i w \<noteq> (Inl e, w'))"

text \<open>What file information says of an object.\<close>

definition obj_mode :: "obj \<Rightarrow> FileMode" where
  "obj_mode ob = modeFromHead \<lparr>ContentLength = None, ETag = None, LastModified = None, Metadata = ometa ob\<rparr>"

definition info_of :: "string \<Rightarrow> obj \<Rightarrow> fileInfo \<Rightarrow> bool" where
  "info_of p ob fi \<longleftrightarrow>
     fi_name fi = path_Base p \<and> fi_size fi = int (length (odata ob)) \<and> fi_mode fi = obj_mode ob"

lemma infoFromHead_info:
  assumes "head_agrees content ob h"
  shows "info_of p ob (infoFromHead (path_Base p) h)"
proof -
  have "metaValue (Metadata h) modeMetaKey = metaValue (ometa ob) modeMetaKey"
    using assms meta_sim_simps unfolding head_agrees_def by blast
  then show ?thesis
    using assms by (simp add: info_of_def infoFromHead_def infoFromHeadValue_def obj_mode_def modeFromHead_def head_agrees_def)
qed

text \<open>What \<^verbatim>\<open>Stat\<close> answers about the map of objects.\<close>

definition stats ::
    "objects \<Rightarrow> string \<Rightarrow> string \<Rightarrow> string \<Rightarrow> (string \<times> obj option \<times> nat) option \<Rightarrow> goerr + fileInfo \<Rightarrow> bool" where
  "stats m pre opn f found r \<longleftrightarrow>
     (case found of
        None \<Rightarrow> \<exists>q. r = Inl (PathError opn q ErrTooManySymlinks)
      | Some (p, Some ob, _) \<Rightarrow> \<exists>fi. r = Inr fi \<and> info_of p ob fi
      | Some (p, None, _) \<Rightarrow>
          r = (if p = ''/'' then Inr (dirInfo ''/'')
               else if dir_in m pre p then Inr (dirInfo (path_Base p)) else Inl (PathError opn f ErrNotExist)))"

text \<open>Where following links ends: at the root, at nothing, or at an object that is not a link.\<close>

lemma follow_end:
  assumes "follow m pre n q = Some (p, ob, k)"
  shows "ob = (if p = ''/'' then None else m (key pre p)) \<and> (\<forall>o1. ob = Some o1 \<longrightarrow> link_of o1 = None)"
  using assms
proof (induction n arbitrary: q k)
  case 0
  then show ?case by (subst (asm) follow.simps) (auto split: option.splits if_splits)
next
  case (Suc n)
  then show ?case by (subst (asm) (2) follow.simps) (auto split: option.splits if_splits)
qed

context s3fs
begin

lemma dirExists_answers: "answering (client E) \<Longrightarrow> dirExists E p s \<noteq> (Inl e, s')"
  by (auto simp: dirExists_def answering_def request_def Let_def split: option.splits prod.splits sum.splits)

lemma statDir_spec:
  assumes "ok s" "answering (client E)" "statDir E opn f p s = (r, s')"
  shows "still s s' \<and>
    r = (if dir_in (store s) (fs_prefix s) p then Inr (dirInfo (path_Base p)) else Inl (PathError opn f ErrNotExist))"
proof -
  obtain d s1 where d: "dirExists E p s = (d, s1)" by (cases "dirExists E p s")
  then obtain b where b: "d = Inr b" using dirExists_answers [OF assms(2)] by (cases d) auto
  show ?thesis
    using assms(3) d b dirExists_calm [OF assms(1) d] dirExists_spec(5) [OF assms(1) d b]
    by (auto simp: statDir_def split: bool.splits)
qed

lemma Stat_spec:
  assumes "ok s" "answering (client E)" "liveInfo f s = None" "S3FS_Stat E f s = (r, s')"
  shows "still s s'" and "stats (store s) (fs_prefix s) ''stat'' f (follow (store s) (fs_prefix s) maxSymlinkDepth (cleanPath f)) r"
proof -
  obtain p h n err s1 where rs: "resolve E ''stat'' f s = ((p, h, n, err), s1)" by (metis prod.exhaust)
  note c1 = resolve_calm [OF assms(1) rs]
  have rl: "resolveLoop E ''stat'' (cleanPath f) 0 s = ((p, h, n, err), s1)" using rs by (simp add: resolve_def)
  have "still s s' \<and> stats (store s) (fs_prefix s) ''stat'' f (follow (store s) (fs_prefix s) maxSymlinkDepth (cleanPath f)) r"
  proof (cases err)
    case (Some e)
    have "heads_answer (client E)" using assms(2) by (simp add: answering_def)
    from resolveLoop_total [OF assms(1) this rl] Some show ?thesis
      using assms(3,4) rs c1 by (auto simp: S3FS_Stat_def stats_def)
  next
    case None
    obtain ob where fo: "follow (store s) (fs_prefix s) maxSymlinkDepth (cleanPath f) = Some (p, ob, n)"
        and ag: "heads_agree content ob h"
      using resolveLoop_spec [OF assms(1) rl] None by auto
    have st: "(if p = ''/'' then (Inr (dirInfo ''/''), s1)
        else case h of Some ho \<Rightarrow> (Inr (infoFromHead (path_Base p) ho), s1) | None \<Rightarrow> statDir E ''stat'' f p s1) = (r, s')"
      using assms(3,4) rs None by (simp add: S3FS_Stat_def)
    show ?thesis
    proof (cases "p = ''/''")
      case True
      then have "ob = None" using fo follow_end [of _ _ _ _ p ob n] by simp
      then show ?thesis using st True c1 fo by (auto simp: stats_def)
    next
      case False
      show ?thesis
      proof (cases h)
        case (Some ho)
        then obtain o1 where "ob = Some o1" "head_agrees content o1 ho" using ag by (auto simp: heads_agree_def split: option.splits)
        then show ?thesis using st False Some c1 fo infoFromHead_info by (auto simp: stats_def)
      next
        case hn: None
        then have "ob = None" using ag by (auto simp: heads_agree_def split: option.splits)
        moreover have sd: "statDir E ''stat'' f p s1 = (r, s')" using st False hn by simp
        ultimately show ?thesis
          using statDir_spec [OF calmD(1) [OF c1] assms(2) sd] calm_trans [OF c1] calmD(2,5) [OF c1] False fo
          by (simp add: stats_def)
      qed
    qed
  qed
  then show "still s s'" "stats (store s) (fs_prefix s) ''stat'' f (follow (store s) (fs_prefix s) maxSymlinkDepth (cleanPath f)) r"
    by blast+
qed

end

lemma liveInfo_cases:
  assumes "writers_ok content dview s"
  shows "ws_open s (cleanPath f) = None \<Longrightarrow> liveInfo f s = None"
    and "ws_open s (cleanPath f) = Some a \<Longrightarrow> liveInfo f s = Some (statLocked (ws_files s a)) \<and> live s a \<and>
           wf_name (ws_files s a) = cleanPath f"
  using assms by (auto simp: liveInfo_def lookupWrite_def statIfOpen_def writers_ok_def live_def)

text \<open>
  C9: \<^verbatim>\<open>Stat\<close> tells the truth. For a path being written in this instance it reports the live
  buffer (length and mode of the open writer). Otherwise it follows the symlinks stored in
  the bucket and reports the object reached, by size and stored mode, the directory, or that
  nothing is there; a chain that is too long is an error. It changes neither the bucket nor
  any writer, and the caches may answer in place of the store.
\<close>

theorem stat_describes_contents:
  assumes "s3fs E objs content rest pages mview dview" "sys_ok objs content mview dview s" "answering (client E)"
    "S3FS_Stat E f s = (r, s')"
  shows "sys_ok objs content mview dview s' \<and> objs (fs_world s') = objs (fs_world s) \<and> views s' = views s \<and>
    (case ws_open s (cleanPath f) of
       Some a \<Rightarrow> \<exists>fi. r = Inr fi \<and> fi_name fi = path_Base (cleanPath f) \<and>
                     fi_size fi = int (length (fst (wf_view s (ws_files s a)))) \<and> fi_mode fi = wf_perm (ws_files s a)
     | None \<Rightarrow> stats (objs (fs_world s)) (fs_prefix s) ''stat'' f
                 (follow (objs (fs_world s)) (fs_prefix s) maxSymlinkDepth (cleanPath f)) r)"
proof (cases "ws_open s (cleanPath f)")
  case None
  have w: "fs_ok objs content mview dview s" "writers_ok content dview s" using assms(2) by (auto simp: sys_ok_def)
  note st = s3fs.Stat_spec [OF assms(1) w(1) assms(3) liveInfo_cases(1) [OF w(2) None] assms(4)]
  show ?thesis
    using st(2) None calm_sys [OF assms(2) st(1)] calmD(2) [OF st(1)] calm_writers(2) [OF w(2) st(1)] by simp
next
  case (Some a)
  have w: "writers_ok content dview s" using assms(2) by (simp add: sys_ok_def)
  note l = liveInfo_cases(2) [OF w Some]
  have "buf_len (wf_buf (ws_files s a)) = int (length (buf_data s (wf_buf (ws_files s a))))"
    using s3fs.buf_len_data [OF assms(1)] writers_okD(2) [OF w] l by blast
  then show ?thesis using assms(2,4) Some l by (auto simp: S3FS_Stat_def statLocked_def wf_view_def)
qed

definition demo_link_wfs :: "(fake, (string \<times> memEntry lruEntry) list, (string \<times> diskEntry lruEntry) list) wfs" where
  "demo_link_wfs = no_writers demo_links"

lemma demo_link_wfs_ok: "sys_ok fake_objs tag_content (\<lambda>c. c) (\<lambda>c. c) demo_link_wfs"
  using demo_links_ok by (simp add: sys_ok_def demo_link_wfs_def no_writers_ok)

lemma fake_answering: "answering (client fake_env)"
  by (auto simp: answering_def heads_answer_def fake_env_def fake_client_def isNotFound_def split: option.splits)

theorem stat_describes_contents_witness:
  "\<exists>fi s'. S3FS_Stat fake_env ''l1'' demo_link_wfs = (Inr fi, s') \<and> fi_name fi = ''f'' \<and> fi_size fi = 3"
proof -
  obtain r s' where r: "S3FS_Stat fake_env ''l1'' demo_link_wfs = (r, s')" by (metis prod.exhaust)
  have "ws_open demo_link_wfs (cleanPath ''l1'') = None" by (simp add: demo_link_wfs_def no_writers_def S3FS.defs)
  moreover have "(case follow (fake_objs (fs_world demo_link_wfs)) (fs_prefix demo_link_wfs) maxSymlinkDepth (cleanPath ''l1'')
      of Some (p, Some ob, _) \<Rightarrow> path_Base p = ''f'' \<and> int (length (odata ob)) = 3 | _ \<Rightarrow> False)"
    by code_simp
  ultimately show ?thesis
    using stat_describes_contents [OF fake_fs.s3fs_axioms demo_link_wfs_ok fake_answering r] r
    by (auto simp: stats_def info_of_def split: option.splits)
qed

section \<open>Links\<close>

context s3fs
begin

lemma head_answers:
  assumes "answering (client E)" "S3FS_head E k s = (Inl e, s')"
  shows "isNotFound e"
proof -
  have "isNotFound NotFound" by (simp add: isNotFound_def)
  then show ?thesis
    using assms by (auto simp: S3FS_head_def answering_def heads_answer_def request_def
        split: prod.splits sum.splits if_splits option.splits) blast
qed

text \<open>What a path that holds nothing looks like.\<close>

lemma probe_missing:
  assumes "ok s" "S3FS_head E (key (fs_prefix s) p) s = (Inl e, s1)" "isNotFound e" "dirExists E p s1 = (Inr b, s2)"
  shows "still s s2" and "store s (key (fs_prefix s) p) = None" and "b = dir_in (store s) (fs_prefix s) p"
proof -
  note c1 = head_calm [OF assms(1,2) ok_key [OF assms(1)]]
  show "still s s2" by (rule calm_trans [OF c1 dirExists_calm [OF calmD(1) [OF c1] assms(4)]])
  show "store s (key (fs_prefix s) p) = None"
    using head_spec(5) [OF assms(1,2) ok_key [OF assms(1)]] assms(3) by (simp add: answers_def)
  show "b = dir_in (store s) (fs_prefix s) p"
    using dirExists_spec(5) [OF calmD(1) [OF c1] assms(4)] calmD(2,5) [OF c1] by simp
qed

lemma Symlink_spec:
  assumes "ok s" "S3FS_Symlink E target link s = (None, s')"
  shows "ok s'" and "same_conf s s'" and "kept s s'" and "cleanPath link \<noteq> ''/''"
    and "store s (key (fs_prefix s) link) = None" and "\<not> dir_in (store s) (fs_prefix s) link"
    and "\<exists>ob. store s' = (store s)(key (fs_prefix s) link \<mapsto> ob) \<and> odata ob = [] \<and> link_of ob = Some target"
proof -
  let ?p = "cleanPath link"
  obtain e s1 s2 where st: "?p \<noteq> ''/''" "S3FS_head E (key (fs_prefix s) ?p) s = (Inl e, s1)" "isNotFound e"
      "dirExists E ?p s1 = (Inr False, s2)"
      and pt: "S3FS_put E (key (fs_prefix s2) ?p) None [(symlinkMetaKey, QueryEscape target)] s2 = (None, s')"
    using assms(2) by (auto simp: S3FS_Symlink_def Let_def split: if_splits prod.splits sum.splits bool.splits)
  note pr = probe_missing [OF assms(1) st(2-4)]
  note po = put_ok [OF calmD(1) [OF pr(1)] pt] and pk = put_keeps [OF ok_disk [OF calmD(1) [OF pr(1)]] pt]
  show "ok s'" "same_conf s s'" "kept s s'" "?p \<noteq> ''/''"
    using po(1) same_conf_trans [OF calmD(3) [OF pr(1)] po(2)] keeps_trans [OF calmD(4) [OF pr(1)] pk] st(1) by blast+
  show "store s (key (fs_prefix s) link) = None" "\<not> dir_in (store s) (fs_prefix s) link"
    using pr(2,3) by (simp_all add: dir_in_def)
  obtain ob where ob: "store s' = (store s2)(key (fs_prefix s2) ?p \<mapsto> ob)" "odata ob = []"
      "meta_sim (ometa ob) [(symlinkMetaKey, QueryEscape target)]"
    using po(3) by auto
  have "metaValue [(symlinkMetaKey, QueryEscape target)] symlinkMetaKey = Some (QueryEscape target)"
    by (simp add: metaValue_def symlinkMetaKey_def)
  then have "link_of ob = Some target"
    using meta_sim_simps(1) [OF ob(3)] by (simp add: link_of_def QueryUnescape_Escape)
  then show "\<exists>ob. store s' = (store s)(key (fs_prefix s) link \<mapsto> ob) \<and> odata ob = [] \<and> link_of ob = Some target"
    using ob(1,2) calmD(2,5) [OF pr(1)] by auto
qed

lemma Readlink_spec:
  assumes "ok s" "S3FS_Readlink E link s = (r, s')"
  shows "still s s'" and "r = Inr t \<Longrightarrow> Option.bind (store s (key (fs_prefix s) link)) link_of = Some t"
    and "answering (client E) \<Longrightarrow> Option.bind (store s (key (fs_prefix s) link)) link_of = Some t \<Longrightarrow> r = Inr t"
proof -
  obtain x s1 where h: "S3FS_head E (key (fs_prefix s) link) s = (x, s1)"
    by (cases "S3FS_head E (key (fs_prefix s) link) s")
  have s': "s' = s1" using assms(2) h by (auto simp: S3FS_Readlink_def split: sum.splits option.splits)
  show "still s s'" unfolding s' by (rule head_calm [OF assms(1) h ok_key [OF assms(1)]])
  note a = head_spec(5) [OF assms(1) h ok_key [OF assms(1)]]
  have *: "(r = Inr t \<longrightarrow> Option.bind (store s (key (fs_prefix s) link)) link_of = Some t) \<and>
      (answering (client E) \<longrightarrow> Option.bind (store s (key (fs_prefix s) link)) link_of = Some t \<longrightarrow> r = Inr t)"
  proof (cases x)
    case (Inl e)
    then show ?thesis using assms(2) h a head_answers [of "key (fs_prefix s) link" s e s1]
      by (auto simp: S3FS_Readlink_def answers_def)
  next
    case (Inr ho)
    then obtain ob where "store s (key (fs_prefix s) link) = Some ob" "head_agrees content ob ho"
      using a by (auto simp: answers_def)
    then show ?thesis
      using assms(2) h Inr symlinkTarget_link [of content ob ho] by (auto simp: S3FS_Readlink_def split: option.splits)
  qed
  show "r = Inr t \<Longrightarrow> Option.bind (store s (key (fs_prefix s) link)) link_of = Some t"
    "answering (client E) \<Longrightarrow> Option.bind (store s (key (fs_prefix s) link)) link_of = Some t \<Longrightarrow> r = Inr t"
    using * by blast+
qed

end

text \<open>
  C10: symlinks round-trip. A successful \<^verbatim>\<open>Symlink\<close> creates a link where neither a file nor a
  directory was, changes no other object, and \<^verbatim>\<open>Readlink\<close> of that path afterwards returns
  exactly the target, whatever characters it has (it is stored escaped in the metadata); if
  the store answers, it does return it.
\<close>

theorem symlink_readlink_roundtrip:
  assumes "s3fs E objs content rest pages mview dview" "sys_ok objs content mview dview s"
    "S3FS_Symlink E target link s = (None, s1)" "S3FS_Readlink E link s1 = (r, s2)"
  shows "objs (fs_world s) (key (fs_prefix s) link) = None \<and> \<not> dir_in (objs (fs_world s)) (fs_prefix s) link \<and>
    (\<forall>k. k \<noteq> key (fs_prefix s) link \<longrightarrow> objs (fs_world s2) k = objs (fs_world s) k) \<and>
    sys_ok objs content mview dview s2 \<and> views s2 = views s \<and>
    (\<forall>t. r = Inr t \<longrightarrow> t = target) \<and> (answering (client E) \<longrightarrow> r = Inr target)"
proof -
  have w: "fs_ok objs content mview dview s" "writers_ok content dview s" using assms(2) by (auto simp: sys_ok_def)
  note sy = s3fs.Symlink_spec [OF assms(1) w(1) assms(3)]
  note kw = kept_writers [OF w(2) sy(2,3)]
  have s1: "sys_ok objs content mview dview s1" using sy(1) kw(1) by (simp add: sys_ok_def)
  note rl = s3fs.Readlink_spec [OF assms(1) sy(1) assms(4)]
  note c2 = calm_sys [OF s1 rl(1)] calm_writers(2) [OF kw(1) rl(1)] calmD(2) [OF rl(1)]
  obtain ob where ob: "objs (fs_world s1) = (objs (fs_world s))(key (fs_prefix s) link \<mapsto> ob)" "link_of ob = Some target"
    using sy(7) by blast
  have "fs_prefix s1 = fs_prefix s" by (rule same_confD(1) [OF sy(2)])
  then have b: "Option.bind (objs (fs_world s1) (key (fs_prefix s1) link)) link_of = Some target" using ob by simp
  then have "t = target" if "r = Inr t" for t using rl(2) [OF that] by simp
  moreover have "r = Inr target" if "answering (client E)" using rl(3) [OF that b] .
  moreover have "objs (fs_world s2) k = objs (fs_world s) k" if "k \<noteq> key (fs_prefix s) link" for k
    unfolding c2(3) ob(1) using that by (rule fun_upd_other)
  moreover have "views s2 = views s" unfolding c2(2) by (rule kw(2))
  ultimately show ?thesis using sy(5,6) c2(1) by blast
qed

theorem symlink_readlink_roundtrip_witness:
  "\<exists>s1 s2. S3FS_Symlink fake_env ''a b/%'' ''n'' demo_link_wfs = (None, s1) \<and>
     S3FS_Readlink fake_env ''n'' s1 = (Inr ''a b/%'', s2)"
proof -
  have "fst (S3FS_Symlink fake_env ''a b/%'' ''n'' demo_link_wfs) = None" by code_simp
  then obtain s1 where s1: "S3FS_Symlink fake_env ''a b/%'' ''n'' demo_link_wfs = (None, s1)" by (metis prod.collapse)
  obtain r s2 where s2: "S3FS_Readlink fake_env ''n'' s1 = (r, s2)" by (metis prod.exhaust)
  have "r = Inr ''a b/%''"
    using symlink_readlink_roundtrip [OF fake_fs.s3fs_axioms demo_link_wfs_ok s1 s2] fake_answering by blast
  then show ?thesis using s1 s2 by blast
qed

end
