(* ===== verification/Opening.thy ===== *)
theory Opening
  imports S3fs
begin

text \<open>
  What \<^verbatim>\<open>OpenFile\<close> yields: for every branch (a live writer of the path, an existing object read
  through any tier, an object opened for writing, a new file) the contents the handle starts
  with, and that everything else stays as it is. The closing theorem spans the components:
  what is written and closed through one handle is what a later open reads.
\<close>

unbundle bit_operations_syntax

section \<open>New writers\<close>

text \<open>A buffer that was made after state \<open>s\<close>: no open handle of \<open>s\<close> has it.\<close>

fun buf_new :: "('w, 'c, 'd, 'z) S3FS_scheme \<Rightarrow> writeBuf \<Rightarrow> bool" where
  "buf_new s (MemBuf b) \<longleftrightarrow> True"
| "buf_new s (FileBuf b) \<longleftrightarrow> next_ino (mos (fs_mach s)) \<le> fb_f b"

lemma buf_new_apart: "buf_new s b \<Longrightarrow> buf_ok dview s b2 \<Longrightarrow> bufs_apart b b2"
  by (cases b; cases b2) (auto simp: buf_ok_def)

definition writer_opened ::
    "('w \<Rightarrow> objects) \<Rightarrow> (string \<Rightarrow> bytes) \<Rightarrow> ('c \<Rightarrow> (string \<times> memEntry lruEntry) list)
       \<Rightarrow> ('d \<Rightarrow> (string \<times> diskEntry lruEntry) list) \<Rightarrow> ('w, 'c, 'd, 'z) wfs_scheme
       \<Rightarrow> string \<Rightarrow> int \<Rightarrow> FileMode \<Rightarrow> bytes \<Rightarrow> bool \<Rightarrow> handle \<Rightarrow> ('w, 'c, 'd, 'z) wfs_scheme \<Rightarrow> bool" where
  "writer_opened objs content mview dview s p flag perm d dirty a s' \<longleftrightarrow>
     sys_ok objs content mview dview s' \<and> objs (fs_world s') = objs (fs_world s) \<and> fs_prefix s' = fs_prefix s \<and>
     views s' = (views s)(a \<mapsto> (d, 0)) \<and> \<not> live s a \<and> live s' a \<and> ws_open s' = (ws_open s)(p \<mapsto> a) \<and>
     wf_name (ws_files s' a) = p \<and> wf_flag (ws_files s' a) = flag \<and> wf_dirty (ws_files s' a) = dirty \<and>
     wf_perm (ws_files s' a) = Perm (if perm = 0 then defaultFileMode else perm)"

context s3fs
begin

abbreviation (input) sok where "sok \<equiv> sys_ok objs content mview dview"

abbreviation (input) w_opened where "w_opened \<equiv> writer_opened objs content mview dview"

lemma newWriteFileBuf_opened:
  assumes s: "sok s" "still s s1" and b: "buf_ok dview s1 b" "int64 (buf_len b)" "buf_new s b"
    and op: "newWriteFileBuf E p flag perm b dirty s1 = (a, s')"
  shows "w_opened s p flag perm (buf_data s1 b) dirty a s'"
proof -
  have w: "writers_ok content dview s" using s(1) by (simp add: sys_ok_def)
  note c = calm_writers [OF w s(2)]
  have lv: "live s1 h = live s h" for h by (simp add: live_def c(3))
  have "bufs_apart b (wf_buf (ws_files s1 h))" if "live s1 h" for h
    unfolding c(3) by (rule buf_new_apart [OF b(3) writers_okD(2) [OF w that [unfolded lv]]])
  note n = newWriteFileBuf_spec [OF calmD(1) [OF s(2)] c(1) b(1,2) this op]
  show ?thesis
    unfolding writer_opened_def sys_ok_def
    using n(1,2,6,9-13) n(3) [unfolded calmD(2) [OF s(2)]] n(4) [unfolded c(2)] n(5) [unfolded c(4)]
      n(8) [unfolded calmD(5) [OF s(2)]] lv by blast
qed

lemma pool_calm: "ok s \<Longrightarrow> mos m = mos (fs_mach s) \<Longrightarrow> still s (s\<lparr>fs_mach := m\<rparr>)"
  using keeps_same [of "s\<lparr>fs_mach := m\<rparr>" s] by (simp add: calm_def fs_ok_def same_conf_def)

lemma pooledData_mos: "pooledData m = (arr, m') \<Longrightarrow> mos m' = mos m"
  by (auto simp: pooledData_def split: list.splits if_splits)

lemma newMemBuf_spec:
  assumes "newMemBuf data m = (b, m')"
  shows "mos m' = mos m" and "mb_data b = (case data of None \<Rightarrow> [] | Some d \<Rightarrow> d)"
    and "mb_len b \<le> length (mb_arr b)"
  using assms pooledData_mos by (auto simp: newMemBuf_def mb_data_def split: option.splits prod.splits)

lemma newWriteFile_opened:
  assumes s: "sok s" "still s s1" and d: "int64 (int (length (case data of None \<Rightarrow> [] | Some d \<Rightarrow> d)))"
    and op: "newWriteFile E p flag perm data dirty s1 = (a, s')"
  shows "w_opened s p flag perm (case data of None \<Rightarrow> [] | Some d \<Rightarrow> d) dirty a s'"
proof -
  obtain b m where b: "newMemBuf data (fs_mach s1) = (b, m)" by (cases "newMemBuf data (fs_mach s1)")
  note nb = newMemBuf_spec [OF b]
  let ?s2 = "s1\<lparr>fs_mach := m\<rparr>"
  have c: "still s ?s2" by (rule calm_trans [OF s(2) pool_calm [OF calmD(1) [OF s(2)] nb(1)]])
  have bo: "buf_ok dview ?s2 (MemBuf b)" "buf_data ?s2 (MemBuf b) = (case data of None \<Rightarrow> [] | Some d \<Rightarrow> d)"
    using nb by (simp_all add: buf_ok_def buf_data_def)
  have "int64 (buf_len (MemBuf b))" using buf_len_data [OF bo(1)] bo(2) d by simp
  from newWriteFileBuf_opened [OF s(1) c bo(1) this] show ?thesis
    using op b bo(2) by (simp add: newWriteFile_def)
qed

section \<open>Buffers of existing objects\<close>

lemma loadSpill_new: "loadSpill bd fb s = (Inr b, s') \<Longrightarrow> \<exists>n. b = FileBuf (fb\<lparr>fb_sz := n\<rparr>)"
  by (auto simp: loadSpill_def Let_def split: prod.splits option.splits)

lemma memBuf_of_new: "memBuf_of x = (Inr b, s') \<Longrightarrow> buf_new s b"
  by (auto simp: memBuf_of_def split: prod.splits sum.splits)

lemma bufForExisting_new:
  assumes "ok s" "bufForExisting E p h s = (Inr b, s')"
  shows "buf_new s b"
  using assms(2)
proof (cases rule: bufForExisting_cases)
  case (spill fb g s1 w)
  then show ?thesis using loadSpill_new [OF spill(3)] newSpill_fresh [OF assms(1) spill(1)] by auto
next
  case (mem t)
  then show ?thesis by (intro memBuf_of_new)
qed simp

lemma bufFromGet_new:
  assumes "ok s" "bufFromGet h g s = (Inr b, s')"
  shows "buf_new s b"
proof -
  obtain x s1 where sp: "disk_run (Inl OsError) disk_newSpill s = (x, s1)"
    by (cases "disk_run (Inl OsError) disk_newSpill s")
  consider t where "memBuf_of (ReadAll (Body g), t) = (Inr b, s')"
    | fb where "x = Inr fb" "loadSpill (Body g) fb s1 = (Inr b, s')"
    using assms(2) sp by (auto simp: bufFromGet_def split: if_splits sum.splits)
  then show ?thesis
  proof cases
    case 1
    then show ?thesis by (rule memBuf_of_new)
  next
    case 2
    then show ?thesis using loadSpill_new [OF 2(2)] newSpill_fresh [OF assms(1) sp [unfolded 2(1)]] by auto
  qed
qed

end

section \<open>Opening objects\<close>

text \<open>Objects are at most as large as an \<^verbatim>\<open>int64\<close> can say (S3 allows far less).\<close>

definition sizes_ok :: "objects \<Rightarrow> bool" where
  "sizes_ok m \<longleftrightarrow> (\<forall>k ob. m k = Some ob \<longrightarrow> int64 (int (length (odata ob))))"

lemma sizes_okD: "sizes_ok m \<Longrightarrow> m k = Some ob \<Longrightarrow> int64 (int (length (odata ob)))"
  by (auto simp: sizes_ok_def)

context s3fs
begin

lemma openForRead_spec:
  assumes ok: "ok s" and ob: "store s (key (fs_prefix s) p) = Some ob" "head_agrees content ob h"
      "int64 (int (length (odata ob)))"
    and g: "\<And>gg. g = Some gg \<Longrightarrow> delivers (Body gg) (odata ob)" and op: "openForRead E p h g s = (r, s')"
  shows "still s s' \<and> (\<forall>f. r = Inr f \<longrightarrow> serves_open objs p h (odata ob) f s')"
proof (cases g)
  case (Some gg)
  then show ?thesis using openFromGet_spec [OF ok ob g [OF Some], of r s'] op by (simp add: openForRead_def)
next
  case None
  obtain x s1 where c: "cachedOpen E p h s = (x, s1)" by (cases "cachedOpen E p h s")
  note cs = cachedOpen_spec [OF ok ob c]
  show ?thesis
  proof (cases "x = Inr None")
    case True
    obtain f s2 where n: "newReadFile p h None s1 = (f, s2)" by (cases "newReadFile p h None s1")
    have "ContentLength h = Some (int (length (odata ob)))" using ob(2) by (simp add: head_agrees_def)
    then have "still s1 s2 \<and> serves_open objs p h (odata ob) f s2"
      using stream_open_spec [of s1 p h None f s2 "odata ob"] n cs calmD(1,2,5) [of objs content mview dview s s1] ob(1,3) by simp
    then show ?thesis using op None c True n cs calm_trans [of objs content mview dview s s1 s2] by (auto simp: openForRead_def)
  next
    case False
    then show ?thesis using op None c cs by (auto simp: openForRead_def split: sum.splits option.splits)
  qed
qed

lemma existing_buf:
  assumes ok: "ok s" and ob: "store s (key (fs_prefix s) p) = Some ob"
    and g: "\<And>gg. g = Some gg \<Longrightarrow> delivers (Body gg) (odata ob)"
    and op: "(case g of Some gg \<Rightarrow> bufFromGet h gg s | None \<Rightarrow> bufForExisting E p h s) = (r, s')"
  shows "still s s'" and "r = Inr b \<Longrightarrow> buf_ok dview s' b \<and> buf_data s' b = odata ob \<and> buf_new s b"
proof -
  have "still s s' \<and> (r = Inr b \<longrightarrow> buf_ok dview s' b \<and> buf_data s' b = odata ob \<and> buf_new s b)"
  proof (cases g)
    case (Some gg)
    then have o1: "bufFromGet h gg s = (r, s')" using op by simp
    show ?thesis
      using bufFromGet_calm [OF ok g [OF Some] o1] bufFromGet_spec(4) [OF ok g [OF Some] o1]
        bufFromGet_new [OF ok, of h gg b s'] o1 by auto
  next
    case None
    then have o1: "bufForExisting E p h s = (r, s')" using op by simp
    show ?thesis
      using bufForExisting_calm [OF ok o1] bufForExisting_spec(4) [OF ok o1] bufForExisting_new [OF ok, of p h b s'] o1 ob by auto
  qed
  then show "still s s'" "r = Inr b \<Longrightarrow> buf_ok dview s' b \<and> buf_data s' b = odata ob \<and> buf_new s b" by auto
qed

lemma buf_new_mono: "kept s s1 \<Longrightarrow> ok s \<Longrightarrow> fs_disk s \<noteq> None \<Longrightarrow> buf_new s1 b \<Longrightarrow> buf_new s b"
  by (cases b) (auto simp: keeps_def disk_frame_def)

lemma buf_ok_no_disk: "buf_ok dview s b \<Longrightarrow> fs_disk s = None \<Longrightarrow> \<not> is_spill b"
  by (cases b) (auto simp: buf_ok_def)

lemma buf_new_calm:
  assumes "still s s1" "ok s" "buf_new s1 b" "still s1 s2" "buf_ok dview s2 b"
  shows "buf_new s b"
proof (cases "fs_disk s")
  case None
  then have "fs_disk s2 = None" using calmD(3) [OF assms(1)] calmD(3) [OF assms(4)] by (simp add: same_conf_def)
  then show ?thesis using buf_ok_no_disk [OF assms(5)] by (cases b) auto
next
  case (Some c)
  then show ?thesis using buf_new_mono [OF calmD(4) [OF assms(1)] assms(2) _ assms(3)] by simp
qed

lemma openForWrite_spec:
  assumes s: "sok s" "still s s1" and ob: "store s1 (key (fs_prefix s1) p) = Some ob" "head_agrees content ob h"
      "int64 (int (length (odata ob)))"
    and g: "\<And>gg. g = Some gg \<Longrightarrow> delivers (Body gg) (odata ob)"
    and op: "openForWrite E f p flag h g s1 = (r, s')"
  shows "(\<forall>e. r = Inl e \<longrightarrow> still s s') \<and>
    (\<forall>a. r = Inr a \<longrightarrow> w_opened s p flag (obj_mode ob) (if flag AND O_TRUNC \<noteq> 0 then [] else odata ob)
                         (flag AND O_TRUNC \<noteq> 0) a s')"
proof -
  have mode: "modeFromHead h = obj_mode ob"
    using infoFromHead_info [OF ob(2), of p] by (simp add: info_of_def infoFromHead_def infoFromHeadValue_def)
  show ?thesis
  proof (cases "flag AND O_TRUNC \<noteq> 0")
    case True
    obtain a s2 where n: "newWriteFile E p flag (obj_mode ob) None True s1 = (a, s2)"
      by (cases "newWriteFile E p flag (obj_mode ob) None True s1")
    have "w_opened s p flag (obj_mode ob) [] True a s2"
      using newWriteFile_opened [OF s _ n] by (simp add: int64_def)
    then show ?thesis using op True n mode by (auto simp: openForWrite_def)
  next
    case False
    obtain x s2 where b: "(case g of Some gg \<Rightarrow> bufFromGet h gg s1 | None \<Rightarrow> bufForExisting E p h s1) = (x, s2)"
      by (cases "case g of Some gg \<Rightarrow> bufFromGet h gg s1 | None \<Rightarrow> bufForExisting E p h s1")
    have eb: "still s1 s2" "\<And>bf. x = Inr bf \<Longrightarrow> buf_ok dview s2 bf \<and> buf_data s2 bf = odata ob \<and> buf_new s1 bf"
      using existing_buf [OF calmD(1) [OF s(2)] ob(1) _ b] g by blast+
    note c2 = calm_trans [OF s(2) eb(1)]
    show ?thesis
    proof (cases x)
      case (Inl e)
      then show ?thesis using op False b c2 by (auto simp: openForWrite_def)
    next
      case (Inr bf)
      obtain a s3 where n: "newWriteFileBuf E p flag (obj_mode ob) bf False s2 = (a, s3)"
        by (cases "newWriteFileBuf E p flag (obj_mode ob) bf False s2")
      have bo: "buf_ok dview s2 bf" "buf_data s2 bf = odata ob" "buf_new s1 bf" using eb(2) [OF Inr] by auto
      have "int64 (buf_len bf)" using buf_len_data [OF bo(1)] bo(2) ob(3) by simp
      moreover have "buf_new s bf" using buf_new_calm [OF s(2) _ bo(3) eb(1) bo(1)] s(1) by (simp add: sys_ok_def)
      ultimately have "w_opened s p flag (obj_mode ob) (odata ob) False a s3"
        using newWriteFileBuf_opened [OF s(1) c2 bo(1) _ _ n] bo(2) by simp
      then show ?thesis using op False b Inr n mode by (auto simp: openForWrite_def)
    qed
  qed
qed

lemma openMissing_spec:
  assumes s: "sok s" "still s s1" and op: "openMissing E f p flag perm s1 = (r, s')"
  shows "(\<forall>e. r = Inl e \<longrightarrow> still s s') \<and> (\<forall>a. r = Inr a \<longrightarrow> w_opened s p flag perm [] True a s')"
proof -
  obtain x s2 where d: "dirExists E p s1 = (x, s2)" by (cases "dirExists E p s1")
  note c2 = calm_trans [OF s(2) dirExists_calm [OF calmD(1) [OF s(2)] d]]
  obtain a s3 where n: "newWriteFile E p flag perm None True s2 = (a, s3)" by (cases "newWriteFile E p flag perm None True s2")
  have w: "w_opened s p flag perm [] True a s3" using newWriteFile_opened [OF s(1) c2 _ n] by (simp add: int64_def)
  have "(\<exists>e. r = Inl e \<and> s' = s2) \<or> (r = Inr a \<and> s' = s3)"
    using op d n by (auto simp: openMissing_def split: sum.splits bool.splits if_splits)
  then show ?thesis using c2 w by auto
qed

end

section \<open>Opening a file being written\<close>

lemma keeps_mos: "mos (fs_mach s1) = mos (fs_mach s2) \<Longrightarrow> fs_disk s1 = fs_disk s2 \<Longrightarrow> keeps dview s s1 = keeps dview s s2"
  by (simp add: keeps_def)

context s3fs
begin

lemma shrink_calm:
  assumes "ok s" "shrinks (mos (fs_mach s)) (mos m)"
  shows "still s (s\<lparr>fs_mach := m\<rparr>)"
proof -
  have "kept s (s\<lparr>fs_mach := m\<rparr>)"
    using shrink_keeps [OF assms(2)] keeps_mos [of "s\<lparr>fs_mach := m\<rparr>" "set_os (mos m) s" dview s] by simp
  then show ?thesis using shrink_ok [OF assms] by (simp add: calm_def same_conf_def ok_mach)
qed

lemma newShared_spec:
  assumes s: "sok s" "live s a" and op: "newSharedReadFile a s = (r, s')"
  shows "\<exists>h. r = Some \<lparr>sh_id = h, sh_wf = a, sh_pos = 0, sh_closed = False\<rparr>" and "sok s'" and "store s' = store s"
    and "views s' = views s"
proof -
  define f where "f = (ws_files s a)\<lparr>wf_shared := wf_shared (ws_files s a) + 1\<rparr>"
  have w: "ok s" "writers_ok content dview s" using s(1) by (auto simp: sys_ok_def)
  have wf: "wok s f" "wf_view s f = wf_view s (ws_files s a)"
    using writers_okD(1) [OF w(2) s(2)] by (simp_all add: f_def wf_ok_def wf_view_def)
  have fx: "wf_buf f = wf_buf (ws_files s a)" "wf_name f = wf_name (ws_files s a)" "wf_closed f = wf_closed (ws_files s a)"
    by (simp_all add: f_def)
  have "others_kept dview s (wf_buf (ws_files s a)) s (wf_buf f)" unfolding fx(1) by (rule keeps_others) simp
  note rw = replace_writer [OF w(1,2) s(2) same_conf_refl this wf(1) fx(2,3)]
  have v: "views (set_wf a f s) = views s" using rw(3) views_live [OF s(2)] wf(2) by auto
  have r: "r = Some \<lparr>sh_id = fs_nextid s, sh_wf = a, sh_pos = 0, sh_closed = False\<rparr>"
      "s' = (set_wf a f s)\<lparr>fs_nextid := fs_nextid (set_wf a f s) + 1\<rparr>"
    using op writers_okD(3) [OF w(2) s(2)] by (auto simp: newSharedReadFile_def new_handle_def f_def Let_def set_wf_def)
  then show "\<exists>h. r = Some \<lparr>sh_id = h, sh_wf = a, sh_pos = 0, sh_closed = False\<rparr>" by blast
  have c: "still (set_wf a f s) s'" using handle_calm [OF rw(1)] r(2) by (simp add: handle_only_def)
  show "sok s'" using calm_sys [OF _ c] rw(1,2) by (simp add: sys_ok_def)
  show "store s' = store s" using calmD(2) [OF c] by simp
  show "views s' = views s" using calm_writers(2) [OF rw(2) c] v by simp
qed

lemma reopenState_spec:
  assumes s: "sok s" "live s a" and op: "reopenState wd (ws_files s a) s = (r, s')"
  shows "still s s'" and "r \<noteq> Inr None"
    and "r = Inr (Some (pm, data)) \<Longrightarrow> pm = wf_perm (ws_files s a) \<and>
           (case data of None \<Rightarrow> [] | Some d \<Rightarrow> d) = (if wd then fst (wf_view s (ws_files s a)) else [])"
proof -
  have w: "ok s" "writers_ok content dview s" using s(1) by (auto simp: sys_ok_def)
  have nc: "\<not> wf_closed (ws_files s a)" using s(2) by (simp add: live_def)
  have bw: "buf_wf (fs_mach s) (wf_buf (ws_files s a))" using writers_okD(2) [OF w(2) s(2)] by (simp add: buf_ok_def)
  have "still s s' \<and> r \<noteq> Inr None \<and> (r = Inr (Some (pm, data)) \<longrightarrow> pm = wf_perm (ws_files s a) \<and>
           (case data of None \<Rightarrow> [] | Some d \<Rightarrow> d) = (if wd then fst (wf_view s (ws_files s a)) else []))"
  proof (cases wd)
    case False
    then show ?thesis using op nc calm_refl [OF w(1)] by (auto simp: reopenState_def)
  next
    case True
    obtain x m where sn: "buf_snapshot (wf_buf (ws_files s a)) (fs_mach s) = (x, m)"
      by (cases "buf_snapshot (wf_buf (ws_files s a)) (fs_mach s)")
    have c: "still s (s\<lparr>fs_mach := m\<rparr>)" by (rule shrink_calm [OF w(1) snapshot_shrinks [OF sn]])
    show ?thesis
      using op nc True sn c any_buf.snapshot_ok [OF bw, of _ m]
      by (cases x) (auto simp: reopenState_def wf_view_def buf_data_def)
  qed
  then show "still s s'" "r \<noteq> Inr None"
    "r = Inr (Some (pm, data)) \<Longrightarrow> pm = wf_perm (ws_files s a) \<and>
           (case data of None \<Rightarrow> [] | Some d \<Rightarrow> d) = (if wd then fst (wf_view s (ws_files s a)) else [])" by auto
qed

lemma openLive_spec:
  assumes s: "sok s" and op: "openLive E f flag s = (r, s')"
  shows "ws_open s (cleanPath f) = None \<Longrightarrow> r = None \<and> s' = s"
    and "ws_open s (cleanPath f) = Some a \<Longrightarrow>
      (\<exists>e. r = Some (Inl e) \<and> still s s') \<or>
      (\<exists>h. r = Some (Inr (SharedFile \<lparr>sh_id = h, sh_wf = a, sh_pos = 0, sh_closed = False\<rparr>)) \<and>
           \<not> writable flag \<and> \<not> excl flag \<and> sok s' \<and> store s' = store s \<and> views s' = views s) \<or>
      (\<exists>h. r = Some (Inr (WriteFile h)) \<and> writable flag \<and> \<not> excl flag \<and>
           w_opened s (cleanPath f) flag (wf_perm (ws_files s a))
             (if flag AND O_TRUNC = 0 then fst (wf_view s (ws_files s a)) else []) True h s')"
proof -
  show "r = None \<and> s' = s" if "ws_open s (cleanPath f) = None"
    using op that by (simp add: openLive_def lookupWrite_def)
next
  assume a: "ws_open s (cleanPath f) = Some a"
  have w: "ok s" "writers_ok content dview s" using s by (auto simp: sys_ok_def)
  have lv: "live s a" using w(2) a by (simp add: writers_ok_def)
  let ?d = "if flag AND O_TRUNC = 0 then fst (wf_view s (ws_files s a)) else []"
  consider (excl) "excl flag" | (shared) "\<not> excl flag" "\<not> writable flag" | (reopen) "\<not> excl flag" "writable flag" by blast
  then show "(\<exists>e. r = Some (Inl e) \<and> still s s') \<or>
      (\<exists>h. r = Some (Inr (SharedFile \<lparr>sh_id = h, sh_wf = a, sh_pos = 0, sh_closed = False\<rparr>)) \<and>
           \<not> writable flag \<and> \<not> excl flag \<and> sok s' \<and> store s' = store s \<and> views s' = views s) \<or>
      (\<exists>h. r = Some (Inr (WriteFile h)) \<and> writable flag \<and> \<not> excl flag \<and>
           w_opened s (cleanPath f) flag (wf_perm (ws_files s a)) ?d True h s')"
  proof cases
    case excl
    then show ?thesis using op a calm_refl [OF w(1)] by (auto simp: openLive_def lookupWrite_def)
  next
    case shared
    obtain x s1 where n: "newSharedReadFile a s = (x, s1)" by (cases "newSharedReadFile a s")
    note ns = newShared_spec [OF s lv n]
    then obtain h where "x = Some \<lparr>sh_id = h, sh_wf = a, sh_pos = 0, sh_closed = False\<rparr>" by blast
    then have "r = Some (Inr (SharedFile \<lparr>sh_id = h, sh_wf = a, sh_pos = 0, sh_closed = False\<rparr>))" "s' = s1"
      using op a n shared by (auto simp: openLive_def lookupWrite_def)
    then show ?thesis using ns(2-4) shared by blast
  next
    case reopen
    obtain x s1 where n: "reopenState (flag AND O_TRUNC = 0) (ws_files s a) s = (x, s1)"
      by (cases "reopenState (flag AND O_TRUNC = 0) (ws_files s a) s")
    note ro = reopenState_spec [OF s lv n]
    show ?thesis
    proof (cases x)
      case (Inl e)
      then show ?thesis using op a n reopen ro(1) by (auto simp: openLive_def lookupWrite_def)
    next
      case (Inr y)
      then obtain pm data where x: "x = Inr (Some (pm, data))" using ro(2) by (cases y) auto
      obtain h s2 where nw: "newWriteFile E (cleanPath f) flag pm data True s1 = (h, s2)"
        by (cases "newWriteFile E (cleanPath f) flag pm data True s1")
      have pd: "pm = wf_perm (ws_files s a)" "(case data of None \<Rightarrow> [] | Some d \<Rightarrow> d) = ?d" using ro(3) [OF x] by auto
      have "int64 (int (length (buf_data s (wf_buf (ws_files s a)))))"
        using writers_okD(1,2) [OF w(2) lv] buf_len_data [of s "wf_buf (ws_files s a)"] by (simp add: wf_ok_def)
      then have "int64 (int (length ?d))" by (simp add: wf_view_def int64_def)
      then have "w_opened s (cleanPath f) flag pm ?d True h s2"
        using newWriteFile_opened [OF s ro(1) _ nw] pd(2) by simp
      moreover have "r = Some (Inr (WriteFile h))" "s' = s2"
        using op a n x nw reopen by (auto simp: openLive_def lookupWrite_def)
      ultimately show ?thesis using reopen pd(1) by blast
    qed
  qed
qed

end

section \<open>\<^verbatim>\<open>OpenFile\<close>\<close>

text \<open>The object a path leads to, and the bytes a handle opened for writing starts with.\<close>

definition object_at :: "objects \<Rightarrow> string \<Rightarrow> string \<Rightarrow> obj option" where
  "object_at m pre f =
     (case follow m pre maxSymlinkDepth (cleanPath f) of Some (_, Some ob, _) \<Rightarrow> Some ob | _ \<Rightarrow> None)"

definition start_bytes :: "('w \<Rightarrow> objects) \<Rightarrow> string \<Rightarrow> int \<Rightarrow> ('w, 'c, 'd, 'z) wfs_scheme \<Rightarrow> bytes" where
  "start_bytes objs f flag s =
     (if flag AND O_TRUNC \<noteq> 0 then []
      else case ws_open s (cleanPath f) of
        Some a \<Rightarrow> fst (wf_view s (ws_files s a))
      | None \<Rightarrow> (case object_at (objs (fs_world s)) (fs_prefix s) f of Some ob \<Rightarrow> odata ob | None \<Rightarrow> []))"

context s3fs
begin

lemma openResolve_spec:
  assumes ok: "ok s" and op: "openResolve E f flag s = ((p, h, g, n, err), s')"
  shows "still s s'"
    and "err = None \<Longrightarrow> \<exists>ob. follow (store s) (fs_prefix s) maxSymlinkDepth (cleanPath f) = Some (p, ob, n) \<and>
           heads_agree content ob h \<and> (\<forall>gg o1. g = Some gg \<longrightarrow> ob = Some o1 \<longrightarrow> delivers (Body gg) (odata o1))"
proof -
  have "still s s' \<and> (err = None \<longrightarrow> (\<exists>ob. follow (store s) (fs_prefix s) maxSymlinkDepth (cleanPath f) = Some (p, ob, n) \<and>
           heads_agree content ob h \<and> (\<forall>gg o1. g = Some gg \<longrightarrow> ob = Some o1 \<longrightarrow> delivers (Body gg) (odata o1))))"
  proof (cases "flag AND O_TRUNC = 0")
    case True
    then have r: "resolveForRead E ''open'' f s = ((p, h, g, n, err), s')" using op by (simp add: openResolve_def)
    show ?thesis
      using resolveForRead_calm [OF ok r] resolveForReadLoop_spec [OF ok r [unfolded resolveForRead_def]] by fastforce
  next
    case False
    then have r: "resolve E ''open'' f s = ((p, h, n, err), s')" "g = None"
      using op by (auto simp: openResolve_def split: prod.splits)
    show ?thesis
      using resolve_calm [OF ok r(1)] resolveLoop_spec [OF ok r(1) [unfolded resolve_def]] r(2) by fastforce
  qed
  then show "still s s'"
    "err = None \<Longrightarrow> \<exists>ob. follow (store s) (fs_prefix s) maxSymlinkDepth (cleanPath f) = Some (p, ob, n) \<and>
           heads_agree content ob h \<and> (\<forall>gg o1. g = Some gg \<longrightarrow> ob = Some o1 \<longrightarrow> delivers (Body gg) (odata o1))" by blast+
qed

text \<open>The outcomes of \<^verbatim>\<open>OpenFile\<close> when no writer of the path is open.\<close>

lemma openObject_spec:
  assumes s: "sok s" "sizes_ok (store s)" and op: "openObject E f flag perm s = (r, s')"
  shows "(\<exists>e. r = Inl e \<and> still s s') \<or>
    (\<exists>rf p ob n h. r = Inr (ReadFile rf) \<and> \<not> writable flag \<and> \<not> excl flag \<and> still s s' \<and>
       follow (store s) (fs_prefix s) maxSymlinkDepth (cleanPath f) = Some (p, Some ob, n) \<and> head_agrees content ob h \<and>
       serves_open objs p h (odata ob) rf s') \<or>
    (\<exists>a p ob n m. r = Inr (WriteFile a) \<and> p \<noteq> ''/'' \<and> (excl flag \<longrightarrow> ob = None \<and> n = 0) \<and>
       follow (store s) (fs_prefix s) maxSymlinkDepth (cleanPath f) = Some (p, ob, n) \<and>
       w_opened s p flag m (case ob of Some o1 \<Rightarrow> if flag AND O_TRUNC \<noteq> 0 then [] else odata o1 | None \<Rightarrow> [])
         (ob = None \<or> flag AND O_TRUNC \<noteq> 0) a s')"
proof -
  have ok: "ok s" using s(1) by (simp add: sys_ok_def)
  obtain p h g n err s1 where rs: "openResolve E f flag s = ((p, h, g, n, err), s1)" by (metis prod.exhaust)
  note c1 = openResolve_spec(1) [OF ok rs]
  show ?thesis
  proof (cases "err \<noteq> None \<or> p = ''/'' \<or> (excl flag \<and> (h \<noteq> None \<or> n > 0))")
    case True
    then have "\<exists>e. r = Inl e \<and> s' = s1" using op rs by (auto simp: openObject_def split: option.splits if_splits)
    then show ?thesis using c1 by blast
  next
    case False
    obtain ob where fo: "follow (store s) (fs_prefix s) maxSymlinkDepth (cleanPath f) = Some (p, ob, n)"
        "heads_agree content ob h" "\<And>gg o1. g = Some gg \<Longrightarrow> ob = Some o1 \<Longrightarrow> delivers (Body gg) (odata o1)"
      using openResolve_spec(2) [OF ok rs] False by blast
    show ?thesis
    proof (cases h)
      case None
      then have "ob = None" using fo(2) by (auto simp: heads_agree_def split: option.splits)
      obtain x s2 where m: "openMissing E f p flag perm s1 = (x, s2)" by (cases "openMissing E f p flag perm s1")
      have r: "(r, s') = wrap_file WriteFile (x, s2)" using op rs False None m by (auto simp: openObject_def)
      from openMissing_spec [OF s(1) c1 m] show ?thesis
        using r \<open>ob = None\<close> fo(1) False None by (cases x) (auto simp: wrap_file_def)
    next
      case (Some ho)
      then obtain o1 where o1: "ob = Some o1" "head_agrees content o1 ho"
        using fo(2) by (auto simp: heads_agree_def split: option.splits)
      have st: "store s (key (fs_prefix s) p) = Some o1" using follow_end [OF fo(1)] o1(1) by (auto split: if_splits)
      have st1: "store s1 (key (fs_prefix s1) p) = Some o1" using st calmD(2,5) [OF c1] by simp
      note sz = sizes_okD [OF s(2) st]
      have g: "\<And>gg. g = Some gg \<Longrightarrow> delivers (Body gg) (odata o1)" using fo(3) o1(1) by blast
      show ?thesis
      proof (cases "writable flag")
        case True
        obtain x s2 where w: "openForWrite E f p flag ho g s1 = (x, s2)" by (cases "openForWrite E f p flag ho g s1")
        have r: "(r, s') = wrap_file WriteFile (x, s2)" using op rs False Some True w by (auto simp: openObject_def)
        have ws: "(\<forall>e. x = Inl e \<longrightarrow> still s s2) \<and>
            (\<forall>a. x = Inr a \<longrightarrow> w_opened s p flag (obj_mode o1) (if flag AND O_TRUNC \<noteq> 0 then [] else odata o1) (flag AND O_TRUNC \<noteq> 0) a s2)"
          using openForWrite_spec [OF s(1) c1 st1 o1(2) sz _ w] g by blast
        show ?thesis
        proof (cases x)
          case (Inl e)
          then show ?thesis using ws r by (auto simp: wrap_file_def)
        next
          case (Inr a)
          then have "r = Inr (WriteFile a)" "s' = s2" using r by (simp_all add: wrap_file_def)
          then show ?thesis using ws Inr fo(1) o1(1) False Some by fastforce
        qed
      next
        case nw: False
        obtain x s2 where w: "openForRead E p ho g s1 = (x, s2)" by (cases "openForRead E p ho g s1")
        have r: "(r, s') = wrap_file ReadFile (x, s2)" using op rs False Some nw w by (auto simp: openObject_def)
        have rs2: "still s1 s2 \<and> (\<forall>rf. x = Inr rf \<longrightarrow> serves_open objs p ho (odata o1) rf s2)"
          using openForRead_spec [OF calmD(1) [OF c1] st1 o1(2) sz _ w] g by blast
        have c2: "still s s2" using calm_trans [OF c1] rs2 by blast
        show ?thesis
        proof (cases x)
          case (Inl e)
          then show ?thesis using c2 r by (auto simp: wrap_file_def)
        next
          case (Inr rf)
          then have "r = Inr (ReadFile rf)" "s' = s2" using r by (simp_all add: wrap_file_def)
          moreover have "\<not> excl flag" using False Some by blast
          ultimately show ?thesis using rs2 Inr fo(1) o1 c2 nw by blast
        qed
      qed
    qed
  qed
qed

end

lemma follow_zero: "follow m pre n q = Some (p, None, 0) \<Longrightarrow> p \<noteq> ''/'' \<Longrightarrow> p = q \<and> m (key pre q) = None"
  by (cases n; subst (asm) follow.simps) (auto split: option.splits if_splits)

lemma follow_upload:
  assumes "follow m pre n q = Some (p, ob, k)" "p \<noteq> ''/''" "link_of o1 = None"
  shows "follow (m(key pre p \<mapsto> o1)) pre n q = Some (p, Some o1, k)"
  using assms(1)
proof (induction n arbitrary: q k)
  case 0
  have "q \<noteq> ''/''" "p = q" "k = 0" using 0 assms(2) by (subst (asm) follow.simps, auto split: option.splits if_splits)+
  then show ?case using assms(3) by (subst follow.simps) simp
next
  case (Suc n)
  show ?case
  proof (cases "Option.bind (m (key pre q)) link_of")
    case None
    have "q \<noteq> ''/''" "p = q" "k = 0"
      using Suc.prems assms(2) None by (subst (asm) follow.simps, auto split: option.splits if_splits)+
    then show ?thesis using assms(3) by (subst follow.simps) simp
  next
    case (Some t)
    then obtain o2 where o2: "m (key pre q) = Some o2" "link_of o2 = Some t" by (auto simp: bind_eq_Some_conv)
    have q: "q \<noteq> ''/''" using Suc.prems assms(2) by (subst (asm) follow.simps) (auto split: if_splits)
    obtain k1 where k1: "follow m pre n (nextHop q t) = Some (p, ob, k1)" "k = Suc k1"
      using Suc.prems q o2 by (auto simp: follow_hop)
    have "key pre q \<noteq> key pre p" using follow_end [OF Suc.prems] o2 assms(2) by auto
    then have "(m(key pre p \<mapsto> o1)) (key pre q) = Some o2" using o2(1) by simp
    note h = follow_hop [where m = "m(key pre p \<mapsto> o1)" and pre = pre, OF q this o2(2), of n]
    show ?thesis unfolding h Suc.IH [OF k1(1)] k1(2) by simp
  qed
qed


lemma demo_link_sizes: "sizes_ok (fake_objs (fs_world demo_link_wfs))"
  by (auto simp: sizes_ok_def demo_link_wfs_def no_writers_def S3FS.defs demo_links_def link_obj_def int64_def split: if_splits)


section \<open>From writing to reading\<close>

context s3fs
begin

lemma Open_reads:
  assumes s: "sok s" "sizes_ok (store s)" "ws_open s (cleanPath f) = None" and op: "S3FS_Open E f s = (Inr x, s')"
  shows "\<exists>rf ob. x = ReadFile rf \<and> object_at (store s) (fs_prefix s) f = Some ob \<and> ro_pos rf = 0 \<and>
           ro_serves objs rf s' (odata ob) \<and> store s' = store s"
proof -
  obtain y t where l: "openLive E f O_RDONLY s = (y, t)" by (cases "openLive E f O_RDONLY s")
  have fl: "\<not> excl O_RDONLY" by (simp add: excl_def)
  have oo: "openObject E f O_RDONLY 0 s = (Inr x, s')"
    using op l openLive_spec(1) [OF s(1) l s(3)] by (simp add: S3FS_Open_def OpenFile_def)
  have "\<not> (\<exists>a. x = WriteFile a)"
  proof
    assume "\<exists>a. x = WriteFile a"
    then show False using oo by (auto simp: openObject_def openMissing_def writable_def wrap_file_def
        split: prod.splits option.splits if_splits sum.splits bool.splits)
  qed
  with openObject_spec [OF s(1,2) oo] obtain rf p ob n h where
      "x = ReadFile rf" "still s s'" "follow (store s) (fs_prefix s) maxSymlinkDepth (cleanPath f) = Some (p, Some ob, n)"
      "serves_open objs p h (odata ob) rf s'" by auto
  then show ?thesis using calmD(2) [of objs content mview dview s s'] by (simp add: object_at_def serves_open_def)
qed

end

lemma uploaded_link:
  assumes "meta_sim (ometa ob) [(modeMetaKey, octal pm)]"
  shows "link_of ob = None"
proof -
  have "metaValue [(modeMetaKey, octal pm)] symlinkMetaKey = None"
  proof -
    have "\<not> EqualFold modeMetaKey symlinkMetaKey" "symlinkMetaKey \<noteq> modeMetaKey" by code_simp+
    then show ?thesis by (simp add: metaValue_def)
  qed
  then show ?thesis using meta_sim_simps(1) [OF assms] by (simp add: link_of_def)
qed

text \<open>
  C1: what is written is what is read. If a file is created (or truncated) through any path,
  symlinks included, some bytes are written to it and it is closed, all with success, then
  opening the same path again for reading yields, if it succeeds, a handle on the object that
  delivers exactly those bytes; in between, the bytes may have gone through memory, a spill
  file, the upload and either cache tier.
\<close>

theorem write_close_open_roundtrip:
  assumes E: "s3fs E objs content rest pages mview dview" and s: "sys_ok objs content mview dview s"
      "sizes_ok (objs (fs_world s))" "ws_open s (cleanPath f) = None"
    and cr: "S3FS_Create E f s = (Inr (WriteFile a), s1)"
    and wr: "writeFile_Write E p (ws_files s1 a) s1 = ((n, None), f2, s2)" "p \<noteq> []" "int64 (int (length p))"
    and cl: "writeFile_Close E a (set_wf a f2 s2) = (None, s3)" and op: "S3FS_Open E f s3 = (Inr x, s4)"
  shows "\<exists>rf. x = ReadFile rf \<and> ro_pos rf = 0 \<and> ro_serves objs rf s4 p \<and> objs (fs_world s4) = objs (fs_world s3)"
proof -
  let ?fl = "O_RDWR OR O_CREATE OR O_TRUNC"
  have fl: "?fl AND O_TRUNC \<noteq> 0" "?fl AND O_APPEND = 0" by simp_all
  obtain y t1 where l: "openLive E f ?fl s = (y, t1)" by (cases "openLive E f ?fl s")
  have "openObject E f ?fl defaultFileMode s = (Inr (WriteFile a), s1)"
    using cr l s3fs.openLive_spec(1) [OF E s(1) l s(3)] by (simp add: S3FS_Create_def OpenFile_def)
  from s3fs.openObject_spec [OF E s(1,2) this] fl(1) obtain q ob k m where
      q: "q \<noteq> ''/''" "follow (objs (fs_world s)) (fs_prefix s) maxSymlinkDepth (cleanPath f) = Some (q, ob, k)"
      and wo: "writer_opened objs content mview dview s q ?fl m [] True a s1"
    by (auto split: option.splits)
  have w1: "objs (fs_world s1) = objs (fs_world s)" "fs_prefix s1 = fs_prefix s" "views s1 = (views s)(a \<mapsto> ([], 0))" "live s1 a"
      "ws_open s1 = (ws_open s)(q \<mapsto> a)" "wf_name (ws_files s1 a) = q" "wf_flag (ws_files s1 a) = ?fl"
    using wo unfolding writer_opened_def by blast+
  have ok1: "fs_ok objs content mview dview s1" "writers_ok content dview s1" "live s1 a"
    using wo unfolding writer_opened_def sys_ok_def by blast+
  have v1: "wf_view s1 (ws_files s1 a) = ([], 0)" using fun_cong [OF w1(3), of a] views_live [OF ok1(3)] by simp
  note wf1 = writers_okD [OF ok1(2,3)]
  have "buf_len (wf_buf (ws_files s1 a)) = 0" using s3fs.buf_len_data [OF E wf1(2)] v1 by (simp add: wf_view_def)
  moreover have "wf_pos (ws_files s1 a) = 0" using v1 wf1(1) by (simp add: wf_view_def wf_ok_def)
  ultimately have wp: "write_pos (ws_files s1 a) = 0" by (simp add: write_pos_def)
  have na: "\<not> appending (ws_files s1 a)" using fl(2) w1(7) by (simp add: appending_def)
  have len: "int64 (write_pos (ws_files s1 a) + int (length p))" using wp wr(3) by simp
  from s3fs.Write_spec [OF E ok1(1) wf1(1) len disjI1 [OF wr(2)] wr(1)]
  have w2: "wf_ok content dview s2 f2" "wf_view s2 f2 = (p, length p)" "wf_dirty f2" "edits objs content mview dview s1 (ws_files s1 a) s2 f2"
    using v1 na by (simp_all add: file_write_def overlay_def)
  have e2: "wf_name f2 = q" "objs (fs_world s2) = objs (fs_world s)" "same_conf s1 s2"
    using w2(4) w1(1,6) unfolding edits_def by simp_all
  note ew = s3fs.edited_writer [OF E ok1(2,3) w2(4,1)]
  have "wf_closed f2 = wf_closed (ws_files s1 a)" using w2(4) unfolding edits_def by blast
  then have lv: "live (set_wf a f2 s2) a" using ok1(3) by (simp add: live_def)
  note wf2 = writers_okD [OF ew(2) lv]
  note c = s3fs.Close_spec [OF E ew(1) wf2(1,3) cl] and cw = s3fs.Close_writers [OF E ew(1,2) lv cl]
  have pre: "fs_prefix s2 = fs_prefix s" using same_confD(1) [OF e2(3)] w1(2) by simp
  have bd: "buf_data s2 (wf_buf f2) = p" using w2(2) by (simp add: wf_view_def)
  obtain o1 where o1: "objs (fs_world s3) = (objs (fs_world s))(key (fs_prefix s) q \<mapsto> o1)" "odata o1 = p"
      "meta_sim (ometa o1) [(modeMetaKey, octal (wf_perm f2))]"
    using c(3) w2(3) bd e2(1,2) pre by (auto simp: uploaded_def)
  have s3: "sys_ok objs content mview dview s3" using c(1) cw(1) by (simp add: sys_ok_def)
  have "sizes_ok (objs (fs_world s3))" using s(2) o1(1,2) wr(3) by (auto simp: sizes_ok_def)
  moreover have "object_at (objs (fs_world s3)) (fs_prefix s3) f = Some o1"
    using follow_upload [OF q(2,1) uploaded_link [OF o1(3)]] o1(1) c(2) pre by (simp add: object_at_def)
  moreover have "ws_open s3 (cleanPath f) = None"
    using c(7) e2(1) wfs_same [OF e2(3)] w1(5) s(3) by (auto simp: untracked_def)
  ultimately show ?thesis
    using s3fs.Open_reads [OF E s3 _ _ op] o1(2) by fastforce
qed

text \<open>Without cache tiers an existing object is opened as the stream its resolution brought.\<close>

lemma openFromGet_bare:
  "fs_mem s = None \<Longrightarrow> fs_disk s = None \<Longrightarrow> \<exists>f s'. openFromGet E p h g s = (Inr f, s')"
  by (simp add: openFromGet_def Let_def fits_mem_def fits_disk_def split: prod.split)

lemma bare_open:
  assumes "ws_open s (cleanPath f) = None"
    "case fst (openResolve E f O_RDONLY s) of (p, h, g, hops, err) \<Rightarrow> p \<noteq> ''/'' \<and> h \<noteq> None \<and> g \<noteq> None \<and> err = None"
    "fs_mem (snd (openResolve E f O_RDONLY s)) = None" "fs_disk (snd (openResolve E f O_RDONLY s)) = None"
  shows "\<exists>x. fst (S3FS_Open E f s) = Inr x"
proof -
  obtain p h g n s1 where r: "openResolve E f O_RDONLY s = ((p, Some h, Some g, n, None), s1)" "p \<noteq> ''/''"
    using assms(2) by (cases "openResolve E f O_RDONLY s") auto
  obtain rf s2 where o: "openFromGet E p h g s1 = (Inr rf, s2)" using openFromGet_bare [of s1 E p h g] assms(3,4) r(1) by auto
  have "openLive E f O_RDONLY s = (None, s)" using assms(1) by (simp add: openLive_def lookupWrite_def)
  then show ?thesis
    using r o by (simp add: S3FS_Open_def OpenFile_def openObject_def openForRead_def excl_def writable_def wrap_file_def)
qed

definition rt_created :: "(goerr + File) \<times> (fake, (string \<times> memEntry lruEntry) list, (string \<times> diskEntry lruEntry) list) wfs" where
  "rt_created = S3FS_Create fake_env ''l1'' demo_link_wfs"

definition rt_written ::
    "(nat \<times> goerr option) \<times> writeFile \<times> (fake, (string \<times> memEntry lruEntry) list, (string \<times> diskEntry lruEntry) list) wfs" where
  "rt_written = writeFile_Write fake_env [5, 6] (ws_files (snd rt_created) 0) (snd rt_created)"

definition rt_closed :: "goerr option \<times> (fake, (string \<times> memEntry lruEntry) list, (string \<times> diskEntry lruEntry) list) wfs" where
  "rt_closed = writeFile_Close fake_env 0 (set_wf 0 (fst (snd rt_written)) (snd (snd rt_written)))"

definition rt_opened :: "(goerr + File) \<times> (fake, (string \<times> memEntry lruEntry) list, (string \<times> diskEntry lruEntry) list) wfs" where
  "rt_opened = S3FS_Open fake_env ''l1'' (snd rt_closed)"

theorem write_close_open_roundtrip_witness:
  "\<exists>rf. fst rt_opened = Inr (ReadFile rf) \<and> ro_serves fake_objs rf (snd rt_opened) [5, 6]"
proof -
  have "(case fst rt_created of Inr (WriteFile a) \<Rightarrow> a = 0 | _ \<Rightarrow> False)" by code_simp
  then have 1: "S3FS_Create fake_env ''l1'' demo_link_wfs = (Inr (WriteFile 0), snd rt_created)"
    by (cases rt_created) (auto simp: rt_created_def split: sum.splits File.splits)
  have "fst rt_written = (2, None)" by code_simp
  then have 2: "writeFile_Write fake_env [5, 6] (ws_files (snd rt_created) 0) (snd rt_created) =
      ((2, None), fst (snd rt_written), snd (snd rt_written))"
    by (metis prod.collapse rt_written_def)
  have "fst rt_closed = None" by code_simp
  then have 3: "writeFile_Close fake_env 0 (set_wf 0 (fst (snd rt_written)) (snd (snd rt_written))) = (None, snd rt_closed)"
    by (metis prod.collapse rt_closed_def)
  have live: "ws_open (snd rt_closed) (cleanPath ''l1'') = None" by code_simp
  have ev: "(case fst (openResolve fake_env ''l1'' O_RDONLY (snd rt_closed)) of
      (p, h, g, hops, err) \<Rightarrow> p \<noteq> ''/'' \<and> h \<noteq> None \<and> g \<noteq> None \<and> err = None)" by code_simp
  have bare: "(case snd (openResolve fake_env ''l1'' O_RDONLY (snd rt_closed)) of s \<Rightarrow>
      (case fs_mem s of None \<Rightarrow> True | _ \<Rightarrow> False) \<and> (case fs_disk s of None \<Rightarrow> True | _ \<Rightarrow> False))" by code_simp
  obtain x where x: "fst rt_opened = Inr x"
    using bare_open [OF live ev] bare unfolding rt_opened_def by (auto split: option.splits)
  then have 4: "S3FS_Open fake_env ''l1'' (snd rt_closed) = (Inr x, snd rt_opened)"
    by (metis prod.collapse rt_opened_def)
  have "ws_open demo_link_wfs (cleanPath ''l1'') = None" by (simp add: demo_link_wfs_def no_writers_def S3FS.defs)
  from write_close_open_roundtrip [OF fake_fs.s3fs_axioms demo_link_wfs_ok demo_link_sizes this 1 2 _ _ 3 4]
  show ?thesis using x by (auto simp: int64_def)
qed

end
