(* ===== verification/Dirs.thy ===== *)
theory Dirs
  imports Opening
begin

text \<open>
  Renaming, removing and creating directories: the effect of the methods of \<^verbatim>\<open>s3fs.go\<close> that
  change names, on the map of objects.
\<close>

section \<open>Moving and deleting many objects\<close>

text \<open>What an object holds, without its entity tag.\<close>

definition holds_at :: "objects \<Rightarrow> string \<Rightarrow> (bytes \<times> strmap) option" where
  "holds_at m k = map_option (\<lambda>ob. (odata ob, ometa ob)) (m k)"

lemma holds_at_None [simp]: "holds_at m k = None \<longleftrightarrow> m k = None"
  by (simp add: holds_at_def)

text \<open>A tree moved from one prefix to another.\<close>

definition moved :: "string set \<Rightarrow> string \<Rightarrow> string \<Rightarrow> (string \<Rightarrow> 'a option) \<Rightarrow> string \<Rightarrow> 'a option" where
  "moved ks old new m k =
     (if prefix new k \<and> old @ drop (length new) k \<in> ks then m (old @ drop (length new) k) else m k)"

lemma TrimPrefix_drop: "prefix pre k \<Longrightarrow> TrimPrefix k pre = drop (length pre) k"
  by (auto simp: TrimPrefix_def HasPrefix_def prefix_def)

lemma prefix_comparable: "new @ x = old @ y \<Longrightarrow> prefix new old \<or> prefix old new"
  by (metis prefixI prefix_same_cases)

context s3fs
begin

lemma deleteAll_spec:
  assumes "ok s" "deleteAll E ks s = (None, s')"
  shows "ok s' \<and> same_conf s s' \<and> kept s s' \<and> store s' = (\<lambda>k. if k \<in> set ks then None else store s k)"
  using assms
proof (induction ks arbitrary: s)
  case (Cons k ks)
  obtain s1 where d: "S3FS_delete E k s = (None, s1)" "deleteAll E ks s1 = (None, s')"
    using Cons.prems(2) by (auto split: prod.splits option.splits)
  note o1 = delete_ok [OF Cons.prems(1) d(1)] and k1 = delete_keeps [OF ok_disk [OF Cons.prems(1)] d(1)]
  from Cons.IH [OF o1(1) d(2)] show ?case
    using o1(2,3) k1 same_conf_trans keeps_trans by fastforce
qed simp

lemma copyAll_ok:
  assumes "ok s" "copyAll E old new ks s = (None, s')"
  shows "ok s' \<and> same_conf s s' \<and> kept s s'"
  using assms
proof (induction ks arbitrary: s)
  case (Cons k ks)
  obtain s1 where d: "S3FS_copy E k (new @ TrimPrefix k old) s = (None, s1)" "copyAll E old new ks s1 = (None, s')"
    using Cons.prems(2) by (auto split: prod.splits option.splits)
  note o1 = copy_ok [OF Cons.prems(1) d(1)] and k1 = copy_keeps [OF ok_disk [OF Cons.prems(1)] d(1)]
  from Cons.IH [OF o1(1) d(2)] show ?case using o1(2) k1 same_conf_trans keeps_trans by blast
qed simp

lemma copyAll_spec:
  assumes "ok s" "copyAll E old new ks s = (None, s')" "\<forall>k \<in> set ks. prefix old k" "\<not> prefix new old" "\<not> prefix old new"
  shows "ok s' \<and> same_conf s s' \<and> kept s s' \<and> holds_at (store s') = moved (set ks) old new (holds_at (store s))"
  using assms(1-3)
proof (induction ks arbitrary: s)
  case Nil
  then show ?case by (auto simp: moved_def)
next
  case (Cons k ks)
  obtain x where k: "k = old @ x" using Cons.prems(3) by (auto simp: prefix_def)
  have tp: "TrimPrefix k old = x" using TrimPrefix_drop [of old k] k by simp
  obtain s1 where d: "S3FS_copy E k (new @ x) s = (None, s1)" "copyAll E old new ks s1 = (None, s')"
    using Cons.prems(2) tp by (auto split: prod.splits option.splits)
  note o1 = copy_ok [OF Cons.prems(1) d(1)] and k1 = copy_keeps [OF ok_disk [OF Cons.prems(1)] d(1)]
  have ih: "ok s' \<and> same_conf s1 s' \<and> kept s1 s' \<and> holds_at (store s') = moved (set ks) old new (holds_at (store s1))"
    using Cons.IH [OF o1(1) d(2)] Cons.prems(3) by simp
  have st: "holds_at (store s1) = (holds_at (store s))(new @ x := holds_at (store s) k)"
    using o1(3) by (auto simp: holds_at_def)
  have src: "old @ y \<noteq> new @ z" for y z using prefix_comparable [of new z old y] assms(4,5) by metis
  have "moved (set ks) old new (holds_at (store s1)) j = moved (set (k # ks)) old new (holds_at (store s)) j" for j
  proof (cases "prefix new j")
    case True
    then obtain z where "j = new @ z" by (auto simp: prefix_def)
    then show ?thesis using st src k by (auto simp: moved_def)
  next
    case False
    then have "j \<noteq> new @ x" by (auto simp: prefix_def)
    then show ?thesis using st False by (simp add: moved_def)
  qed
  then have "holds_at (store s') = moved (set (k # ks)) old new (holds_at (store s))" using ih by auto
  then show ?case using ih o1(2) k1 same_conf_trans keeps_trans by blast
qed

end

section \<open>Renaming\<close>

lemma listPrefix_guard:
  assumes "cleanPath p \<noteq> ''/''" "cleanPath q \<noteq> ''/''"
  shows "HasPrefix (cleanPath q @ ''/'') (cleanPath p @ ''/'') \<longleftrightarrow> prefix (listPrefix pre p) (listPrefix pre q)"
proof -
  have ne: "elems p \<noteq> []" "elems q \<noteq> []" using assms cleanPath_root_iff by blast+
  have c: "cleanPath x = slash # join_slash (elems x)" for x by (simp add: cleanPath_abs_path abs_path_def)
  show ?thesis
    by (cases "pre = ''''") (simp_all add: c HasPrefix_def listPrefix_eq ne key_eq_prefixed, simp add: key_eq)
qed

text \<open>The effect of a rename on what the bucket holds.\<close>

definition renamed :: "string \<Rightarrow> string \<Rightarrow> string \<Rightarrow> objects \<Rightarrow> objects \<Rightarrow> bool" where
  "renamed pre old new m m' \<longleftrightarrow>
     (if m (key pre old) \<noteq> None
      then holds_at m' = (holds_at m)(key pre new := holds_at m (key pre old), key pre old := None)
      else holds_at m' =
        (\<lambda>k. if prefix (listPrefix pre old) k then None
             else moved (keys_under m (listPrefix pre old)) (listPrefix pre old) (listPrefix pre new) (holds_at m) k))"

context s3fs
begin

lemma rename_object:
  assumes "ok s" "S3FS_copy E (key pre old) (key pre new) s = (None, s1)" "S3FS_delete E (key pre old) s1 = (None, s')"
    "key pre old \<noteq> key pre new"
  shows "ok s' \<and> same_conf s s' \<and> kept s s' \<and>
         holds_at (store s') = (holds_at (store s))(key pre new := holds_at (store s) (key pre old), key pre old := None)"
proof -
  note c = copy_ok [OF assms(1,2)] and ck = copy_keeps [OF ok_disk [OF assms(1)] assms(2)]
  note d = delete_ok [OF c(1) assms(3)] and dk = delete_keeps [OF ok_disk [OF c(1)] assms(3)]
  have "holds_at (store s') = (holds_at (store s))(key pre new := holds_at (store s) (key pre old), key pre old := None)"
    using c(3) d(3) assms(4) by (auto simp: holds_at_def)
  then show ?thesis using d(1) same_conf_trans [OF c(2) d(2)] keeps_trans [OF ck dk] by blast
qed

lemma rename_tree_ok:
  assumes ok: "ok s"
    and ks: "listAllKeys E fuel old s = Some (Inr ks, s1)" "copyAll E old new ks s1 = (None, s2)" "deleteAll E ks s2 = (None, s')"
  shows "ok s' \<and> same_conf s s' \<and> kept s s'"
proof -
  note l = listAllKeys_calm [OF ok ks(1)]
  note c = copyAll_ok [OF calmD(1) [OF l] ks(2)]
  have "ok s2" using c by blast
  from deleteAll_spec [OF this ks(3)] c calmD(3,4) [OF l] show ?thesis using same_conf_trans keeps_trans by blast
qed

lemma rename_tree:
  assumes ok: "ok s" and np: "\<not> prefix new old" "\<not> prefix old new"
    and ks: "listAllKeys E fuel old s = Some (Inr ks, s1)" "copyAll E old new ks s1 = (None, s2)" "deleteAll E ks s2 = (None, s')"
  shows "holds_at (store s') = (\<lambda>k. if prefix old k then None else moved (keys_under (store s) old) old new (holds_at (store s)) k)"
proof -
  note l = listAllKeys_calm [OF ok ks(1)] and lk = listAllKeys_spec(4) [OF ok ks(1) refl]
  have pk: "\<forall>k \<in> set ks. prefix old k" using lk by (auto simp: keys_under_def)
  note c = copyAll_spec [OF calmD(1) [OF l] ks(2) pk np]
  have ok2: "ok s2" using c by blast
  note d = deleteAll_spec [OF ok2 ks(3)]
  have h2: "holds_at (store s2) = moved (keys_under (store s) old) old new (holds_at (store s))"
    using c lk calmD(2) [OF l] by simp
  have "holds_at (store s') k = (if prefix old k then None else holds_at (store s2) k)" for k
  proof (cases "prefix old k")
    case True
    then have "\<not> prefix new k" using np prefix_same_cases by blast
    then have "holds_at (store s2) k = holds_at (store s) k" using h2 by (simp add: moved_def)
    then show ?thesis using d lk True by (auto simp: holds_at_def keys_under_def)
  next
    case False
    then have "k \<notin> set ks" using pk by blast
    then show ?thesis using d False by (simp add: holds_at_def)
  qed
  then show ?thesis using h2 by auto
qed

lemma Rename_spec:
  assumes ok: "ok s" and op: "S3FS_Rename E fuel old new s = Some (None, s')" and ne: "cleanPath old \<noteq> cleanPath new"
  shows "ok s' \<and> same_conf s s' \<and> kept s s' \<and>
    ((store s (key (fs_prefix s) old) = None \<longrightarrow>
        \<not> prefix (listPrefix (fs_prefix s) new) (listPrefix (fs_prefix s) old)) \<longrightarrow>
      renamed (fs_prefix s) old new (store s) (store s'))"
proof -
  let ?old = "cleanPath old" and ?new = "cleanPath new" and ?pre = "fs_prefix s"
  have root: "?old \<noteq> ''/''" "?new \<noteq> ''/''" using op by (auto simp: S3FS_Rename_def Let_def split: if_splits)
  have kn: "key ?pre old \<noteq> key ?pre new" using ne key_inj_iff cleanPath_eq_iff by blast
  obtain x s1 where hd: "S3FS_head E (key ?pre ?old) s = (x, s1)" by (cases "S3FS_head E (key ?pre ?old) s")
  note c1 = head_calm [OF ok hd ok_key [OF ok]] and an = head_spec(5) [OF ok hd ok_key [OF ok]]
  note st1 = calmD(2,5) [OF c1]
  show ?thesis
  proof (cases x)
    case (Inr h)
    obtain s2 where cp: "S3FS_copy E (key ?pre old) (key ?pre new) s1 = (None, s2)" "S3FS_delete E (key (fs_prefix s2) old) s2 = (None, s')"
      using op root ne hd Inr st1 by (auto simp: S3FS_Rename_def Let_def split: prod.splits option.splits)
    have "fs_prefix s2 = ?pre" using copy_ok(2) [OF calmD(1) [OF c1] cp(1)] st1(2) by (simp add: same_conf_def)
    then have "S3FS_delete E (key ?pre old) s2 = (None, s')" using cp(2) by simp
    note r = rename_object [OF calmD(1) [OF c1] cp(1) this kn]
    have "store s (key ?pre old) \<noteq> None" using an Inr by (auto simp: answers_def)
    then show ?thesis
      using r st1 same_conf_trans [OF calmD(3) [OF c1]] keeps_trans [OF calmD(4) [OF c1]] by (simp add: renamed_def)
  next
    case (Inl e)
    obtain s2 where nf: "isNotFound e" and de: "dirExists E ?old s1 = (Inr True, s2)"
        and rd: "renameDir E fuel old new ?old ?new s2 = Some (None, s')"
      using op root ne hd Inl by (auto simp: S3FS_Rename_def Let_def split: if_splits prod.splits sum.splits bool.splits)
    note pr = probe_missing [OF ok hd [unfolded Inl] nf de]
    note st2 = calmD(2,5) [OF pr(1)]
    obtain ks s3 s4 where np: "\<not> HasPrefix (?new @ ''/'') (?old @ ''/'')"
        and ks: "listAllKeys E fuel (listPrefix ?pre old) s2 = Some (Inr ks, s3)"
          "copyAll E (listPrefix (fs_prefix s3) old) (listPrefix (fs_prefix s3) new) ks s3 = (None, s4)" "deleteAll E ks s4 = (None, s')"
      using rd st2(2) by (auto simp: renameDir_def split: if_splits option.splits prod.splits sum.splits)
    have "fs_prefix s3 = ?pre" using calmD(5) [OF listAllKeys_calm [OF calmD(1) [OF pr(1)] ks(1)]] st2(2) by simp
    then have cp: "copyAll E (listPrefix ?pre old) (listPrefix ?pre new) ks s3 = (None, s4)" using ks(2) by simp
    have gd: "\<not> prefix (listPrefix ?pre old) (listPrefix ?pre new)" using np listPrefix_guard [OF root] by simp
    note t = rename_tree_ok [OF calmD(1) [OF pr(1)] ks(1) cp ks(3)]
    have "renamed ?pre old new (store s) (store s')" if "\<not> prefix (listPrefix ?pre new) (listPrefix ?pre old)"
      using rename_tree [OF calmD(1) [OF pr(1)] that gd ks(1) cp ks(3), unfolded st2(1)] pr(2) by (simp add: renamed_def)
    then show ?thesis
      using t pr(2) same_conf_trans [OF calmD(3) [OF pr(1)]] keeps_trans [OF calmD(4) [OF pr(1)]] by simp
  qed
qed

end



text \<open>A bucket in which the directory \<open>a/b\<close> has a directory \<open>b\<close> of its own.\<close>

definition nested_fs :: "(fake, (string \<times> memEntry lruEntry) list, (string \<times> diskEntry lruEntry) list) S3FS" where
  "nested_fs = demo_fs\<lparr>fs_world := \<lparr>bucket_objs =
     [(''a/b/x'', \<lparr>odata = [2], ometa = [], oetag = tag_of [2]\<rparr>),
      (''a/b/b/x'', \<lparr>odata = [1], ometa = [], oetag = tag_of [1]\<rparr>)], fake_clock = 9\<rparr>\<rparr>"


section \<open>Removing\<close>

context s3fs
begin

text \<open>A listing that is not truncated has all keys under the prefix.\<close>

lemma whole_page:
  assumes "ListObjectsV2 (client E) inp w = (Inr out, w')" "list_Delimiter inp = None"
    "list_ContinuationToken inp = None" "\<not> ToBool (IsTruncated out)"
  shows "set (map (\<lambda>x. ToString (obj_Key x)) (Contents out)) = keys_under (objs w) (list_Prefix inp)"
  using ListObjectsV2_page [OF assms(1,2)] assms(3,4) rest_start [of w "list_Prefix inp"] by simp

text \<open>A truncated one means that there are at least two keys or that more are to come.\<close>

lemma removeDir_spec:
  assumes ok: "ok s" and op: "removeDir E f pre s = (r, s')"
  shows "r = None \<Longrightarrow> ok s' \<and> same_conf s s' \<and> kept s s' \<and> keys_under (store s) pre = {pre} \<and> store s' = (store s)(pre := None)"
    and "answering (client E) \<Longrightarrow> keys_under (store s) pre - {pre} \<noteq> {} \<Longrightarrow>
           r = Some (PathError ''remove'' f ErrDirNotEmpty) \<and> still s s'"
    and "answering (client E) \<Longrightarrow> keys_under (store s) pre = {} \<Longrightarrow>
           r = Some (PathError ''remove'' f ErrNotExist) \<and> still s s'"
proof -
  let ?i = "\<lparr>list_Bucket = fs_bucket s, list_Prefix = pre, list_Delimiter = None, list_MaxKeys = Some 2,
             list_ContinuationToken = None\<rparr>"
  obtain y w where rq: "ListObjectsV2 (client E) ?i (fs_world s) = (y, w)"
    by (cases "ListObjectsV2 (client E) ?i (fs_world s)")
  have c: "still s (s\<lparr>fs_world := w\<rparr>)" by (rule world_calm [OF ok ListObjectsV2_objs [OF rq]])
  have *: "(r = None \<longrightarrow> ok s' \<and> same_conf s s' \<and> kept s s' \<and> keys_under (store s) pre = {pre} \<and> store s' = (store s)(pre := None)) \<and>
     (answering (client E) \<longrightarrow> keys_under (store s) pre - {pre} \<noteq> {} \<longrightarrow>
        r = Some (PathError ''remove'' f ErrDirNotEmpty) \<and> still s s') \<and>
     (answering (client E) \<longrightarrow> keys_under (store s) pre = {} \<longrightarrow> r = Some (PathError ''remove'' f ErrNotExist) \<and> still s s')"
  proof (cases y)
    case (Inl e)
    then show ?thesis using op rq by (auto simp: removeDir_def request_def answering_def)
  next
    case (Inr out)
    note rq1 = rq [unfolded Inr]
    have one: "(Contents out \<noteq> [] \<or> ToBool (IsTruncated out)) = (keys_under (store s) pre \<noteq> {})"
      using one_page [OF rq1] by simp
    have rd: "(if ToBool (IsTruncated out) then (Some (PathError ''remove'' f ErrDirNotEmpty), s\<lparr>fs_world := w\<rparr>)
        else if Contents out = [] then (Some (PathError ''remove'' f ErrNotExist), s\<lparr>fs_world := w\<rparr>)
        else if list_ex (\<lambda>x. ToString (obj_Key x) \<noteq> pre) (Contents out)
        then (Some (PathError ''remove'' f ErrDirNotEmpty), s\<lparr>fs_world := w\<rparr>)
        else S3FS_delete E pre (s\<lparr>fs_world := w\<rparr>)) = (r, s')"
      using op rq1 by (simp add: removeDir_def request_def)
    show ?thesis
    proof (cases "ToBool (IsTruncated out)")
      case True
      then show ?thesis using rd c one by auto
    next
      case False
      have all: "set (map (\<lambda>x. ToString (obj_Key x)) (Contents out)) = keys_under (store s) pre"
        using whole_page [OF rq1 _ _ False] by simp
      show ?thesis
      proof (cases "\<exists>k \<in> keys_under (store s) pre. k \<noteq> pre")
        case True
        then have "Contents out \<noteq> []" "list_ex (\<lambda>x. ToString (obj_Key x) \<noteq> pre) (Contents out)"
          using all by (auto simp: list_ex_iff)
        then show ?thesis using rd False c True by auto
      next
        case nk: False
        show ?thesis
        proof (cases "Contents out = []")
          case True
          then show ?thesis using rd False c all by auto
        next
          case ne: False
          then have ku: "keys_under (store s) pre = {pre}" using nk all one by auto
          then have "\<not> list_ex (\<lambda>x. ToString (obj_Key x) \<noteq> pre) (Contents out)" using all by (auto simp: list_ex_iff)
          then have de: "S3FS_delete E pre (s\<lparr>fs_world := w\<rparr>) = (r, s')" using rd False ne by simp
          show ?thesis
          proof (cases r)
            case None
            note d = delete_ok [OF calmD(1) [OF c] de [unfolded None]]
              and dk = delete_keeps [OF ok_disk [OF calmD(1) [OF c]] de]
            show ?thesis
              using d ku None calmD(2) [OF c] same_conf_trans [OF calmD(3) [OF c] d(2)] keeps_trans [OF calmD(4) [OF c] dk] by simp
          qed (use ku in simp)
        qed
      qed
    qed
  qed
  then show "r = None \<Longrightarrow> ok s' \<and> same_conf s s' \<and> kept s s' \<and> keys_under (store s) pre = {pre} \<and> store s' = (store s)(pre := None)"
    "answering (client E) \<Longrightarrow> keys_under (store s) pre - {pre} \<noteq> {} \<Longrightarrow>
           r = Some (PathError ''remove'' f ErrDirNotEmpty) \<and> still s s'"
    "answering (client E) \<Longrightarrow> keys_under (store s) pre = {} \<Longrightarrow>
           r = Some (PathError ''remove'' f ErrNotExist) \<and> still s s'" by blast+
qed

lemma Remove_spec:
  assumes ok: "ok s" and op: "S3FS_Remove E f s = (r, s')" and nr: "cleanPath f \<noteq> ''/''"
  shows "r = None \<Longrightarrow> ok s' \<and> same_conf s s' \<and> kept s s' \<and>
      (if store s (key (fs_prefix s) f) \<noteq> None then store s' = (store s)(key (fs_prefix s) f := None)
       else keys_under (store s) (listPrefix (fs_prefix s) f) = {listPrefix (fs_prefix s) f} \<and>
            store s' = (store s)(listPrefix (fs_prefix s) f := None))"
    and "answering (client E) \<Longrightarrow> store s (key (fs_prefix s) f) = None \<Longrightarrow>
      keys_under (store s) (listPrefix (fs_prefix s) f) - {listPrefix (fs_prefix s) f} \<noteq> {} \<Longrightarrow>
      r = Some (PathError ''remove'' f ErrDirNotEmpty) \<and> still s s'"
    and "answering (client E) \<Longrightarrow> store s (key (fs_prefix s) f) = None \<Longrightarrow>
      keys_under (store s) (listPrefix (fs_prefix s) f) = {} \<Longrightarrow>
      r = Some (PathError ''remove'' f ErrNotExist) \<and> still s s'"
proof -
  let ?k = "key (fs_prefix s) f" and ?l = "listPrefix (fs_prefix s) f"
  obtain x s1 where hd: "S3FS_head E ?k s = (x, s1)" by (cases "S3FS_head E ?k s")
  note c1 = head_calm [OF ok hd ok_key [OF ok]] and an = head_spec(5) [OF ok hd ok_key [OF ok]]
  note st1 = calmD(2,5) [OF c1] and tr = same_conf_trans [OF calmD(3) [OF c1]] keeps_trans [OF calmD(4) [OF c1]]
    and ct = calm_trans [OF c1]
  have *: "(r = None \<longrightarrow> ok s' \<and> same_conf s s' \<and> kept s s' \<and>
      (if store s ?k \<noteq> None then store s' = (store s)(?k := None)
       else keys_under (store s) ?l = {?l} \<and> store s' = (store s)(?l := None))) \<and>
    (answering (client E) \<longrightarrow> store s ?k = None \<longrightarrow> keys_under (store s) ?l - {?l} \<noteq> {} \<longrightarrow>
      r = Some (PathError ''remove'' f ErrDirNotEmpty) \<and> still s s') \<and>
    (answering (client E) \<longrightarrow> store s ?k = None \<longrightarrow> keys_under (store s) ?l = {} \<longrightarrow>
      r = Some (PathError ''remove'' f ErrNotExist) \<and> still s s')"
  proof (cases x)
    case (Inr h)
    have de: "S3FS_delete E ?k s1 = (r, s')" using op nr hd Inr st1 by (simp add: S3FS_Remove_def Let_def)
    obtain ob where ex: "store s ?k = Some ob" using an Inr by (auto simp: answers_def)
    show ?thesis
    proof (cases r)
      case None
      note d = delete_ok [OF calmD(1) [OF c1] de [unfolded None], unfolded st1(1)]
        and dk = delete_keeps [OF ok_disk [OF calmD(1) [OF c1]] de]
      show ?thesis unfolding ex if_P [OF option.distinct(2)] using d(1,3) tr(1) [OF d(2)] tr(2) [OF dk] by blast
    next
      case (Some e)
      then show ?thesis unfolding ex by blast
    qed
  next
    case (Inl e)
    show ?thesis
    proof (cases "isNotFound e")
      case True
      then have no: "store s ?k = None" using an Inl by (simp add: answers_def)
      have rd: "removeDir E f ?l s1 = (r, s')" using op nr hd Inl True st1 by (simp add: S3FS_Remove_def Let_def)
      note rs = removeDir_spec [OF calmD(1) [OF c1] rd, unfolded st1(1)]
      have "r = None \<Longrightarrow> ok s' \<and> same_conf s s' \<and> kept s s' \<and> keys_under (store s) ?l = {?l} \<and> store s' = (store s)(?l := None)"
        using rs(1) tr by blast
      moreover have "answering (client E) \<Longrightarrow> keys_under (store s) ?l - {?l} \<noteq> {} \<Longrightarrow>
          r = Some (PathError ''remove'' f ErrDirNotEmpty) \<and> still s s'" using rs(2) ct by blast
      moreover have "answering (client E) \<Longrightarrow> keys_under (store s) ?l = {} \<Longrightarrow>
          r = Some (PathError ''remove'' f ErrNotExist) \<and> still s s'" using rs(3) ct by blast
      moreover have nn: "\<not> store s ?k \<noteq> None" using no by simp
      ultimately show ?thesis unfolding if_not_P [OF nn] by blast
    next
      case False
      then have "\<not> answering (client E)" "r = Some e"
        using head_answers [of ?k s e s1] op nr hd Inl by (auto simp: S3FS_Remove_def Let_def)
      then show ?thesis by simp
    qed
  qed
  then show "r = None \<Longrightarrow> ok s' \<and> same_conf s s' \<and> kept s s' \<and>
      (if store s ?k \<noteq> None then store s' = (store s)(?k := None)
       else keys_under (store s) ?l = {?l} \<and> store s' = (store s)(?l := None))"
    "answering (client E) \<Longrightarrow> store s ?k = None \<Longrightarrow> keys_under (store s) ?l - {?l} \<noteq> {} \<Longrightarrow>
      r = Some (PathError ''remove'' f ErrDirNotEmpty) \<and> still s s'"
    "answering (client E) \<Longrightarrow> store s ?k = None \<Longrightarrow> keys_under (store s) ?l = {} \<Longrightarrow>
      r = Some (PathError ''remove'' f ErrNotExist) \<and> still s s'" by blast+
qed

lemma MkdirAll_spec:
  assumes ok: "ok s" and op: "S3FS_MkdirAll E p perm s = (None, s')"
  shows "\<exists>rp n. follow (store s) (fs_prefix s) maxSymlinkDepth (cleanPath p) = Some (rp, None, n) \<and>
    ok s' \<and> same_conf s s' \<and> kept s s' \<and> dir_in (store s') (fs_prefix s) rp \<and>
    (store s' = store s \<or>
     keys_under (store s) (listPrefix (fs_prefix s) rp) = {} \<and>
       (\<exists>ob. store s' = (store s)(listPrefix (fs_prefix s) rp \<mapsto> ob) \<and> odata ob = []))"
proof -
  obtain rp h n err s1 where rs: "resolve E ''mkdir'' p s = ((rp, h, n, err), s1)" by (metis prod.exhaust)
  note c1 = resolve_calm [OF ok rs]
  have e: "err = None" "rp = ''/'' \<or> h = None" using op rs by (auto simp: S3FS_MkdirAll_def split: option.splits if_splits)
  obtain ob where fo: "follow (store s) (fs_prefix s) maxSymlinkDepth (cleanPath p) = Some (rp, ob, n)" "heads_agree content ob h"
    using resolveLoop_spec [OF ok rs [unfolded resolve_def]] e(1) by auto
  have obn: "ob = None" using follow_end [OF fo(1)] e(2) fo(2) by (auto simp: heads_agree_def split: option.splits)
  show ?thesis
  proof (cases "rp = ''/''")
    case True
    then have "s' = s1" using op rs e by (simp add: S3FS_MkdirAll_def)
    moreover have "dir_in (store s1) (fs_prefix s) rp" using True by (simp add: dir_in_def cleanPath_root_iff)
    ultimately show ?thesis using fo(1) obn c1 calmD(2,5) [OF c1] by (auto simp: calm_def)
  next
    case False
    obtain d s2 where de: "dirExists E rp s1 = (Inr d, s2)"
        and fin: "(if d then (None, s2) else S3FS_put E (listPrefix (fs_prefix s2) rp) None [] s2) = (None, s')"
      using op rs e False by (auto simp: S3FS_MkdirAll_def split: prod.splits sum.splits bool.splits)
    note c2 = calm_trans [OF c1 dirExists_calm [OF calmD(1) [OF c1] de]]
    have d: "d = dir_in (store s) (fs_prefix s) rp"
      using dirExists_spec(5) [OF calmD(1) [OF c1] de refl] calmD(2,5) [OF c1] by simp
    show ?thesis
    proof (cases d)
      case True
      then have "s' = s2" using fin by simp
      then show ?thesis using fo(1) obn c2 d True calmD(2) [OF c2] by (auto simp: calm_def)
    next
      case nd: False
      have pt: "S3FS_put E (listPrefix (fs_prefix s) rp) None [] s2 = (None, s')" using fin nd calmD(5) [OF c2] by simp
      note po = put_ok [OF calmD(1) [OF c2] pt] and pk = put_keeps [OF ok_disk [OF calmD(1) [OF c2]] pt]
      obtain ob1 where o1: "store s' = (store s)(listPrefix (fs_prefix s) rp \<mapsto> ob1)" "odata ob1 = []"
        using po(3) calmD(2) [OF c2] by auto
      then have "dir_in (store s') (fs_prefix s) rp" by (auto simp: dir_in_def keys_under_def)
      moreover have "keys_under (store s) (listPrefix (fs_prefix s) rp) = {}" using d nd by (simp add: dir_in_def)
      ultimately show ?thesis
        using fo(1) obn o1 po(1) same_conf_trans [OF calmD(3) [OF c2] po(2)] keeps_trans [OF calmD(4) [OF c2] pk] by blast
    qed
  qed
qed

end

text \<open>
  C7: \<^verbatim>\<open>Remove\<close> removes exactly what it names. On success either the object of the path is gone,
  or the path was a directory with nothing in it but its own marker and the marker is gone;
  no other object changes. If the store answers, a directory with anything in it is refused as
  not empty and a missing path as not existing, and then nothing changes.
\<close>

theorem remove_exact:
  assumes "s3fs E objs content rest pages mview dview" "sys_ok objs content mview dview s" "cleanPath f \<noteq> ''/''"
    "S3FS_Remove E f s = (r, s')"
  shows "(r = None \<longrightarrow> sys_ok objs content mview dview s' \<and> views s' = views s \<and>
      (if objs (fs_world s) (key (fs_prefix s) f) \<noteq> None
       then objs (fs_world s') = (objs (fs_world s))(key (fs_prefix s) f := None)
       else keys_under (objs (fs_world s)) (listPrefix (fs_prefix s) f) = {listPrefix (fs_prefix s) f} \<and>
            objs (fs_world s') = (objs (fs_world s))(listPrefix (fs_prefix s) f := None))) \<and>
    (answering (client E) \<longrightarrow> objs (fs_world s) (key (fs_prefix s) f) = None \<longrightarrow>
      (keys_under (objs (fs_world s)) (listPrefix (fs_prefix s) f) - {listPrefix (fs_prefix s) f} \<noteq> {} \<longrightarrow>
         r = Some (PathError ''remove'' f ErrDirNotEmpty) \<and> objs (fs_world s') = objs (fs_world s)) \<and>
      (keys_under (objs (fs_world s)) (listPrefix (fs_prefix s) f) = {} \<longrightarrow>
         r = Some (PathError ''remove'' f ErrNotExist) \<and> objs (fs_world s') = objs (fs_world s)))"
proof -
  have w: "fs_ok objs content mview dview s" "writers_ok content dview s" using assms(2) by (auto simp: sys_ok_def)
  note rs = s3fs.Remove_spec [OF assms(1) w(1) assms(4,3)]
  have "sys_ok objs content mview dview s' \<and> views s' = views s" if "r = None"
    using rs(1) [OF that] kept_writers(1,2) [OF w(2), of s'] unfolding sys_ok_def by blast
  then show ?thesis using rs(1) rs(2,3) [THEN conjunct1] rs(2,3) [THEN conjunct2, THEN calmD(2)] by blast
qed

theorem remove_exact_witness:
  "\<exists>s'. S3FS_Remove fake_env ''d'' demo_link_wfs = (Some (PathError ''remove'' ''d'' ErrDirNotEmpty), s') \<and>
     fake_objs (fs_world s') = fake_objs (fs_world demo_link_wfs)"
proof -
  obtain r s' where r: "S3FS_Remove fake_env ''d'' demo_link_wfs = (r, s')" by (metis prod.exhaust)
  have p: "cleanPath ''d'' \<noteq> ''/''" "fs_prefix demo_link_wfs = ''''" "key '''' ''d'' = ''d''" "listPrefix '''' ''d'' = ''d/''"
    by code_simp+
  have d: "fake_objs (fs_world demo_link_wfs) ''d'' = None"
      "''d/f'' \<in> keys_under (fake_objs (fs_world demo_link_wfs)) ''d/''"
    by (auto simp: demo_link_wfs_def no_writers_def S3FS.defs demo_links_def keys_under_def)
  from remove_exact [OF fake_fs.s3fs_axioms demo_link_wfs_ok p(1) r, unfolded p(2-4)] fake_answering d
  show ?thesis using r by blast
qed

end
