(* ===== verification/Listing.thy ===== *)
theory Listing
  imports Dirs
begin

text \<open>
  \<^verbatim>\<open>ReadDir\<close> of \<^verbatim>\<open>src/s3fs.go\<close>: the laws of a listing with a delimiter as a locale over the store,
  the map \<^verbatim>\<open>byName\<close> as pages are added to it, the loop over the pages, and that the entries
  returned are exactly what the directory holds.
\<close>

section \<open>Listing directories\<close>

text \<open>
  The laws of a listing with the delimiter \<^verbatim>\<open>/\<close>: a page gives keys and common prefixes (groups);
  a key is under the prefix and has no slash after it except perhaps at its end; a group is the
  prefix, a name without slash, and a slash, and stands for at least one key; every key
  is listed or grouped. The size of a listed object is its size.
\<close>

abbreviation (input) okey :: "s3_Object \<Rightarrow> string" where "okey x \<equiv> ToString (obj_Key x)"

locale s3_listing = s3fs E objs content rest pages mview dview
  for E :: "('w, 'c, 'd) env" and objs content rest pages mview dview +
  fixes dkeys :: "objects \<Rightarrow> string \<Rightarrow> string option \<Rightarrow> string list"
    and dgroups :: "objects \<Rightarrow> string \<Rightarrow> string option \<Rightarrow> string list"
    and dpages :: "objects \<Rightarrow> string \<Rightarrow> string option \<Rightarrow> nat"
  assumes group_page: "ListObjectsV2 (client E) li w = (Inr out, w') \<Longrightarrow> list_Delimiter li = Some ''/'' \<Longrightarrow>
        dkeys (objs w) (list_Prefix li) (list_ContinuationToken li) =
          map okey (Contents out) @
            (if ToBool (IsTruncated out) then dkeys (objs w) (list_Prefix li) (NextContinuationToken out) else []) \<and>
        dgroups (objs w) (list_Prefix li) (list_ContinuationToken li) =
          CommonPrefixes out @
            (if ToBool (IsTruncated out) then dgroups (objs w) (list_Prefix li) (NextContinuationToken out) else [])"
    and group_more: "ListObjectsV2 (client E) li w = (Inr out, w') \<Longrightarrow> list_Delimiter li = Some ''/'' \<Longrightarrow>
        ToBool (IsTruncated out) \<Longrightarrow>
          dpages (objs w) (list_Prefix li) (NextContinuationToken out)
            < dpages (objs w) (list_Prefix li) (list_ContinuationToken li)"
    and group_sizes: "ListObjectsV2 (client E) li w = (Inr out, w') \<Longrightarrow> x \<in> set (Contents out) \<Longrightarrow>
        \<exists>ob. objs w (okey x) = Some ob \<and> obj_Size x = Some (int (length (odata ob)))"
    and group_keys: "k \<in> set (dkeys (objs w) pre None) \<Longrightarrow>
        k \<in> keys_under (objs w) pre \<and> (\<exists>n. slash \<notin> set n \<and> (k = pre @ n \<or> k = pre @ n @ ''/''))"
    and group_groups: "g \<in> set (dgroups (objs w) pre None) \<Longrightarrow>
        \<exists>n k. slash \<notin> set n \<and> g = pre @ n @ ''/'' \<and> k \<in> keys_under (objs w) pre \<and> prefix g k"
    and group_all: "k \<in> keys_under (objs w) pre \<Longrightarrow>
        k \<in> set (dkeys (objs w) pre None) \<or> (\<exists>g \<in> set (dgroups (objs w) pre None). prefix g k)"

text \<open>The executable store satisfies them.\<close>

definition fake_dkeys :: "objects \<Rightarrow> string \<Rightarrow> string option \<Rightarrow> string list" where
  "fake_dkeys m pre tok = filter (\<lambda>k. \<not> beyond_slash pre k) (sorted_list_of_set (keys_under m pre))"

definition fake_dgroups :: "objects \<Rightarrow> string \<Rightarrow> string option \<Rightarrow> string list" where
  "fake_dgroups m pre tok = remdups (map (group_of pre) (filter (beyond_slash pre) (sorted_list_of_set (keys_under m pre))))"

lemma finite_keys_fake: "finite (keys_under (fake_objs w) pre)"
  by (simp add: keys_under_fake)

lemma group_of_prefix: "prefix pre k \<Longrightarrow> beyond_slash pre k \<Longrightarrow> prefix (group_of pre k) k"
proof -
  assume a: "prefix pre k" "beyond_slash pre k"
  then obtain t where k: "k = pre @ t" "slash \<in> set t" by (auto simp: prefix_def beyond_slash_def)
  let ?n = "takeWhile (\<lambda>c. c \<noteq> slash) t"
  have "dropWhile (\<lambda>c. c \<noteq> slash) t \<noteq> []" using k(2) by (simp add: dropWhile_eq_Nil_conv)
  then obtain u where "dropWhile (\<lambda>c. c \<noteq> slash) t = slash # u"
    using hd_dropWhile [of "\<lambda>c. c \<noteq> slash" t] by (cases "dropWhile (\<lambda>c. c \<noteq> slash) t") auto
  then have "t = ?n @ slash # u" using takeWhile_dropWhile_id [of "\<lambda>c. c \<noteq> slash" t] by simp
  then have "k = (pre @ ?n @ ''/'') @ u" using k(1) by simp
  moreover have "group_of pre k = pre @ ?n @ ''/''" using k(1) by (simp add: group_of_def)
  ultimately show ?thesis using prefixI by metis
qed

lemma group_of_name: "\<exists>n. slash \<notin> set n \<and> group_of pre k = pre @ n @ ''/''"
proof -
  have "slash \<notin> set (takeWhile (\<lambda>c. c \<noteq> slash) (drop (length pre) k))" using set_takeWhileD by fastforce
  then show ?thesis unfolding group_of_def by blast
qed

interpretation fake_listing: s3_listing fake_env fake_objs tag_content fake_rest "\<lambda>m pre tok. 0" "\<lambda>c. c" "\<lambda>c. c"
  fake_dkeys fake_dgroups "\<lambda>m pre tok. 0"
proof (unfold_locales, goal_cases)
  case (1 li w out w')
  then show ?case by (auto simp: fake_env_def fake_client_def fake_list_def Let_def fake_dkeys_def fake_dgroups_def fake_keys_eq comp_def)
next
  case (2 li w out w')
  then show ?case by (auto simp: fake_env_def fake_client_def fake_list_def Let_def)
next
  case (3 li w out w' x)
  then have "x \<in> set (Contents (fake_list li w))" by (auto simp: fake_env_def fake_client_def)
  then obtain k where "k \<in> keys_under (fake_objs w) (list_Prefix li)"
      "x = \<lparr>obj_Key = Some k, obj_Size = map_option (\<lambda>o1. int (length (odata o1))) (fake_objs w k), obj_LastModified = None\<rparr>"
    by (auto simp: fake_list_def Let_def fake_keys_eq finite_keys_fake)
  then show ?case by (auto simp: keys_under_def)
next
  case (4 k w pre)
  then have "k \<in> keys_under (fake_objs w) pre" "slash \<notin> set (drop (length pre) k)"
    by (auto simp: fake_dkeys_def finite_keys_fake beyond_slash_def)
  moreover then have "k = pre @ drop (length pre) k" by (auto simp: keys_under_def prefix_def)
  ultimately show ?case by blast
next
  case (5 g w pre)
  then obtain k where k: "k \<in> keys_under (fake_objs w) pre" "beyond_slash pre k" "g = group_of pre k"
    by (auto simp: fake_dgroups_def finite_keys_fake)
  then show ?case using group_of_name [of pre k] group_of_prefix [of pre k] by (auto simp: keys_under_def)
next
  case (6 k w pre)
  then have pre: "prefix pre k" by (simp add: keys_under_def)
  show ?case
  proof (cases "beyond_slash pre k")
    case True
    then have "group_of pre k \<in> set (fake_dgroups (fake_objs w) pre None)" using 6
      by (auto simp: fake_dgroups_def finite_keys_fake)
    then show ?thesis using group_of_prefix [OF pre True] by blast
  next
    case False
    then show ?thesis using 6 by (auto simp: fake_dkeys_def finite_keys_fake)
  qed
qed

text \<open>
  What a directory holds: the names without slash that are the key of an object or the first
  element of longer keys. A name that is both is listed as a file.
\<close>

definition dir_children :: "objects \<Rightarrow> string \<Rightarrow> string set" where
  "dir_children m pre = {n. n \<noteq> '''' \<and> slash \<notin> set n \<and> (m (pre @ n) \<noteq> None \<or> keys_under m (pre @ n @ ''/'') \<noteq> {})}"

definition entry_tells :: "objects \<Rightarrow> string \<Rightarrow> dirEntry \<Rightarrow> bool" where
  "entry_tells m pre e =
     (case m (pre @ dirEntry_Name e) of
        Some ob \<Rightarrow> \<not> dirEntry_IsDir e \<and> fi_size (de_info e) = int (length (odata ob))
      | None \<Rightarrow> dirEntry_IsDir e)"

text \<open>The state of \<^verbatim>\<open>byName\<close> once the keys in \<open>K\<close> and the groups in \<open>G\<close> have been seen.\<close>

definition child_of :: "string \<Rightarrow> string set \<Rightarrow> string set \<Rightarrow> string \<Rightarrow> bool" where
  "child_of pre K G n \<longleftrightarrow> n \<noteq> '''' \<and> slash \<notin> set n \<and> (pre @ n \<in> K \<or> pre @ n @ ''/'' \<in> K \<union> G)"

definition fits :: "objects \<Rightarrow> string \<Rightarrow> string set \<Rightarrow> string \<Rightarrow> dirEntry \<Rightarrow> bool" where
  "fits ob pre K n e \<longleftrightarrow> dirEntry_Name e = n \<and>
     (if pre @ n \<in> K
      then \<not> dirEntry_IsDir e \<and> (\<exists>o1. ob (pre @ n) = Some o1 \<and> fi_size (de_info e) = int (length (odata o1)))
      else dirEntry_IsDir e)"

definition shows_as :: "objects \<Rightarrow> string \<Rightarrow> string set \<Rightarrow> string set \<Rightarrow> (string \<Rightarrow> dirEntry option) \<Rightarrow> bool" where
  "shows_as ob pre K G f \<longleftrightarrow>
     (\<forall>n. case f n of None \<Rightarrow> \<not> child_of pre K G n | Some e \<Rightarrow> child_of pre K G n \<and> fits ob pre K n e)"

definition seen :: "objects \<Rightarrow> string \<Rightarrow> string set \<Rightarrow> string set \<Rightarrow> byName \<Rightarrow> bool" where
  "seen ob pre K G m \<longleftrightarrow> distinct (map fst m) \<and> shows_as ob pre K G (map_of m)"

lemma seen_start: "seen ob pre {} {} []"
  by (simp add: seen_def shows_as_def child_of_def)

lemma dir_entry [simp]: "dirEntry_Name \<lparr>de_info = dirInfo n\<rparr> = n" "dirEntry_IsDir \<lparr>de_info = dirInfo n\<rparr>"
  by (simp_all add: dirEntry_Name_def dirEntry_IsDir_def fileInfo_IsDir_def dirInfo_def IsDir_def defaultDirMode_def)

lemma file_entry [simp]:
  "\<not> dirEntry_IsDir \<lparr>de_info = \<lparr>fi_name = n, fi_size = z, fi_mode = defaultFileMode, fi_modTime = t\<rparr>\<rparr>"
  "dirEntry_Name \<lparr>de_info = \<lparr>fi_name = n, fi_size = z, fi_mode = md, fi_modTime = t\<rparr>\<rparr> = n"
  by (simp_all add: dirEntry_Name_def dirEntry_IsDir_def fileInfo_IsDir_def IsDir_def defaultFileMode_def)

text \<open>A marker or a group makes a directory of its name, unless an entry is there.\<close>

lemma shows_dir:
  assumes f: "shows_as ob pre K G f" and d: "slash \<notin> set d" "K' \<union> G' = insert (pre @ d @ ''/'') (K \<union> G)"
    and K: "\<And>n. slash \<notin> set n \<Longrightarrow> n \<noteq> '''' \<Longrightarrow> pre @ n \<in> K' \<longleftrightarrow> pre @ n \<in> K"
  shows "shows_as ob pre K' G' (if d = '''' \<or> f d \<noteq> None then f else f(d \<mapsto> \<lparr>de_info = dirInfo d\<rparr>))"
proof -
  have ch: "child_of pre K' G' n \<longleftrightarrow> child_of pre K G n \<or> n = d \<and> d \<noteq> ''''" for n
    using d K [of n] by (auto simp: child_of_def)
  have ft: "fits ob pre K' n e = fits ob pre K n e" if "child_of pre K' G' n" for n e
    using that K [of n] by (simp add: fits_def child_of_def)
  have fd: "fits ob pre K' d \<lparr>de_info = dirInfo d\<rparr>" if "f d = None" "d \<noteq> ''''"
    using f [unfolded shows_as_def, rule_format, of d] that d(1) K [of d] by (auto simp: fits_def child_of_def)
  show ?thesis unfolding shows_as_def
  proof
    fix n
    show "case (if d = '''' \<or> f d \<noteq> None then f else f(d \<mapsto> \<lparr>de_info = dirInfo d\<rparr>)) n of
        None \<Rightarrow> \<not> child_of pre K' G' n | Some e \<Rightarrow> child_of pre K' G' n \<and> fits ob pre K' n e"
    proof (cases "f n")
      case None
      then have "\<not> child_of pre K G n" using f [unfolded shows_as_def, rule_format, of n] by simp
      then show ?thesis using None ch [of n] fd by auto
    next
      case (Some e)
      then have "child_of pre K G n" "fits ob pre K n e" using f [unfolded shows_as_def, rule_format, of n] by auto
      then show ?thesis using Some ch [of n] ft [of n e] by auto
    qed
  qed
qed

lemma seen_addDir:
  assumes "seen ob pre K G m" "slash \<notin> set d" "K' \<union> G' = insert (pre @ d @ ''/'') (K \<union> G)"
    "\<And>n. slash \<notin> set n \<Longrightarrow> n \<noteq> '''' \<Longrightarrow> pre @ n \<in> K' \<longleftrightarrow> pre @ n \<in> K"
  shows "seen ob pre K' G' (addDir d m)"
  using shows_dir [OF _ assms(2,3,4), of ob "map_of m"] assms(1) unfolding seen_def addDir_def
  by (auto simp: update_conv' distinct_update simp del: map_of_eq_Some_iff split: if_splits)

lemma shows_file:
  assumes f: "shows_as ob pre K G f" and n: "slash \<notin> set n" "n \<noteq> ''''" and e: "fits ob pre (insert (pre @ n) K) n e"
  shows "shows_as ob pre (insert (pre @ n) K) G (f(n \<mapsto> e))"
  unfolding shows_as_def
proof
  fix j
  have "pre @ j @ ''/'' \<noteq> pre @ n" using n(1) by auto
  then show "case (f(n \<mapsto> e)) j of None \<Rightarrow> \<not> child_of pre (insert (pre @ n) K) G j
      | Some e \<Rightarrow> child_of pre (insert (pre @ n) K) G j \<and> fits ob pre (insert (pre @ n) K) j e"
    using f [unfolded shows_as_def, rule_format, of j] n e
    by (auto simp: child_of_def fits_def split: option.splits if_splits)
qed

lemma cut_name: "slash \<notin> set n \<Longrightarrow> CutSuffix n ''/'' = None" "CutSuffix (n @ ''/'') ''/'' = Some n"
  by (auto simp: CutSuffix_def suffix_def)

lemma seen_addObject:
  assumes s: "seen ob pre K G m" and k: "\<exists>n. slash \<notin> set n \<and> (okey x = pre @ n \<or> okey x = pre @ n @ ''/'')"
    and o1: "ob (okey x) = Some o1" "obj_Size x = Some (int (length (odata o1)))"
  shows "seen ob pre (insert (okey x) K) G (addObject pre x m)"
proof -
  obtain n where n: "slash \<notin> set n" "okey x = pre @ n \<or> okey x = pre @ n @ ''/''" using k by blast
  consider "okey x = pre" | "okey x = pre @ n" "n \<noteq> ''''" | "okey x = pre @ n @ ''/''" using n(2) by fastforce
  then show ?thesis
  proof cases
    case 1
    then have "addObject pre x m = m" by (simp add: addObject_def TrimPrefix_def)
    moreover have "shows_as ob pre (insert pre K) G f = shows_as ob pre K G f" for f
      unfolding shows_as_def
    proof (intro all_cong1 option.case_cong refl)
      show "(\<not> child_of pre (insert pre K) G n) = (\<not> child_of pre K G n)" for n by (auto simp: child_of_def)
      show "(child_of pre (insert pre K) G n \<and> fits ob pre (insert pre K) n e) = (child_of pre K G n \<and> fits ob pre K n e)" for n e
        by (auto simp: child_of_def fits_def)
    qed
    ultimately show ?thesis using s 1 by (simp add: seen_def)
  next
    case 2
    let ?e = "\<lparr>de_info = \<lparr>fi_name = n, fi_size = ToInt64 (obj_Size x), fi_mode = defaultFileMode,
                           fi_modTime = ToTime (obj_LastModified x)\<rparr>\<rparr>"
    have "addObject pre x m = AList.update n ?e m" using 2 cut_name(1) [OF n(1)] by (simp add: addObject_def TrimPrefix_def)
    moreover have "fits ob pre (insert (pre @ n) K) n ?e" using o1 2 by (simp add: fits_def ToInt64_def)
    ultimately show ?thesis
      using s shows_file [of ob pre K G "map_of m" n ?e] n(1) 2 by (simp add: seen_def update_conv' distinct_update)
  next
    case 3
    have "addObject pre x m = addDir n m" using 3 cut_name(2) [of n] by (simp add: addObject_def TrimPrefix_def)
    moreover have "seen ob pre (insert (okey x) K) G (addDir n m)"
      by (rule seen_addDir [OF s n(1)]) (use 3 in auto)
    ultimately show ?thesis by simp
  qed
qed

lemma seen_addGroup:
  assumes "seen ob pre K G m" "slash \<notin> set n" "g = pre @ n @ ''/''"
  shows "seen ob pre K (insert g G) (addDir (TrimSuffix (TrimPrefix g pre) ''/'') m)"
proof -
  have "TrimSuffix (TrimPrefix g pre) ''/'' = n" using assms(3) cut_name(2) [of n] by (simp add: TrimSuffix_def TrimPrefix_def)
  then show ?thesis using seen_addDir [OF assms(1,2), of K "insert g G"] assms(3) by simp
qed

lemma seen_objects:
  assumes "\<And>x. x \<in> set xs \<Longrightarrow> \<exists>n. slash \<notin> set n \<and> (okey x = pre @ n \<or> okey x = pre @ n @ ''/'')"
    "\<And>x. x \<in> set xs \<Longrightarrow> \<exists>o1. ob (okey x) = Some o1 \<and> obj_Size x = Some (int (length (odata o1)))"
    "seen ob pre K G m"
  shows "seen ob pre (K \<union> okey ` set xs) G (fold (addObject pre) xs m)"
  using assms
proof (induction xs arbitrary: K m)
  case (Cons x xs)
  obtain o1 where o1: "ob (okey x) = Some o1" "obj_Size x = Some (int (length (odata o1)))" using Cons.prems(2) [of x] by auto
  have "seen ob pre (insert (okey x) K) G (addObject pre x m)"
    using seen_addObject [OF Cons.prems(3) Cons.prems(1) [of x] o1] by simp
  from Cons.IH [OF Cons.prems(1,2) this] show ?case by simp
qed simp

lemma seen_groups:
  assumes "\<And>g. g \<in> set gs \<Longrightarrow> \<exists>n. slash \<notin> set n \<and> g = pre @ n @ ''/''" "seen ob pre K G m"
  shows "seen ob pre K (G \<union> set gs) (fold (\<lambda>cp. addDir (TrimSuffix (TrimPrefix cp pre) ''/'')) gs m)"
  using assms
proof (induction gs arbitrary: G m)
  case (Cons g gs)
  obtain n where n: "slash \<notin> set n" "g = pre @ n @ ''/''" using Cons.prems(1) [of g] by auto
  from Cons.IH [OF Cons.prems(1) seen_addGroup [OF Cons.prems(2) n]] show ?case by simp
qed simp

lemma first_part: "slash \<notin> set n \<Longrightarrow> takeWhile (\<lambda>c. c \<noteq> slash) (n @ slash # t) = n"
  by (induction n) auto

text \<open>What has been seen of a whole listing is what the directory holds.\<close>

context s3_listing
begin

lemma listing_children:
  assumes "K = set (dkeys (objs w) pre None)" "G = set (dgroups (objs w) pre None)"
  shows "child_of pre K G n \<longleftrightarrow> n \<in> dir_children (objs w) pre"
    and "slash \<notin> set n \<Longrightarrow> pre @ n \<in> K \<longleftrightarrow> objs w (pre @ n) \<noteq> None"
    and "K = {} \<and> G = {} \<longleftrightarrow> keys_under (objs w) pre = {}"
proof -
  have key: "pre @ n \<in> K \<longleftrightarrow> objs w (pre @ n) \<noteq> None" if n: "slash \<notin> set n" for n
  proof
    assume "objs w (pre @ n) \<noteq> None"
    then have "pre @ n \<in> K \<or> (\<exists>g \<in> G. prefix g (pre @ n))"
      using group_all [of "pre @ n" w pre] assms by (auto simp: keys_under_def)
    then show "pre @ n \<in> K" using group_groups [of _ w pre] assms(2) n by (fastforce simp: prefix_def)
  qed (use group_keys [of _ w pre] assms(1) in \<open>auto simp: keys_under_def\<close>)
  have grp: "pre @ n @ ''/'' \<in> K \<union> G \<longleftrightarrow> keys_under (objs w) (pre @ n @ ''/'') \<noteq> {}" if n: "slash \<notin> set n" for n
  proof
    assume "pre @ n @ ''/'' \<in> K \<union> G"
    then show "keys_under (objs w) (pre @ n @ ''/'') \<noteq> {}"
      using group_keys [of _ w pre] group_groups [of _ w pre] assms by (fastforce simp: keys_under_def)
  next
    assume "keys_under (objs w) (pre @ n @ ''/'') \<noteq> {}"
    then obtain t where t: "pre @ n @ slash # t \<in> keys_under (objs w) pre" by (auto simp: keys_under_def prefix_def)
    have eq: "n1 = n" if "n1 @ slash # u = n @ slash # t" "slash \<notin> set n1" for n1 u
      using first_part [OF that(2), of u] first_part [OF n, of t] that(1) by simp
    from group_all [OF t] show "pre @ n @ ''/'' \<in> K \<union> G"
    proof
      assume k: "pre @ n @ slash # t \<in> set (dkeys (objs w) pre None)"
      then obtain n1 where "slash \<notin> set n1" "n @ slash # t = n1 \<or> n @ slash # t = n1 @ ''/''"
        using group_keys [OF k] by auto
      then have "n @ slash # t = n @ ''/''" using eq [of n1 "[]"] by auto
      then show ?thesis using k assms(1) by simp
    next
      assume "\<exists>g \<in> set (dgroups (objs w) pre None). prefix g (pre @ n @ slash # t)"
      then obtain g u where g: "g \<in> set (dgroups (objs w) pre None)" "pre @ n @ slash # t = g @ u" by (auto simp: prefix_def)
      then obtain n1 where "slash \<notin> set n1" "g = pre @ n1 @ ''/''" using group_groups [OF g(1)] by blast
      then show ?thesis using eq [of n1 u] g assms(2) by auto
    qed
  qed
  show "child_of pre K G n \<longleftrightarrow> n \<in> dir_children (objs w) pre"
    using key [of n] grp [of n] by (auto simp: child_of_def dir_children_def)
  show "slash \<notin> set n \<Longrightarrow> pre @ n \<in> K \<longleftrightarrow> objs w (pre @ n) \<noteq> None" by (rule key)
  show "K = {} \<and> G = {} \<longleftrightarrow> keys_under (objs w) pre = {}"
    using group_keys [of _ w pre] group_groups [of _ w pre] group_all [of _ w pre] assms by fastforce
qed

lemma readDirLoop_spec:
  assumes "ok s" "answering (client E)" "list_Delimiter inp = Some ''/''"
    "dpages (store s) (list_Prefix inp) (list_ContinuationToken inp) < fuel"
    "seen (store s) (list_Prefix inp) K G m" "found \<longleftrightarrow> K \<noteq> {} \<or> G \<noteq> {}"
    "set (dkeys (store s) (list_Prefix inp) (list_ContinuationToken inp)) \<subseteq> set (dkeys (store s) (list_Prefix inp) None)"
    "set (dgroups (store s) (list_Prefix inp) (list_ContinuationToken inp)) \<subseteq> set (dgroups (store s) (list_Prefix inp) None)"
    "K1 = K \<union> set (dkeys (store s) (list_Prefix inp) (list_ContinuationToken inp))"
    "G1 = G \<union> set (dgroups (store s) (list_Prefix inp) (list_ContinuationToken inp))"
  shows "\<exists>m1 s1. readDirLoop E fuel inp found m s = Some (Inr (K1 \<noteq> {} \<or> G1 \<noteq> {}, m1), s1) \<and> still s s1 \<and>
    seen (store s) (list_Prefix inp) K1 G1 m1"
  using assms
proof (induction fuel arbitrary: inp found m s K G)
  case (Suc fuel)
  let ?p = "list_Prefix inp" and ?t = "list_ContinuationToken inp"
  obtain out w where rq: "ListObjectsV2 (client E) inp (fs_world s) = (Inr out, w)"
    using Suc.prems(2) unfolding answering_def by (metis old.sum.exhaust surj_pair)
  note c = world_calm [OF Suc.prems(1) ListObjectsV2_objs [OF rq]]
  define b where "b = ToBool (IsTruncated out)"
  note pg = group_page [OF rq Suc.prems(3), folded b_def]
  define K2 G2 where "K2 = K \<union> okey ` set (Contents out)" and "G2 = G \<union> set (CommonPrefixes out)"
  have seen: "seen (store s) ?p K2 G2 (addPage ?p out m)"
    unfolding addPage_def K2_def G2_def
  proof (intro seen_groups seen_objects Suc.prems(5))
    show "\<exists>n. slash \<notin> set n \<and> (okey x = ?p @ n \<or> okey x = ?p @ n @ ''/'')" if "x \<in> set (Contents out)" for x
      using group_keys [of "okey x" "fs_world s" ?p] Suc.prems(7) pg that by auto
    show "\<exists>n. slash \<notin> set n \<and> g = ?p @ n @ ''/''" if "g \<in> set (CommonPrefixes out)" for g
      using group_groups [of g "fs_world s" ?p] Suc.prems(8) pg that by auto
  qed (rule group_sizes [OF rq])
  have fd: "(found \<or> Contents out \<noteq> [] \<or> CommonPrefixes out \<noteq> []) = (K2 \<noteq> {} \<or> G2 \<noteq> {})"
    using Suc.prems(6) by (auto simp: K2_def G2_def)
  have step: "readDirLoop E (Suc fuel) inp found m s =
      (if b then readDirLoop E fuel (inp\<lparr>list_ContinuationToken := NextContinuationToken out\<rparr>) (K2 \<noteq> {} \<or> G2 \<noteq> {}) (addPage ?p out m)
               (s\<lparr>fs_world := w\<rparr>)
       else Some (Inr (K2 \<noteq> {} \<or> G2 \<noteq> {}, addPage ?p out m), s\<lparr>fs_world := w\<rparr>))"
    using rq fd by (simp add: request_def b_def)
  show ?case
  proof (cases b)
    case False
    then have "K1 = K2" "G1 = G2" using Suc.prems(9,10) pg by (auto simp: K2_def G2_def)
    then show ?thesis using step False c seen by simp
  next
    case True
    let ?i = "inp\<lparr>list_ContinuationToken := NextContinuationToken out\<rparr>" and ?s = "s\<lparr>fs_world := w\<rparr>"
    have st: "store ?s = store s" using calmD(2) [OF c] .
    have seen1: "seen (store ?s) (list_Prefix ?i) K2 G2 (addPage ?p out m)" using seen st by simp
    have "\<exists>m1 s1. readDirLoop E fuel ?i (K2 \<noteq> {} \<or> G2 \<noteq> {}) (addPage ?p out m) ?s = Some (Inr (K1 \<noteq> {} \<or> G1 \<noteq> {}, m1), s1) \<and>
        still ?s s1 \<and> seen (store ?s) (list_Prefix ?i) K1 G1 m1"
    proof (rule Suc.IH [OF _ _ _ _ seen1])
      show "ok ?s" by (rule calmD(1) [OF c])
      show "dpages (store ?s) (list_Prefix ?i) (list_ContinuationToken ?i) < fuel"
        using group_more [OF rq Suc.prems(3)] True Suc.prems(4) st by (simp add: b_def)
      show "set (dkeys (store ?s) (list_Prefix ?i) (list_ContinuationToken ?i)) \<subseteq> set (dkeys (store ?s) (list_Prefix ?i) None)"
        using Suc.prems(7) pg True st by auto
      show "set (dgroups (store ?s) (list_Prefix ?i) (list_ContinuationToken ?i)) \<subseteq> set (dgroups (store ?s) (list_Prefix ?i) None)"
        using Suc.prems(8) pg True st by auto
      show "K1 = K2 \<union> set (dkeys (store ?s) (list_Prefix ?i) (list_ContinuationToken ?i))"
        using Suc.prems(9) pg True st by (auto simp: K2_def)
      show "G1 = G2 \<union> set (dgroups (store ?s) (list_Prefix ?i) (list_ContinuationToken ?i))"
        using Suc.prems(10) pg True st by (auto simp: G2_def)
    qed (use Suc.prems(2,3) in simp_all)
    then show ?thesis using step True st calm_trans [OF c] by auto
  qed
qed simp

end

lemma seen_names:
  assumes "seen ob pre K G m"
  shows "map dirEntry_Name (map snd m) = map fst m" and "distinct (map fst m)" and "n \<in> fst ` set m \<longleftrightarrow> child_of pre K G n"
    and "e \<in> snd ` set m \<Longrightarrow> child_of pre K G (dirEntry_Name e) \<and> fits ob pre K (dirEntry_Name e) e"
proof -
  have d: "distinct (map fst m)" and sh: "shows_as ob pre K G (map_of m)" using assms by (simp_all add: seen_def)
  have at: "case map_of m n of None \<Rightarrow> \<not> child_of pre K G n | Some e \<Rightarrow> child_of pre K G n \<and> fits ob pre K n e" for n
    using sh unfolding shows_as_def by blast
  have e: "child_of pre K G n \<and> fits ob pre K n e" if "(n, e) \<in> set m" for n e
    using at [of n] d that by (simp add: map_of_is_SomeI)
  show "distinct (map fst m)" by (rule d)
  show "map dirEntry_Name (map snd m) = map fst m" using e by (auto simp: fits_def)
  show "n \<in> fst ` set m \<longleftrightarrow> child_of pre K G n"
    using at [of n] map_of_eq_None_iff [of m n] by (auto split: option.splits)
  show "e \<in> snd ` set m \<Longrightarrow> child_of pre K G (dirEntry_Name e) \<and> fits ob pre K (dirEntry_Name e) e"
    using e by (auto simp: fits_def)
qed

definition lists_dir :: "objects \<Rightarrow> string \<Rightarrow> dirEntry list \<Rightarrow> bool" where
  "lists_dir m pre es \<longleftrightarrow>
     sorted_wrt (<) (map dirEntry_Name es) \<and> set (map dirEntry_Name es) = dir_children m pre \<and> list_all (entry_tells m pre) es"

context s3_listing
begin

lemma seen_lists:
  assumes "seen (objs w) pre (set (dkeys (objs w) pre None)) (set (dgroups (objs w) pre None)) m"
  shows "lists_dir (objs w) pre (sort_key dirEntry_Name (map snd m))"
proof -
  let ?es = "sort_key dirEntry_Name (map snd m)"
  note nm = seen_names [OF assms] and ch = listing_children [OF refl refl, where w = w and pre = pre]
  have "mset (map dirEntry_Name ?es) = mset (map fst m)" using nm(1) by (metis mset_map mset_sort)
  then have "distinct (map dirEntry_Name ?es)" "set (map dirEntry_Name ?es) = fst ` set m"
    using nm(2) by (metis mset_eq_imp_distinct_iff) (metis \<open>mset _ = _\<close> mset_eq_setD list.set_map)
  moreover have "entry_tells (objs w) pre e" if "e \<in> set ?es" for e
  proof -
    have "child_of pre (set (dkeys (objs w) pre None)) (set (dgroups (objs w) pre None)) (dirEntry_Name e)"
        "fits (objs w) pre (set (dkeys (objs w) pre None)) (dirEntry_Name e) e"
      using nm(4) [of e] that by auto
    then show ?thesis using ch(2) [of "dirEntry_Name e"]
      by (auto simp: entry_tells_def fits_def child_of_def split: option.splits if_splits)
  qed
  ultimately show ?thesis
    using nm(3) ch(1) sorted_sort_key [of dirEntry_Name "map snd m"]
    by (auto simp: lists_dir_def strict_sorted_iff list_all_iff simp del: list.set_map)
qed

lemma listDir_spec:
  assumes ok: "ok s" and an: "answering (client E)" and fuel: "dpages (store s) (listPrefix (fs_prefix s) rp) None < fuel"
  shows "\<exists>s1. still s s1 \<and>
    (if rp \<noteq> ''/'' \<and> keys_under (store s) (listPrefix (fs_prefix s) rp) = {}
     then listDir E fuel p rp s = Some (Inl (PathError ''open'' p ErrNotExist), s1)
     else \<exists>es. listDir E fuel p rp s = Some (Inr es, s1) \<and> lists_dir (store s) (listPrefix (fs_prefix s) rp) es)"
proof -
  let ?p = "listPrefix (fs_prefix s) rp"
  let ?i = "\<lparr>list_Bucket = fs_bucket s, list_Prefix = ?p, list_Delimiter = Some ''/'', list_MaxKeys = None,
             list_ContinuationToken = None\<rparr>"
  define K G where "K = set (dkeys (store s) ?p None)" and "G = set (dgroups (store s) ?p None)"
  obtain m1 s1 where lp: "readDirLoop E fuel ?i False [] s = Some (Inr (K \<noteq> {} \<or> G \<noteq> {}, m1), s1)" and c: "still s s1"
      and sn: "seen (store s) ?p K G m1"
    using readDirLoop_spec [OF ok an, of ?i fuel "{}" "{}" "[]" False K G] fuel seen_start by (auto simp: K_def G_def)
  have e: "(K \<noteq> {} \<or> G \<noteq> {}) = (keys_under (store s) ?p \<noteq> {})" using listing_children(3) [OF K_def G_def] by blast
  have ls: "listDir E fuel p rp s =
      (if rp \<noteq> ''/'' \<and> keys_under (store s) ?p = {} then Some (Inl (PathError ''open'' p ErrNotExist), s1)
       else Some (Inr (sort_key dirEntry_Name (map snd m1)), s1))"
    using lp unfolding e listDir_def by auto
  show ?thesis using ls c seen_lists [OF sn [unfolded K_def G_def]] by (intro exI [of _ s1]) auto
qed

lemma ReadDir_spec:
  assumes ok: "ok s" and an: "answering (client E)" and fuel: "\<And>pre. dpages (store s) pre None < fuel"
  shows "\<exists>s1. still s s1 \<and>
    (case follow (store s) (fs_prefix s) maxSymlinkDepth (cleanPath p) of
       None \<Rightarrow> \<exists>q. S3FS_ReadDir E fuel p s = Some (Inl (PathError ''open'' q ErrTooManySymlinks), s1)
     | Some (rp, Some ob, n) \<Rightarrow> S3FS_ReadDir E fuel p s = Some (Inl (PathError ''open'' p ErrNotADirectory), s1)
     | Some (rp, None, n) \<Rightarrow>
         if rp \<noteq> ''/'' \<and> keys_under (store s) (listPrefix (fs_prefix s) rp) = {}
         then S3FS_ReadDir E fuel p s = Some (Inl (PathError ''open'' p ErrNotExist), s1)
         else \<exists>es. S3FS_ReadDir E fuel p s = Some (Inr es, s1) \<and> lists_dir (store s) (listPrefix (fs_prefix s) rp) es)"
proof -
  obtain rp h n err s1 where rs: "resolve E ''open'' p s = ((rp, h, n, err), s1)" by (metis prod.exhaust)
  note c1 = resolve_calm [OF ok rs]
  have rl: "resolveLoop E ''open'' (cleanPath p) 0 s = ((rp, h, n, err), s1)" using rs by (simp add: resolve_def)
  show ?thesis
  proof (cases err)
    case (Some e)
    have "heads_answer (client E)" using an by (simp add: answering_def)
    from resolveLoop_total [OF ok this rl] Some show ?thesis
      using rs c1 by (intro exI [of _ s1]) (auto simp: S3FS_ReadDir_def)
  next
    case None
    obtain ob where fo: "follow (store s) (fs_prefix s) maxSymlinkDepth (cleanPath p) = Some (rp, ob, n)"
        and ag: "heads_agree content ob h"
      using resolveLoop_spec [OF ok rl] None by auto
    show ?thesis
    proof (cases ob)
      case (Some o1)
      then have "h \<noteq> None" using ag by (auto simp: heads_agree_def split: option.splits)
      then show ?thesis using fo Some rs None c1 by (intro exI [of _ s1]) (auto simp: S3FS_ReadDir_def)
    next
      case on: None
      then have "h = None" using ag by (auto simp: heads_agree_def split: option.splits)
      then have rd: "S3FS_ReadDir E fuel p s = listDir E fuel p rp s1" using rs None by (simp add: S3FS_ReadDir_def)
      have "dpages (store s1) (listPrefix (fs_prefix s1) rp) None < fuel" using fuel calmD(2) [OF c1] by simp
      from listDir_spec [OF calmD(1) [OF c1] an this, of p] show ?thesis
        unfolding rd fo on calmD(2) [OF c1] calmD(5) [OF c1] option.case prod.case using calm_trans [OF c1] by blast
    qed
  qed
qed

end

text \<open>
  C8: \<^verbatim>\<open>ReadDir\<close> lists a directory completely and correctly, whatever the pages of the listing.
  With a store that answers, it follows links, refuses a file and a path where nothing is, and
  otherwise returns one entry per name found directly under the path, in strictly ascending
  order: a file of the right size when an object has that name, a directory otherwise.
  It ends as soon as the loop may turn as often as the listing has pages, and changes nothing.
\<close>

theorem readdir_lists_children:
  assumes "s3_listing E objs content rest pages mview dview dkeys dgroups dpages" "sys_ok objs content mview dview s"
    "answering (client E)" "\<And>pre. dpages (objs (fs_world s)) pre None < fuel"
  shows "\<exists>s1. sys_ok objs content mview dview s1 \<and> objs (fs_world s1) = objs (fs_world s) \<and> views s1 = views s \<and>
    (case follow (objs (fs_world s)) (fs_prefix s) maxSymlinkDepth (cleanPath p) of
       None \<Rightarrow> \<exists>q. S3FS_ReadDir E fuel p s = Some (Inl (PathError ''open'' q ErrTooManySymlinks), s1)
     | Some (rp, Some ob, n) \<Rightarrow> S3FS_ReadDir E fuel p s = Some (Inl (PathError ''open'' p ErrNotADirectory), s1)
     | Some (rp, None, n) \<Rightarrow>
         if rp \<noteq> ''/'' \<and> keys_under (objs (fs_world s)) (listPrefix (fs_prefix s) rp) = {}
         then S3FS_ReadDir E fuel p s = Some (Inl (PathError ''open'' p ErrNotExist), s1)
         else \<exists>es. S3FS_ReadDir E fuel p s = Some (Inr es, s1) \<and>
                   lists_dir (objs (fs_world s)) (listPrefix (fs_prefix s) rp) es)"
proof -
  have w: "fs_ok objs content mview dview s" "writers_ok content dview s" using assms(2) by (auto simp: sys_ok_def)
  from s3_listing.ReadDir_spec [OF assms(1) w(1) assms(3,4), of p] obtain s1 where
    c: "calm objs content mview dview s s1" and r: "case follow (objs (fs_world s)) (fs_prefix s) maxSymlinkDepth (cleanPath p) of
       None \<Rightarrow> \<exists>q. S3FS_ReadDir E fuel p s = Some (Inl (PathError ''open'' q ErrTooManySymlinks), s1)
     | Some (rp, Some ob, n) \<Rightarrow> S3FS_ReadDir E fuel p s = Some (Inl (PathError ''open'' p ErrNotADirectory), s1)
     | Some (rp, None, n) \<Rightarrow>
         if rp \<noteq> ''/'' \<and> keys_under (objs (fs_world s)) (listPrefix (fs_prefix s) rp) = {}
         then S3FS_ReadDir E fuel p s = Some (Inl (PathError ''open'' p ErrNotExist), s1)
         else \<exists>es. S3FS_ReadDir E fuel p s = Some (Inr es, s1) \<and>
                   lists_dir (objs (fs_world s)) (listPrefix (fs_prefix s) rp) es" by blast
  show ?thesis
    by (intro exI [of _ s1] conjI r calm_sys [OF assms(2) c] calmD(2) [OF c] calm_writers(2) [OF w(2) c])
qed

theorem readdir_lists_children_witness:
  "\<exists>es s1. S3FS_ReadDir fake_env 1 ''/'' demo_link_wfs = Some (Inr es, s1) \<and> ''d'' \<in> dirEntry_Name ` set es"
proof -
  have p: "cleanPath ''/'' = ''/''" "fs_prefix demo_link_wfs = ''''" "listPrefix '''' ''/'' = ''''" by code_simp+
  have f: "follow m pre n ''/'' = Some (''/'', None, 0)" for m pre n by (subst follow.simps) simp
  have o1: "fake_objs (fs_world demo_link_wfs) ''d/f'' \<noteq> None"
    by (simp add: demo_link_wfs_def no_writers_def S3FS.defs demo_links_def)
  then have "''d/f'' \<in> keys_under (fake_objs (fs_world demo_link_wfs)) (''d'' @ ''/'')" by (auto simp: keys_under_def)
  then have "''d'' \<in> dir_children (fake_objs (fs_world demo_link_wfs)) ''''" unfolding dir_children_def by fastforce
  moreover obtain es s1 where "S3FS_ReadDir fake_env 1 ''/'' demo_link_wfs = Some (Inr es, s1)"
      "lists_dir (fake_objs (fs_world demo_link_wfs)) '''' es"
    using readdir_lists_children [OF fake_listing.s3_listing_axioms demo_link_wfs_ok fake_answering, of 1 "''/''", unfolded p f] p(3)
    by auto
  ultimately show ?thesis by (auto simp: lists_dir_def)
qed

end
