(* ===== verification/LockS3.thy ===== *)
theory LockS3
  imports Info
begin

text \<open>
  The cross-process lock of \<^verbatim>\<open>src/lock_s3.go\<close>. Its operations run concurrently in many processes
  against one bucket, and every request is a point where others may come in between, so an
  operation is a tree of requests: \<open>Put i f\<close> sends a request and goes on with \<open>f\<close> of the
  response. The same trees are run alone (\<open>run\<close>) and interleaved, as the threads of a
  transition system with the goroutines and channels of the code. The theorems: what one
  attempt to acquire does, that a valid lease is respected by every interleaving of attempts,
  takeovers and renewals, and that the release does not respect it.
\<close>

section \<open>Numbers as text\<close>

text \<open>\<^verbatim>\<open>strconv.FormatInt(z, 10)\<close> and \<^verbatim>\<open>strconv.ParseInt(s, 10, 64)\<close>.\<close>

fun decimal :: "nat \<Rightarrow> string" where
  "decimal n = (if n < 10 then [char_of (48 + n)] else decimal (n div 10) @ [char_of (48 + n mod 10)])"

declare decimal.simps [simp del]

definition FormatInt :: "int \<Rightarrow> string" where
  "FormatInt z = (if z < 0 then CHR ''-'' # decimal (nat (- z)) else decimal (nat z))"

definition decdigit :: "char \<Rightarrow> nat option" where
  "decdigit c = (if 48 \<le> code c \<and> code c \<le> 57 then Some (code c - 48) else None)"

fun parse_dec :: "nat \<Rightarrow> string \<Rightarrow> nat option" where
  "parse_dec acc [] = Some acc"
| "parse_dec acc (c # s) = (case decdigit c of None \<Rightarrow> None | Some d \<Rightarrow> parse_dec (10 * acc + d) s)"

fun cut_sign :: "string \<Rightarrow> bool \<times> string" where
  "cut_sign [] = (False, [])"
| "cut_sign (c # s) = (if c = CHR ''-'' then (True, s) else if c = CHR ''+'' then (False, s) else (False, c # s))"

definition ParseInt :: "string \<Rightarrow> int option" where
  "ParseInt s =
     (case cut_sign s of
        (neg, ds) \<Rightarrow>
          if ds = '''' then None
          else case parse_dec 0 ds of
            None \<Rightarrow> None
          | Some n \<Rightarrow> (let z = (if neg then - int n else int n) in if int64 z then Some z else None))"


text \<open>A byte slice of a string.\<close>

definition bytes_of :: "string \<Rightarrow> bytes" where
  "bytes_of s = map (\<lambda>c. of_nat (code c)) s"

section \<open>Operations as trees of requests\<close>

datatype 'a proc =
    Done 'a
  | Now "instant \<Rightarrow> 'a proc"
  | Head string string "goerr + HeadObjectOutput \<Rightarrow> 'a proc"
  | Put PutObjectInput "goerr + string option \<Rightarrow> 'a proc"
  | Del string string "goerr option \<Rightarrow> 'a proc"

primrec andThen :: "'a proc \<Rightarrow> ('a \<Rightarrow> 'b proc) \<Rightarrow> 'b proc" where
  "andThen (Done x) g = g x"
| "andThen (Now f) g = Now (\<lambda>t. andThen (f t) g)"
| "andThen (Head b k f) g = Head b k (\<lambda>r. andThen (f r) g)"
| "andThen (Put i f) g = Put i (\<lambda>r. andThen (f r) g)"
| "andThen (Del b k f) g = Del b k (\<lambda>r. andThen (f r) g)"

text \<open>One request, and all of them with nobody in between.\<close>

fun proc_step :: "'w Client \<Rightarrow> 'a proc \<Rightarrow> 'w \<Rightarrow> 'a proc \<times> 'w" where
  "proc_step cl (Done x) w = (Done x, w)"
| "proc_step cl (Now f) w = (f (time_Now cl w), w)"
| "proc_step cl (Head b k f) w = (case HeadObject cl b k w of (r, w1) \<Rightarrow> (f r, w1))"
| "proc_step cl (Put i f) w = (case PutObject cl i w of (r, w1) \<Rightarrow> (f r, w1))"
| "proc_step cl (Del b k f) w = (case DeleteObject cl b k w of (r, w1) \<Rightarrow> (f r, w1))"

primrec run :: "'w Client \<Rightarrow> 'a proc \<Rightarrow> 'w \<Rightarrow> 'a \<times> 'w" where
  "run cl (Done x) w = (x, w)"
| "run cl (Now f) w = run cl (f (time_Now cl w)) w"
| "run cl (Head b k f) w = (case HeadObject cl b k w of (r, w1) \<Rightarrow> run cl (f r) w1)"
| "run cl (Put i f) w = (case PutObject cl i w of (r, w1) \<Rightarrow> run cl (f r) w1)"
| "run cl (Del b k f) w = (case DeleteObject cl b k w of (r, w1) \<Rightarrow> run cl (f r) w1)"

section \<open>The locker\<close>

definition lockOwnerMetaKey :: string where "lockOwnerMetaKey = ''s3fs-lock-owner''"
definition lockExpiryMetaKey :: string where "lockExpiryMetaKey = ''s3fs-lock-expiry''"
definition defaultLockPrefix :: string where "defaultLockPrefix = ''.s3fs-lock/''"
definition defaultLockTTL :: int where "defaultLockTTL = 60 * 1000000000"
definition defaultLockPoll :: int where "defaultLockPoll = 1000000000"

text \<open>
  \<^verbatim>\<open>heldLock\<close>: the channels \<^verbatim>\<open>stop\<close> and \<^verbatim>\<open>done\<close> are only ever closed, so a channel is whether it
  has been. The map \<^verbatim>\<open>held\<close> holds pointers, because \<^verbatim>\<open>Unlock\<close> and the heartbeat share the lock.
\<close>

record heldLock =
  hl_owner :: string
  hl_stop :: bool
  hl_done :: bool

record S3Locker =
  lk_bucket :: string
  lk_prefix :: string
  lk_ttl :: int
  lk_poll :: int
  lk_held :: "string \<Rightarrow> nat option"

datatype S3LockerOption = OptLockPrefix string | OptLockTTL int | OptLockPoll int

definition WithLockPrefix :: "string \<Rightarrow> S3Locker \<Rightarrow> S3Locker" where
  "WithLockPrefix prefix0 l =
     (let prefix1 = TrimSlashes (ReplaceBackslash prefix0)
      in if prefix1 \<noteq> '''' then l\<lparr>lk_prefix := prefix1 @ ''/''\<rparr> else l)"

definition WithLockTTL :: "int \<Rightarrow> S3Locker \<Rightarrow> S3Locker" where
  "WithLockTTL ttl l = (if ttl > 0 then l\<lparr>lk_ttl := ttl\<rparr> else l)"

definition WithLockPoll :: "int \<Rightarrow> S3Locker \<Rightarrow> S3Locker" where
  "WithLockPoll poll l = (if poll > 0 then l\<lparr>lk_poll := poll\<rparr> else l)"

fun lockerOption :: "S3LockerOption \<Rightarrow> S3Locker \<Rightarrow> S3Locker" where
  "lockerOption (OptLockPrefix p) l = WithLockPrefix p l"
| "lockerOption (OptLockTTL t) l = WithLockTTL t l"
| "lockerOption (OptLockPoll t) l = WithLockPoll t l"

definition NewS3Locker :: "string \<Rightarrow> S3LockerOption list \<Rightarrow> S3Locker" where
  "NewS3Locker bucket opts =
     fold lockerOption opts
       \<lparr>lk_bucket = bucket, lk_prefix = defaultLockPrefix, lk_ttl = defaultLockTTL, lk_poll = defaultLockPoll,
        lk_held = (\<lambda>_. None)\<rparr>"

definition lockKey :: "S3Locker \<Rightarrow> string \<Rightarrow> string" where
  "lockKey l name = lk_prefix l @ TrimPrefix (cleanPath name) ''/''"

text \<open>
  \<^verbatim>\<open>randOwnerID\<close> on the 16 bytes \<^verbatim>\<open>rand.Read\<close> delivers; without them it panics.
\<close>

definition randOwnerID :: "bytes option \<Rightarrow> goerr + string" where
  "randOwnerID b = (case b of None \<Rightarrow> Inl Panic | Some d \<Rightarrow> Inr (hexEncode d))"

definition putLock :: "S3Locker \<Rightarrow> string \<Rightarrow> string \<Rightarrow> string option \<Rightarrow> string option \<Rightarrow> (goerr + string option) proc" where
  "putLock l k owner ifNoneMatch ifMatch =
     Now (\<lambda>t. let expiry = FormatInt (Unix (t + lk_ttl l))
              in Put \<lparr>put_Bucket = lk_bucket l, put_Key = k,
                      put_Body = bytes_of (owner @ [CHR 0x0A] @ expiry @ [CHR 0x0A]),
                      put_ContentLength = None,
                      put_Metadata = [(lockOwnerMetaKey, owner), (lockExpiryMetaKey, expiry)],
                      put_IfNoneMatch = ifNoneMatch, put_IfMatch = ifMatch\<rparr> Done)"

definition tryAcquire :: "S3Locker \<Rightarrow> string \<Rightarrow> string \<Rightarrow> (goerr + string) proc" where
  "tryAcquire l k owner =
     andThen (putLock l k owner (Some ''*'') None) (\<lambda>out. case out of
       Inr et \<Rightarrow> Done (Inr (ToString et))
     | Inl err \<Rightarrow>
         if \<not> isPreconditionFailed err then Done (Inl err)
         else Head (lk_bucket l) k (\<lambda>hr. case hr of
           Inl herr \<Rightarrow> if isNotFound herr then Done (Inl err) else Done (Inl herr)
         | Inr head \<Rightarrow>
             Now (\<lambda>t. if (case ParseInt (ToString (metaValue (Metadata head) lockExpiryMetaKey)) of
                            Some exp \<Rightarrow> Unix t \<le> exp | None \<Rightarrow> False)
                      then Done (Inl err)
                      else andThen (putLock l k owner None (ETag head)) (\<lambda>out2. case out2 of
                             Inl terr \<Rightarrow> Done (Inl terr)
                           | Inr et \<Rightarrow> Done (Inr (ToString et))))))"

text \<open>The part of \<^verbatim>\<open>Unlock\<close> after the heartbeat has ended.\<close>

definition releaseLock :: "S3Locker \<Rightarrow> string \<Rightarrow> string \<Rightarrow> goerr option proc" where
  "releaseLock l k own =
     Head (lk_bucket l) k (\<lambda>hr. case hr of
       Inl err \<Rightarrow> if isNotFound err then Done None else Done (Some err)
     | Inr head \<Rightarrow>
         if ToString (metaValue (Metadata head) lockOwnerMetaKey) \<noteq> own then Done None
         else Del (lk_bucket l) k (\<lambda>derr. case derr of
                Some err \<Rightarrow> if \<not> isNotFound err then Done (Some err) else Done None
              | None \<Rightarrow> Done None))"

section \<open>Threads, heartbeats and their interleaving\<close>

text \<open>
  A thread is outside of any call, has returned, or is at a point of \<^verbatim>\<open>Lock\<close> (in an attempt, or
  waiting to poll again) or of \<^verbatim>\<open>Unlock\<close> (waiting for the heartbeat to end, or releasing).
  The heartbeat goroutine of a held lock waits in its \<^verbatim>\<open>select\<close>, renews, or has ended;
  \<^verbatim>\<open>time.NewTicker\<close> panics when the interval is not positive.
\<close>

datatype lthread =
    Idle
  | Returned "goerr option"
  | Trying nat string string "(goerr + string) proc"
  | Polling nat string string
  | Stopping nat string nat
  | Releasing nat string string "goerr option proc"

datatype beat =
    NoBeat
  | Ticking nat string string string
  | Renewing nat string string string "(goerr + string option) proc"
  | Crashed

record 'w lsys =
  ls_world :: 'w
  ls_locker :: "nat \<Rightarrow> S3Locker"
  ls_held :: "nat \<Rightarrow> heldLock"
  ls_next :: nat
  ls_beat :: "nat \<Rightarrow> beat"
  ls_thread :: "nat \<Rightarrow> lthread"

abbreviation (input) set_thread :: "nat \<Rightarrow> lthread \<Rightarrow> 'w lsys \<Rightarrow> 'w lsys" where
  "set_thread i t s \<equiv> s\<lparr>ls_thread := (ls_thread s)(i := t)\<rparr>"

abbreviation (input) set_beat :: "nat \<Rightarrow> beat \<Rightarrow> 'w lsys \<Rightarrow> 'w lsys" where
  "set_beat h b s \<equiv> s\<lparr>ls_beat := (ls_beat s)(h := b)\<rparr>"

definition startHeartbeat :: "nat \<Rightarrow> string \<Rightarrow> string \<Rightarrow> string \<Rightarrow> string \<Rightarrow> 'w lsys \<Rightarrow> 'w lsys" where
  "startHeartbeat lid name k owner etag s =
     (let h = ls_next s; l = ls_locker s lid
      in s\<lparr>ls_held := (ls_held s)(h := \<lparr>hl_owner = owner, hl_stop = False, hl_done = False\<rparr>),
           ls_next := h + 1,
           ls_locker := (ls_locker s)(lid := l\<lparr>lk_held := (lk_held l)(name \<mapsto> h)\<rparr>),
           ls_beat := (ls_beat s)(h := if lk_ttl l div 3 \<le> 0 then Crashed else Ticking lid k owner etag)\<rparr>)"

text \<open>The start of \<^verbatim>\<open>Lock\<close> and of \<^verbatim>\<open>Unlock\<close> in thread \<open>i\<close>.\<close>

definition callLock :: "nat \<Rightarrow> nat \<Rightarrow> string \<Rightarrow> bytes option \<Rightarrow> 'w lsys \<Rightarrow> 'w lsys" where
  "callLock i lid name rnd s =
     (case randOwnerID rnd of
        Inl e \<Rightarrow> set_thread i (Returned (Some e)) s
      | Inr owner \<Rightarrow>
          set_thread i (Trying lid name owner (tryAcquire (ls_locker s lid) (lockKey (ls_locker s lid) name) owner)) s)"

definition callUnlock :: "nat \<Rightarrow> nat \<Rightarrow> string \<Rightarrow> 'w lsys \<Rightarrow> 'w lsys" where
  "callUnlock i lid name s =
     (let l = ls_locker s lid; s1 = s\<lparr>ls_locker := (ls_locker s)(lid := l\<lparr>lk_held := (lk_held l)(name := None)\<rparr>)\<rparr>
      in case lk_held l name of
           None \<Rightarrow> set_thread i (Returned None) s1
         | Some h \<Rightarrow>
             set_thread i (Stopping lid name h) (s1\<lparr>ls_held := (ls_held s1)(h := (ls_held s1 h)\<lparr>hl_stop := True\<rparr>)\<rparr>))"

text \<open>One step of a thread; \<open>None\<close> when it is blocked or has nothing to do.\<close>

definition advance :: "'w Client \<Rightarrow> nat \<Rightarrow> 'w lsys \<Rightarrow> 'w lsys option" where
  "advance cl i s =
     (case ls_thread s i of
        Trying lid name owner p \<Rightarrow>
          (case p of
             Done (Inr etag) \<Rightarrow>
               Some (set_thread i (Returned None)
                       (startHeartbeat lid name (lockKey (ls_locker s lid) name) owner etag s))
           | Done (Inl err) \<Rightarrow>
               Some (set_thread i (if isPreconditionFailed err then Polling lid name owner else Returned (Some err)) s)
           | _ \<Rightarrow> (case proc_step cl p (ls_world s) of
                    (p1, w1) \<Rightarrow> Some (set_thread i (Trying lid name owner p1) (s\<lparr>ls_world := w1\<rparr>))))
      | Polling lid name owner \<Rightarrow>
          Some (set_thread i (Trying lid name owner (tryAcquire (ls_locker s lid) (lockKey (ls_locker s lid) name) owner)) s)
      | Stopping lid name h \<Rightarrow>
          if hl_done (ls_held s h)
          then Some (set_thread i (Releasing lid name (hl_owner (ls_held s h))
                 (releaseLock (ls_locker s lid) (lockKey (ls_locker s lid) name) (hl_owner (ls_held s h)))) s)
          else None
      | Releasing lid name owner p \<Rightarrow>
          (case p of
             Done r \<Rightarrow> Some (set_thread i (Returned r) s)
           | _ \<Rightarrow> (case proc_step cl p (ls_world s) of
                    (p1, w1) \<Rightarrow> Some (set_thread i (Releasing lid name owner p1) (s\<lparr>ls_world := w1\<rparr>))))
      | _ \<Rightarrow> None)"

text \<open>
  The heartbeat: its loop leaves when the lock is stopped or lost, and renews at a tick; when
  both are possible the \<^verbatim>\<open>select\<close> may take either.
\<close>

definition end_beat :: "nat \<Rightarrow> 'w lsys \<Rightarrow> 'w lsys" where
  "end_beat h s = set_beat h NoBeat (s\<lparr>ls_held := (ls_held s)(h := (ls_held s h)\<lparr>hl_done := True\<rparr>)\<rparr>)"

definition heartbeat :: "'w Client \<Rightarrow> bool \<Rightarrow> nat \<Rightarrow> 'w lsys \<Rightarrow> 'w lsys option" where
  "heartbeat cl tick h s =
     (case ls_beat s h of
        Ticking lid k owner etag \<Rightarrow>
          if tick then Some (set_beat h (Renewing lid k owner etag (putLock (ls_locker s lid) k owner None (Some etag))) s)
          else if hl_stop (ls_held s h) then Some (end_beat h s)
          else None
      | Renewing lid k owner etag p \<Rightarrow>
          (case p of
             Done (Inr out) \<Rightarrow> Some (set_beat h (Ticking lid k owner (ToString out)) s)
           | Done (Inl err) \<Rightarrow>
               if isPreconditionFailed err then Some (end_beat h s) else Some (set_beat h (Ticking lid k owner etag) s)
           | _ \<Rightarrow> (case proc_step cl p (ls_world s) of
                    (p1, w1) \<Rightarrow> Some (set_beat h (Renewing lid k owner etag p1) (s\<lparr>ls_world := w1\<rparr>))))
      | _ \<Rightarrow> None)"

datatype laction =
    CallLock nat nat string "bytes option"
  | CallUnlock nat nat string
  | Advance nat
  | Cancel nat
  | Beat bool nat

definition idle :: "lthread \<Rightarrow> bool" where
  "idle t = (case t of Idle \<Rightarrow> True | Returned _ \<Rightarrow> True | _ \<Rightarrow> False)"

fun lock_act :: "'w Client \<Rightarrow> laction \<Rightarrow> 'w lsys \<Rightarrow> 'w lsys option" where
  "lock_act cl (CallLock i lid name rnd) s = (if idle (ls_thread s i) then Some (callLock i lid name rnd s) else None)"
| "lock_act cl (CallUnlock i lid name) s = (if idle (ls_thread s i) then Some (callUnlock i lid name s) else None)"
| "lock_act cl (Advance i) s = advance cl i s"
| "lock_act cl (Cancel i) s =
     (case ls_thread s i of
        Polling lid name owner \<Rightarrow> Some (set_thread i (Returned (Some ErrCanceled)) s)
      | _ \<Rightarrow> None)"
| "lock_act cl (Beat tick h) s = heartbeat cl tick h s"

fun lock_acts :: "'w Client \<Rightarrow> laction list \<Rightarrow> 'w lsys \<Rightarrow> 'w lsys option" where
  "lock_acts cl [] s = Some s"
| "lock_acts cl (a # as) s = (case lock_act cl a s of None \<Rightarrow> None | Some s1 \<Rightarrow> lock_acts cl as s1)"

inductive lock_step :: "'w Client \<Rightarrow> ('w \<Rightarrow> objects) \<Rightarrow> 'w lsys \<Rightarrow> 'w lsys \<Rightarrow> bool" for cl objs where
  act: "lock_act cl a s = Some s' \<Longrightarrow> lock_step cl objs s s'"
| pass: "objs w = objs (ls_world s) \<Longrightarrow> time_Now cl (ls_world s) \<le> time_Now cl w \<Longrightarrow>
           lock_step cl objs s (s\<lparr>ls_world := w\<rparr>)"

inductive_cases lock_stepE: "lock_step cl objs s s'"

definition lock_start :: "'w lsys \<Rightarrow> bool" where
  "lock_start s \<longleftrightarrow> (\<forall>i. ls_thread s i = Idle) \<and> (\<forall>h. ls_beat s h = NoBeat) \<and>
     (\<forall>l n. lk_held (ls_locker s l) n = None)"

section \<open>Leases\<close>

abbreviation (input) newline :: char where "newline \<equiv> CHR 0x0A"

definition lease_body :: "string \<Rightarrow> string \<Rightarrow> bytes" where
  "lease_body own x = bytes_of (own @ [newline] @ x @ [newline])"

text \<open>A lock object: who owns it and the text of its deadline, in the body and in the metadata.\<close>

definition is_lease :: "obj \<Rightarrow> string \<Rightarrow> string \<Rightarrow> bool" where
  "is_lease ob own x \<longleftrightarrow> odata ob = lease_body own x \<and> newline \<notin> set own \<and>
     metaValue (ometa ob) lockOwnerMetaKey = Some own \<and> metaValue (ometa ob) lockExpiryMetaKey = Some x"

definition unexpired :: "string \<Rightarrow> instant \<Rightarrow> bool" where
  "unexpired x t = (case ParseInt x of Some e \<Rightarrow> Unix t \<le> e | None \<Rightarrow> False)"

lemma unexpired_antimono: "unexpired x t' \<Longrightarrow> t \<le> t' \<Longrightarrow> unexpired x t"
  by (auto simp: unexpired_def Unix_def split: option.splits dest: zdiv_mono1 [of t t' 1000000000])

lemma bytes_of_inj: "bytes_of s = bytes_of t \<Longrightarrow> s = t"
proof -
  have "inj (\<lambda>c. (of_nat (code c) :: byte))"
    by (rule inj_on_inverseI [of _ "\<lambda>b. char_of (unat b)"]) (simp add: unat_of_nat code_less)
  then show "bytes_of s = bytes_of t \<Longrightarrow> s = t" unfolding bytes_of_def by (simp add: inj_map_eq_map)
qed

lemma lease_body_inj:
  assumes "lease_body o1 x1 = lease_body o2 x2" "newline \<notin> set o1" "newline \<notin> set o2"
  shows "o1 = o2" and "x1 = x2"
proof -
  have cut: "takeWhile (\<lambda>c. c \<noteq> newline) (o1 @ newline # t) = o1" if "newline \<notin> set o1" for o1 t
    using that by (induction o1) auto
  have e: "o1 @ newline # (x1 @ [newline]) = o2 @ newline # (x2 @ [newline])"
    using bytes_of_inj assms(1) unfolding lease_body_def by fastforce
  show "o1 = o2" using cut [OF assms(2)] cut [OF assms(3)] arg_cong [OF e, of "takeWhile (\<lambda>c. c \<noteq> newline)"] by simp
  then show "x1 = x2" using e by simp
qed

lemma hexEncode_newline [simp]: "newline \<notin> set (hexEncode d)"
proof -
  have "hexlower n \<noteq> newline" if "n < 16" for n
  proof -
    have "code (hexlower n) = (if n < 10 then 48 + n else 87 + n)" using that by (auto simp: hexlower_def)
    then show ?thesis by (auto split: if_splits)
  qed
  then show ?thesis unfolding hexEncode_def using nibbles by (fastforce simp: eq_commute [of newline])
qed

text \<open>
  What the lock relies on of the store: heads tell the truth and carry a tag that determines the
  content; a write takes effect only if its conditions hold at that moment, and if it is
  confirmed it took effect; a write or delete that fails may have taken effect or not. Time
  does not run backwards. Other processes may use the store as well.
\<close>

definition put_allowed :: "objects \<Rightarrow> PutObjectInput \<Rightarrow> bool" where
  "put_allowed m i \<longleftrightarrow> (put_IfNoneMatch i \<noteq> None \<longrightarrow> m (put_Key i) = None) \<and>
     (\<forall>t. put_IfMatch i = Some t \<longrightarrow> (\<exists>ob. m (put_Key i) = Some ob \<and> oetag ob = t))"

definition put_done :: "objects \<Rightarrow> PutObjectInput \<Rightarrow> obj \<Rightarrow> objects \<Rightarrow> bool" where
  "put_done m i ob m' \<longleftrightarrow> put_allowed m i \<and> m' = m(put_Key i \<mapsto> ob) \<and> odata ob = put_Body i \<and>
     meta_sim (ometa ob) (put_Metadata i)"

locale s3_cas =
  fixes cl :: "'w Client" and objs :: "'w \<Rightarrow> objects" and content :: "string \<Rightarrow> bytes"
  assumes cas_head: "HeadObject cl b k w = (r, w') \<Longrightarrow> objs w' = objs w \<and> time_Now cl w \<le> time_Now cl w' \<and>
        (\<forall>h. r = Inr h \<longrightarrow> (\<exists>ob. objs w k = Some ob \<and> meta_sim (Metadata h) (ometa ob) \<and> ETag h = Some (oetag ob)))"
    and cas_put: "PutObject cl i w = (rp, w') \<Longrightarrow> time_Now cl w \<le> time_Now cl w' \<and>
        (case rp of Inr et \<Rightarrow> \<exists>ob. put_done (objs w) i ob (objs w') \<and> et = Some (oetag ob)
                 | Inl e \<Rightarrow> objs w' = objs w \<or> (\<exists>ob. put_done (objs w) i ob (objs w')))"
    and cas_del: "DeleteObject cl b k w = (rd, w') \<Longrightarrow> time_Now cl w \<le> time_Now cl w' \<and>
        (objs w' = objs w \<and> rd \<noteq> None \<or> objs w' = (objs w)(k := None))"
    and cas_tags: "objs w k = Some ob \<Longrightarrow> content (oetag ob) = odata ob"

section \<open>Requests that respect leases\<close>

text \<open>
  A condition on a tree of requests, over every response that tells the truth: what it writes
  under \<open>k\<close> are leases of \<open>own\<close>, and it writes only to create, to renew a lease of \<open>own\<close>
  or to replace one that has expired; it deletes only if \<open>d\<close>; and its result satisfies \<open>Q\<close>.
\<close>

definition owned_tag :: "(string \<Rightarrow> bytes) \<Rightarrow> string \<Rightarrow> string \<Rightarrow> bool" where
  "owned_tag content own t \<longleftrightarrow> (\<exists>x. content t = lease_body own x)"

definition replaceable :: "(string \<Rightarrow> bytes) \<Rightarrow> string \<Rightarrow> string option \<Rightarrow> instant \<Rightarrow> bool" where
  "replaceable content own im now \<longleftrightarrow>
     (\<exists>t u x. im = Some t \<and> newline \<notin> set u \<and> content t = lease_body u x \<and> (u = own \<or> \<not> unexpired x now))"

lemma replaceable_later: "replaceable c own im t \<Longrightarrow> t \<le> t' \<Longrightarrow> replaceable c own im t'"
  using unexpired_antimono unfolding replaceable_def by blast

definition may_put :: "(string \<Rightarrow> bytes) \<Rightarrow> string \<Rightarrow> PutObjectInput \<Rightarrow> instant \<Rightarrow> bool" where
  "may_put content own i now \<longleftrightarrow>
     (\<exists>x. put_Body i = lease_body own x \<and> metaValue (put_Metadata i) lockOwnerMetaKey = Some own \<and>
          metaValue (put_Metadata i) lockExpiryMetaKey = Some x) \<and>
     (put_IfNoneMatch i \<noteq> None \<or> replaceable content own (put_IfMatch i) now)"

definition head_told :: "(string \<Rightarrow> bytes) \<Rightarrow> goerr + HeadObjectOutput \<Rightarrow> bool" where
  "head_told content r \<longleftrightarrow>
     (\<forall>h. r = Inr h \<longrightarrow> (\<exists>u x t. newline \<notin> set u \<and> ETag h = Some t \<and> content t = lease_body u x \<and>
        metaValue (Metadata h) lockOwnerMetaKey = Some u \<and> metaValue (Metadata h) lockExpiryMetaKey = Some x))"

primrec careful ::
    "(string \<Rightarrow> bytes) \<Rightarrow> string \<Rightarrow> string \<Rightarrow> bool \<Rightarrow> ('a \<Rightarrow> bool) \<Rightarrow> 'a proc \<Rightarrow> instant \<Rightarrow> bool" where
  "careful c k own d Q (Done x) now = Q x"
| "careful c k own d Q (Now f) now = (\<forall>t. now \<le> t \<longrightarrow> careful c k own d Q (f t) t)"
| "careful c k own d Q (Head b j f) now = (\<forall>r. (j = k \<longrightarrow> head_told c r) \<longrightarrow> careful c k own d Q (f r) now)"
| "careful c k own d Q (Put i f) now =
     ((put_Key i = k \<longrightarrow> may_put c own i now) \<and>
      (\<forall>r. (\<forall>et. r = Inr et \<longrightarrow> c (ToString et) = put_Body i) \<longrightarrow> careful c k own d Q (f r) now))"
| "careful c k own d Q (Del b j f) now = (d \<and> (\<forall>r. careful c k own d Q (f r) now))"

lemma careful_later: "careful c k own d Q p now \<Longrightarrow> now \<le> now' \<Longrightarrow> careful c k own d Q p now'"
proof (induction p arbitrary: now)
  case (Put i f)
  have "may_put c own i now'" if "put_Key i = k"
    using Put.prems that by (auto simp: may_put_def intro: replaceable_later)
  moreover have "careful c k own d Q (f r) now'" if "\<forall>et. r = Inr et \<longrightarrow> c (ToString et) = put_Body i" for r
    using Put.IH [OF rangeI _ Put.prems(2)] Put.prems(1) that by simp
  ultimately show ?case by simp
next
  case (Del b j f)
  have "careful c k own d Q (f r) now'" for r
    using Del.IH [OF rangeI _ Del.prems(2)] Del.prems(1) [unfolded careful.simps] by blast
  then show ?case using Del.prems(1) by simp
qed (auto simp: rangeI)

lemma careful_post: "careful c k own d Q p now \<Longrightarrow> (\<And>x. Q x \<Longrightarrow> Q' x) \<Longrightarrow> careful c k own d Q' p now"
  by (induction p arbitrary: now) (auto simp: rangeI)

lemma careful_andThen:
  "careful c k own d (\<lambda>x. \<forall>t. careful c k own d Q (g x) t) p now \<Longrightarrow> careful c k own d Q (andThen p g) now"
  by (induction p arbitrary: now) (auto simp: rangeI)

lemma careful_bind:
  assumes "careful c k own d Q' p now" "\<And>x t. Q' x \<Longrightarrow> careful c k own d Q (g x) t"
  shows "careful c k own d Q (andThen p g) now"
  using assms by (blast intro: careful_andThen careful_post)

lemma lock_keys [simp]:
  "list_all (\<lambda>c. lower c = c \<and> code c < 128) lockOwnerMetaKey"
  "list_all (\<lambda>c. lower c = c \<and> code c < 128) lockExpiryMetaKey"
  by (simp_all add: lockOwnerMetaKey_def lockExpiryMetaKey_def lower_def)

lemma meta_sim_lock:
  assumes "meta_sim m m'"
  shows "metaValue m lockOwnerMetaKey = metaValue m' lockOwnerMetaKey" "metaValue m lockExpiryMetaKey = metaValue m' lockExpiryMetaKey"
  using assms lock_keys unfolding meta_sim_def by blast+

lemma lock_meta [simp]:
  "metaValue [(lockOwnerMetaKey, u), (lockExpiryMetaKey, x)] lockOwnerMetaKey = Some u"
  "metaValue [(lockOwnerMetaKey, u), (lockExpiryMetaKey, x)] lockExpiryMetaKey = Some x"
  by (simp_all add: metaValue_def lockOwnerMetaKey_def lockExpiryMetaKey_def)

lemma putLock_careful:
  assumes "j = k \<Longrightarrow> inm \<noteq> None \<or> replaceable c own im now"
  shows "careful c k own d (\<lambda>r. \<forall>et. r = Inr et \<longrightarrow> owned_tag c own (ToString et)) (putLock l j own inm im) now"
  using assms by (auto simp: putLock_def Let_def may_put_def owned_tag_def lease_body_def intro: replaceable_later)

definition acquired :: "(string \<Rightarrow> bytes) \<Rightarrow> string \<Rightarrow> goerr + string \<Rightarrow> bool" where
  "acquired c own r \<longleftrightarrow> (\<forall>et. r = Inr et \<longrightarrow> owned_tag c own et)"

lemma tryAcquire_careful: "careful c k own d (acquired c own) (tryAcquire l j own) now"
  unfolding tryAcquire_def
proof (rule careful_bind [OF putLock_careful])
  fix r :: "goerr + string option" and t
  assume r: "\<forall>et. r = Inr et \<longrightarrow> owned_tag c own (ToString et)"
  have take: "careful c k own d (acquired c own)
        (andThen (putLock l j own None (ETag h)) (\<lambda>out2. case out2 of
           Inl terr \<Rightarrow> Done (Inl terr) | Inr et \<Rightarrow> Done (Inr (ToString et)))) t'"
    if "j = k \<longrightarrow> head_told c (Inr h)" "\<not> unexpired (ToString (metaValue (Metadata h) lockExpiryMetaKey)) t'" for h t'
  proof -
    have "replaceable c own (ETag h) t'" if "j = k"
      using that \<open>j = k \<longrightarrow> _\<close> \<open>\<not> unexpired _ _\<close> unfolding head_told_def replaceable_def by fastforce
    then show ?thesis
      by (intro careful_bind [OF putLock_careful]) (auto simp: acquired_def split: sum.splits)
  qed
  show "careful c k own d (acquired c own) (case r of
       Inr et \<Rightarrow> Done (Inr (ToString et))
     | Inl err \<Rightarrow>
         if \<not> isPreconditionFailed err then Done (Inl err)
         else Head (lk_bucket l) j (\<lambda>hr. case hr of
           Inl herr \<Rightarrow> if isNotFound herr then Done (Inl err) else Done (Inl herr)
         | Inr head \<Rightarrow>
             Now (\<lambda>t. if (case ParseInt (ToString (metaValue (Metadata head) lockExpiryMetaKey)) of
                            Some exp \<Rightarrow> Unix t \<le> exp | None \<Rightarrow> False)
                      then Done (Inl err)
                      else andThen (putLock l j own None (ETag head)) (\<lambda>out2. case out2 of
                             Inl terr \<Rightarrow> Done (Inl terr)
                           | Inr et \<Rightarrow> Done (Inr (ToString et)))))) t"
    using r take by (auto simp: acquired_def unexpired_def split: sum.splits)
qed simp

lemma releaseLock_careful: "careful c k own True (\<lambda>_. True) (releaseLock l j u) now"
  by (auto simp: releaseLock_def split: sum.splits option.splits)

section \<open>Every interleaving respects leases\<close>

definition all_leases :: "objects \<Rightarrow> string \<Rightarrow> bool" where
  "all_leases m k \<longleftrightarrow> (\<forall>ob. m k = Some ob \<longrightarrow> (\<exists>u x. is_lease ob u x))"

text \<open>The object under a key keeps its owner between two states of the store, or had expired.\<close>

definition kept_lease :: "string \<Rightarrow> objects \<Rightarrow> objects \<Rightarrow> instant \<Rightarrow> bool" where
  "kept_lease k m m' now \<longleftrightarrow>
     (\<forall>ob u x. m k = Some ob \<longrightarrow> is_lease ob u x \<longrightarrow> unexpired x now \<longrightarrow> (\<exists>ob' x'. m' k = Some ob' \<and> is_lease ob' u x'))"

lemma kept_same [simp]: "kept_lease k m m now"
  by (auto simp: kept_lease_def)

context s3_cas
begin

lemma careful_put:
  assumes "put_done (objs w) i ob (objs w')" "put_Key i = k" "may_put content own i now" "now \<le> now'"
    "all_leases (objs w) k" "newline \<notin> set own"
  shows "all_leases (objs w') k" and "kept_lease k (objs w) (objs w') now'"
proof -
  obtain x where x: "put_Body i = lease_body own x" "metaValue (put_Metadata i) lockOwnerMetaKey = Some own"
      "metaValue (put_Metadata i) lockExpiryMetaKey = Some x"
    using assms(3) by (auto simp: may_put_def)
  have m: "meta_sim (ometa ob) (put_Metadata i)" "odata ob = put_Body i" "objs w' k = Some ob"
    using assms(1,2) by (simp_all add: put_done_def)
  have new: "is_lease ob own x" using x m assms(6) meta_sim_lock [OF m(1)] by (simp add: is_lease_def)
  then show "all_leases (objs w') k" using m(3) by (auto simp: all_leases_def)
  show "kept_lease k (objs w) (objs w') now'"
    unfolding kept_lease_def
  proof (intro allI impI)
    fix ob0 u0 x0
    assume o0: "objs w k = Some ob0" "is_lease ob0 u0 x0" "unexpired x0 now'"
    have al: "put_allowed (objs w) i" using assms(1) by (simp add: put_done_def)
    then have "put_IfNoneMatch i = None" using o0(1) assms(2) by (simp add: put_allowed_def)
    then obtain t u y where t: "put_IfMatch i = Some t" "newline \<notin> set u" "content t = lease_body u y"
        "u = own \<or> \<not> unexpired y now"
      using assms(3) by (auto simp: may_put_def replaceable_def)
    have "oetag ob0 = t" using al t(1) o0(1) assms(2) by (simp add: put_allowed_def)
    then have "lease_body u0 x0 = lease_body u y" using cas_tags [OF o0(1)] t(3) o0(2) by (simp add: is_lease_def)
    then have "u0 = u" "x0 = y" using lease_body_inj t(2) o0(2) unfolding is_lease_def by blast+
    then have "u0 = own" using t(4) unexpired_antimono [OF o0(3) assms(4)] by auto
    then show "\<exists>ob' x'. objs w' k = Some ob' \<and> is_lease ob' u0 x'" using m(3) new by blast
  qed
qed

lemma proc_step_respects:
  assumes st: "proc_step cl p w = (p', w')" and c: "careful content k own d Q p (time_Now cl w)"
    and l: "all_leases (objs w) k" and nl: "newline \<notin> set own"
  shows "careful content k own d Q p' (time_Now cl w')" and "all_leases (objs w') k" and "time_Now cl w \<le> time_Now cl w'"
    and "\<not> d \<Longrightarrow> kept_lease k (objs w) (objs w') (time_Now cl w')"
    and "\<not> kept_lease k (objs w) (objs w') (time_Now cl w') \<Longrightarrow> \<exists>b f. p = Del b k f"
proof -
  have "careful content k own d Q p' (time_Now cl w') \<and> all_leases (objs w') k \<and> time_Now cl w \<le> time_Now cl w' \<and>
      (kept_lease k (objs w) (objs w') (time_Now cl w') \<or> d \<and> (\<exists>b f. p = Del b k f))"
  proof (cases p)
    case (Done x)
    then show ?thesis using st c l by simp
  next
    case (Now f)
    then show ?thesis using st c l by auto
  next
    case (Head b j f)
    obtain r where r: "HeadObject cl b j w = (r, w')" "p' = f r" using st Head by (auto split: prod.splits)
    note h = cas_head [OF r(1)]
    have "head_told content r" if "j = k"
      unfolding head_told_def
    proof (intro allI impI)
      fix hd1
      assume "r = Inr hd1"
      then obtain ob where o1: "objs w k = Some ob" "meta_sim (Metadata hd1) (ometa ob)" "ETag hd1 = Some (oetag ob)"
        using h \<open>j = k\<close> by blast
      moreover obtain u x where "is_lease ob u x" using l o1(1) by (auto simp: all_leases_def)
      ultimately show "\<exists>u x t. newline \<notin> set u \<and> ETag hd1 = Some t \<and> content t = lease_body u x \<and>
          metaValue (Metadata hd1) lockOwnerMetaKey = Some u \<and> metaValue (Metadata hd1) lockExpiryMetaKey = Some x"
        using cas_tags [OF o1(1)] meta_sim_lock [OF o1(2)] by (auto simp: is_lease_def)
    qed
    then have "careful content k own d Q (f r) (time_Now cl w)" using c Head by simp
    then show ?thesis using h l r(2) careful_later [of content k own d Q "f r" "time_Now cl w" "time_Now cl w'"] by simp
  next
    case (Put i f)
    obtain r where r: "PutObject cl i w = (r, w')" "p' = f r" using st Put by (auto split: prod.splits)
    note h = cas_put [OF r(1)]
    have "content (ToString et) = put_Body i" if "r = Inr et" for et
      using h that cas_tags [of w' "put_Key i"] by (auto simp: put_done_def)
    then have "careful content k own d Q (f r) (time_Now cl w)" using c Put by simp
    then have c1: "careful content k own d Q p' (time_Now cl w')" using careful_later h r(2) by blast
    consider "objs w' = objs w" | ob where "put_done (objs w) i ob (objs w')" using h by (auto split: sum.splits)
    then show ?thesis
    proof cases
      case 1
      then show ?thesis using c1 l h by simp
    next
      case 2
      show ?thesis
      proof (cases "put_Key i = k")
        case True
        then have "may_put content own i (time_Now cl w)" using c Put by simp
        from careful_put [OF 2 True this] show ?thesis using c1 l h nl by blast
      next
        case False
        then have "objs w' k = objs w k" using 2 by (simp add: put_done_def)
        then show ?thesis using c1 l h unfolding kept_lease_def all_leases_def by auto
      qed
    qed
  next
    case (Del b j f)
    obtain r where r: "DeleteObject cl b j w = (r, w')" "p' = f r" using st Del by (auto split: prod.splits)
    note h = cas_del [OF r(1)]
    have d: d and cr: "careful content k own d Q (f r) (time_Now cl w)" using c unfolding Del careful.simps by blast+
    have c1: "careful content k own d Q p' (time_Now cl w')" using cr h r(2) careful_later by blast
    consider "objs w' k = objs w k" | "j = k" "objs w' k = None" using h by (cases "j = k") auto
    then show ?thesis
    proof cases
      case 1
      then show ?thesis using c1 l h unfolding kept_lease_def all_leases_def by auto
    next
      case 2
      then show ?thesis using c1 h d Del by (auto simp: all_leases_def)
    qed
  qed
  then show "careful content k own d Q p' (time_Now cl w')" "all_leases (objs w') k" "time_Now cl w \<le> time_Now cl w'"
    "\<not> d \<Longrightarrow> kept_lease k (objs w) (objs w') (time_Now cl w')"
    "\<not> kept_lease k (objs w) (objs w') (time_Now cl w') \<Longrightarrow> \<exists>b f. p = Del b k f" by blast+
qed

end

text \<open>What every thread and heartbeat is up to.\<close>

fun thread_ok :: "(string \<Rightarrow> bytes) \<Rightarrow> string \<Rightarrow> lthread \<Rightarrow> instant \<Rightarrow> bool" where
  "thread_ok c k (Trying lid n own p) now = (newline \<notin> set own \<and> careful c k own False (acquired c own) p now)"
| "thread_ok c k (Polling lid n own) now = (newline \<notin> set own)"
| "thread_ok c k (Releasing lid n own p) now = careful c k '''' True (\<lambda>_. True) p now"
| "thread_ok c k _ now = True"

fun beat_ok :: "(string \<Rightarrow> bytes) \<Rightarrow> string \<Rightarrow> beat \<Rightarrow> instant \<Rightarrow> bool" where
  "beat_ok c k (Ticking lid j own et) now = (newline \<notin> set own \<and> owned_tag c own et)"
| "beat_ok c k (Renewing lid j own et p) now =
     (newline \<notin> set own \<and> owned_tag c own et \<and>
      careful c k own False (\<lambda>r. \<forall>et. r = Inr et \<longrightarrow> owned_tag c own (ToString et)) p now)"
| "beat_ok c k _ now = True"

lemma thread_ok_later: "thread_ok c k t now \<Longrightarrow> now \<le> now' \<Longrightarrow> thread_ok c k t now'"
  by (cases t) (auto intro: careful_later)

lemma beat_ok_later: "beat_ok c k b now \<Longrightarrow> now \<le> now' \<Longrightarrow> beat_ok c k b now'"
  by (cases b) (auto intro: careful_later)

definition lock_inv :: "'w Client \<Rightarrow> ('w \<Rightarrow> objects) \<Rightarrow> (string \<Rightarrow> bytes) \<Rightarrow> string \<Rightarrow> 'w lsys \<Rightarrow> bool" where
  "lock_inv cl objs c k s \<longleftrightarrow> all_leases (objs (ls_world s)) k \<and>
     (\<forall>i. thread_ok c k (ls_thread s i) (time_Now cl (ls_world s))) \<and>
     (\<forall>h. beat_ok c k (ls_beat s h) (time_Now cl (ls_world s)))"

lemma lock_inv_start: "lock_start s \<Longrightarrow> all_leases (objs (ls_world s)) k \<Longrightarrow> lock_inv cl objs c k s"
  by (simp add: lock_inv_def lock_start_def)

lemma lock_inv_local:
  assumes "lock_inv cl objs c k s" "ls_world s' = ls_world s"
    "\<And>i. ls_thread s' i = ls_thread s i \<or> thread_ok c k (ls_thread s' i) (time_Now cl (ls_world s))"
    "\<And>h. ls_beat s' h = ls_beat s h \<or> beat_ok c k (ls_beat s' h) (time_Now cl (ls_world s))"
  shows "lock_inv cl objs c k s'"
  using assms unfolding lock_inv_def by metis

lemma lock_inv_world:
  assumes "lock_inv cl objs c k s" "all_leases (objs (ls_world s')) k" "time_Now cl (ls_world s) \<le> time_Now cl (ls_world s')"
    "\<And>i. ls_thread s' i = ls_thread s i \<or> thread_ok c k (ls_thread s' i) (time_Now cl (ls_world s'))"
    "\<And>h. ls_beat s' h = ls_beat s h \<or> beat_ok c k (ls_beat s' h) (time_Now cl (ls_world s'))"
  shows "lock_inv cl objs c k s'"
  using assms thread_ok_later beat_ok_later unfolding lock_inv_def by metis

lemma hexOwner: "randOwnerID rnd = Inr own \<Longrightarrow> newline \<notin> set own"
  by (auto simp: randOwnerID_def split: option.splits)

lemma callLock_inv: "lock_inv cl objs c k s \<Longrightarrow> lock_inv cl objs c k (callLock i lid n rnd s)"
  by (erule lock_inv_local)
    (auto simp: callLock_def tryAcquire_careful hexOwner split: sum.splits)

lemma callUnlock_inv: "lock_inv cl objs c k s \<Longrightarrow> lock_inv cl objs c k (callUnlock i lid n s)"
  by (erule lock_inv_local) (auto simp: callUnlock_def Let_def split: option.splits)

lemma same_world:
  "ls_world (callLock i lid n rnd s) = ls_world s" "ls_world (callUnlock i lid n s) = ls_world s"
  "ls_world (startHeartbeat lid n j own et s) = ls_world s" "ls_world (end_beat h s) = ls_world s"
  by (simp_all add: callLock_def callUnlock_def startHeartbeat_def end_beat_def Let_def split: sum.splits option.splits)

text \<open>At a request, a thread or a heartbeat takes the step of its tree.\<close>

lemma advance_request:
  "ls_thread s i = Trying lid n own p \<Longrightarrow> \<not> (\<exists>r. p = Done r) \<Longrightarrow> advance cl i s =
     (case proc_step cl p (ls_world s) of (p1, w1) \<Rightarrow> Some (set_thread i (Trying lid n own p1) (s\<lparr>ls_world := w1\<rparr>)))"
  "ls_thread s i = Releasing lid n own q \<Longrightarrow> \<not> (\<exists>r. q = Done r) \<Longrightarrow> advance cl i s =
     (case proc_step cl q (ls_world s) of (p1, w1) \<Rightarrow> Some (set_thread i (Releasing lid n own p1) (s\<lparr>ls_world := w1\<rparr>)))"
  by (cases p; simp add: advance_def) (cases q; simp add: advance_def)

lemma heartbeat_request:
  "ls_beat s h = Renewing lid k own et p \<Longrightarrow> \<not> (\<exists>r. p = Done r) \<Longrightarrow> heartbeat cl tick h s =
     (case proc_step cl p (ls_world s) of (p1, w1) \<Rightarrow> Some (set_beat h (Renewing lid k own et p1) (s\<lparr>ls_world := w1\<rparr>)))"
  by (cases p; simp add: heartbeat_def)

definition deleting :: "string \<Rightarrow> lthread \<Rightarrow> bool" where
  "deleting k t \<longleftrightarrow> (\<exists>lid n own b f. t = Releasing lid n own (Del b k f))"

context s3_cas
begin

abbreviation (input) heeds where
  "heeds k s s' \<equiv> (lock_inv cl objs content k s' \<and>
     (kept_lease k (objs (ls_world s)) (objs (ls_world s')) (time_Now cl (ls_world s')) \<or> (\<exists>i. deleting k (ls_thread s i))))"

lemma trying_respects:
  assumes inv: "lock_inv cl objs content k s" and t: "ls_thread s i = Trying lid n own p"
    and st: "proc_step cl p (ls_world s) = (p1, w1)"
  shows "heeds k s (set_thread i (Trying lid n own p1) (s\<lparr>ls_world := w1\<rparr>))"
proof -
  have ok: "newline \<notin> set own" "careful content k own False (acquired content own) p (time_Now cl (ls_world s))"
      "all_leases (objs (ls_world s)) k"
    using inv [unfolded lock_inv_def, THEN conjunct2, THEN conjunct1, rule_format, of i] t inv
    by (simp_all add: lock_inv_def)
  note r = proc_step_respects [OF st ok(2,3,1)]
  have "lock_inv cl objs content k (set_thread i (Trying lid n own p1) (s\<lparr>ls_world := w1\<rparr>))"
    by (rule lock_inv_world [OF inv]) (use r(1-3) ok(1) in auto)
  then show ?thesis using r(4) by simp
qed

lemma renewing_respects:
  assumes inv: "lock_inv cl objs content k s" and t: "ls_beat s h = Renewing lid j own et p"
    and st: "proc_step cl p (ls_world s) = (p1, w1)"
  shows "heeds k s (set_beat h (Renewing lid j own et p1) (s\<lparr>ls_world := w1\<rparr>))"
proof -
  have ok: "newline \<notin> set own" "owned_tag content own et"
      "careful content k own False (\<lambda>r. \<forall>et. r = Inr et \<longrightarrow> owned_tag content own (ToString et)) p (time_Now cl (ls_world s))"
      "all_leases (objs (ls_world s)) k"
    using inv [unfolded lock_inv_def, THEN conjunct2, THEN conjunct2, rule_format, of h] t inv
    by (simp_all add: lock_inv_def)
  note r = proc_step_respects [OF st ok(3,4,1)]
  have "lock_inv cl objs content k (set_beat h (Renewing lid j own et p1) (s\<lparr>ls_world := w1\<rparr>))"
    by (rule lock_inv_world [OF inv]) (use r(1-3) ok(1,2) in auto)
  then show ?thesis using r(4) by simp
qed

lemma releasing_respects:
  assumes inv: "lock_inv cl objs content k s" and t: "ls_thread s i = Releasing lid n own p"
    and st: "proc_step cl p (ls_world s) = (p1, w1)"
  shows "heeds k s (set_thread i (Releasing lid n own p1) (s\<lparr>ls_world := w1\<rparr>))"
proof -
  have ok: "careful content k '''' True (\<lambda>_. True) p (time_Now cl (ls_world s))" "all_leases (objs (ls_world s)) k"
    using inv [unfolded lock_inv_def, THEN conjunct2, THEN conjunct1, rule_format, of i] t inv
    by (simp_all add: lock_inv_def)
  note r = proc_step_respects [OF st ok]
  have "lock_inv cl objs content k (set_thread i (Releasing lid n own p1) (s\<lparr>ls_world := w1\<rparr>))"
    by (rule lock_inv_world [OF inv]) (use r(1-3) in auto)
  moreover have "deleting k (ls_thread s i)" if "\<not> kept_lease k (objs (ls_world s)) (objs w1) (time_Now cl w1)"
    using r(5) that t by (auto simp: deleting_def)
  ultimately show ?thesis by auto
qed

lemma advance_respects:
  assumes inv: "lock_inv cl objs content k s" and a: "advance cl i s = Some s'"
  shows "heeds k s s'"
proof -
  have loc: "heeds k s s'" if "ls_world s' = ls_world s"
      "\<And>j. ls_thread s' j = ls_thread s j \<or> thread_ok content k (ls_thread s' j) (time_Now cl (ls_world s))"
      "\<And>h. ls_beat s' h = ls_beat s h \<or> beat_ok content k (ls_beat s' h) (time_Now cl (ls_world s))"
    using lock_inv_local [OF inv that] that(1) by simp
  have ti: "thread_ok content k (ls_thread s i) (time_Now cl (ls_world s))" using inv by (simp add: lock_inv_def)
  show ?thesis
  proof (cases "ls_thread s i")
    case (Trying lid n own p)
    have ok: "newline \<notin> set own" "careful content k own False (acquired content own) p (time_Now cl (ls_world s))"
      using ti Trying by simp_all
    show ?thesis
    proof (cases "\<exists>r. p = Done r")
      case False
      obtain p1 w1 where st: "proc_step cl p (ls_world s) = (p1, w1)" by fastforce
      then have "s' = set_thread i (Trying lid n own p1) (s\<lparr>ls_world := w1\<rparr>)"
        using a advance_request(1) [OF Trying] False by simp
      then show ?thesis using trying_respects [OF inv Trying st] by simp
    next
      case True
      then obtain r where Done: "p = Done r" by blast
      show ?thesis
      proof (cases r)
        case (Inl e)
        then show ?thesis using a Trying Done ok by (intro loc) (auto simp: advance_def split: if_splits)
      next
        case (Inr et)
        then have "owned_tag content own et" using ok(2) Done by (simp add: acquired_def)
        then show ?thesis using a Trying Done Inr ok(1)
          by (intro loc) (auto simp: advance_def startHeartbeat_def Let_def)
      qed
    qed
  next
    case (Polling lid n own)
    then show ?thesis using a ti by (intro loc) (auto simp: advance_def tryAcquire_careful)
  next
    case (Stopping lid n h)
    then show ?thesis using a by (intro loc) (auto simp: advance_def releaseLock_careful split: if_splits)
  next
    case (Releasing lid n own p)
    show ?thesis
    proof (cases "\<exists>r. p = Done r")
      case True
      then show ?thesis using a Releasing by (intro loc) (auto simp: advance_def)
    next
      case False
      obtain p1 w1 where st: "proc_step cl p (ls_world s) = (p1, w1)" by fastforce
      then have "s' = set_thread i (Releasing lid n own p1) (s\<lparr>ls_world := w1\<rparr>)"
        using a advance_request(2) [OF Releasing] False by simp
      then show ?thesis using releasing_respects [OF inv Releasing st] by simp
    qed
  qed (use a in \<open>simp_all add: advance_def\<close>)
qed
end

context s3_cas
begin

lemma heartbeat_respects:
  assumes inv: "lock_inv cl objs content k s" and a: "heartbeat cl tick h s = Some s'"
  shows "heeds k s s'"
proof -
  have loc: "heeds k s s'" if "ls_world s' = ls_world s"
      "\<And>j. ls_thread s' j = ls_thread s j \<or> thread_ok content k (ls_thread s' j) (time_Now cl (ls_world s))"
      "\<And>h. ls_beat s' h = ls_beat s h \<or> beat_ok content k (ls_beat s' h) (time_Now cl (ls_world s))"
    using lock_inv_local [OF inv that] that(1) by simp
  have bh: "beat_ok content k (ls_beat s h) (time_Now cl (ls_world s))" using inv by (simp add: lock_inv_def)
  show ?thesis
  proof (cases "ls_beat s h")
    case (Ticking lid j own et)
    then have ok: "newline \<notin> set own" "owned_tag content own et" using bh by simp_all
    then have "replaceable content own (Some et) (time_Now cl (ls_world s))" by (auto simp: replaceable_def owned_tag_def)
    then show ?thesis using a Ticking ok
      by (intro loc) (auto simp: heartbeat_def end_beat_def intro!: putLock_careful split: if_splits)
  next
    case (Renewing lid j own et p)
    show ?thesis
    proof (cases "\<exists>r. p = Done r")
      case True
      then show ?thesis using a Renewing bh
        by (intro loc) (auto simp: heartbeat_def end_beat_def split: sum.splits if_splits)
    next
      case False
      obtain p1 w1 where st: "proc_step cl p (ls_world s) = (p1, w1)" by fastforce
      then have "s' = set_beat h (Renewing lid j own et p1) (s\<lparr>ls_world := w1\<rparr>)"
        using a heartbeat_request [OF Renewing] False by simp
      then show ?thesis using renewing_respects [OF inv Renewing st] by simp
    qed
  qed (use a in \<open>simp_all add: heartbeat_def\<close>)
qed

lemma lock_step_respects:
  assumes inv: "lock_inv cl objs content k s" and st: "lock_step cl objs s s'"
  shows "heeds k s s'"
  using st
proof cases
  case (act a)
  show ?thesis
  proof (cases a)
    case (CallLock i lid n rnd)
    then show ?thesis using act callLock_inv [OF inv] by (auto simp: same_world split: if_splits)
  next
    case (CallUnlock i lid n)
    then show ?thesis using act callUnlock_inv [OF inv] by (auto simp: same_world split: if_splits)
  next
    case (Advance i)
    then show ?thesis using act advance_respects [OF inv] by simp
  next
    case (Cancel i)
    then obtain lid n own where "s' = set_thread i (Returned (Some ErrCanceled)) s"
      using act by (auto split: lthread.splits)
    then show ?thesis using lock_inv_local [OF inv, of s'] by auto
  next
    case (Beat tick h)
    then show ?thesis using act heartbeat_respects [OF inv] by simp
  qed
next
  case (pass w)
  then have "lock_inv cl objs content k s'" by (intro lock_inv_world [OF inv]) (use inv in \<open>auto simp: lock_inv_def\<close>)
  then show ?thesis using pass by simp
qed

lemma lock_reachable: "(lock_step cl objs)\<^sup>*\<^sup>* s s' \<Longrightarrow> lock_inv cl objs content k s \<Longrightarrow> lock_inv cl objs content k s'"
  by (induction rule: rtranclp_induct) (use lock_step_respects in blast)+

end


section \<open>Evaluation\<close>

text \<open>
  Code equations in which the continuations are named, so that evaluation does not go under
  their binders.
\<close>

definition after :: "('r \<Rightarrow> 'a proc) \<Rightarrow> ('a \<Rightarrow> 'b proc) \<Rightarrow> 'r \<Rightarrow> 'b proc" where
  "after f g r = andThen (f r) g"

lemma andThen_code [code]:
  "andThen (Done x) g = g x"
  "andThen (Now f) g = Now (after f g)"
  "andThen (Head b k fh) g = Head b k (after fh g)"
  "andThen (Put i fp) g = Put i (after fp g)"
  "andThen (Del b k fd) g = Del b k (after fd g)"
  by (simp_all add: after_def fun_eq_iff)

definition putLock_at ::
    "S3Locker \<Rightarrow> string \<Rightarrow> string \<Rightarrow> string option \<Rightarrow> string option \<Rightarrow> instant \<Rightarrow> (goerr + string option) proc" where
  "putLock_at l k owner inm im t =
     (let expiry = FormatInt (Unix (t + lk_ttl l))
      in Put \<lparr>put_Bucket = lk_bucket l, put_Key = k,
              put_Body = bytes_of (owner @ [CHR 0x0A] @ expiry @ [CHR 0x0A]),
              put_ContentLength = None,
              put_Metadata = [(lockOwnerMetaKey, owner), (lockExpiryMetaKey, expiry)],
              put_IfNoneMatch = inm, put_IfMatch = im\<rparr> Done)"

lemma putLock_code [code]: "putLock l k owner inm im = Now (putLock_at l k owner inm im)"
  by (simp add: putLock_def putLock_at_def fun_eq_iff)

fun taken :: "goerr + string option \<Rightarrow> (goerr + string) proc" where
  "taken (Inl terr) = Done (Inl terr)"
| "taken (Inr et) = Done (Inr (ToString et))"

definition takeover_at :: "S3Locker \<Rightarrow> string \<Rightarrow> string \<Rightarrow> goerr \<Rightarrow> HeadObjectOutput \<Rightarrow> instant \<Rightarrow> (goerr + string) proc" where
  "takeover_at l k owner err h t =
     (if (case ParseInt (ToString (metaValue (Metadata h) lockExpiryMetaKey)) of Some e \<Rightarrow> Unix t \<le> e | None \<Rightarrow> False)
      then Done (Inl err) else andThen (putLock l k owner None (ETag h)) taken)"

fun inspected :: "S3Locker \<Rightarrow> string \<Rightarrow> string \<Rightarrow> goerr \<Rightarrow> goerr + HeadObjectOutput \<Rightarrow> (goerr + string) proc" where
  "inspected l k owner err (Inl herr) = (if isNotFound herr then Done (Inl err) else Done (Inl herr))"
| "inspected l k owner err (Inr h) = Now (takeover_at l k owner err h)"

fun created :: "S3Locker \<Rightarrow> string \<Rightarrow> string \<Rightarrow> goerr + string option \<Rightarrow> (goerr + string) proc" where
  "created l k owner (Inr et) = Done (Inr (ToString et))"
| "created l k owner (Inl err) =
     (if \<not> isPreconditionFailed err then Done (Inl err) else Head (lk_bucket l) k (inspected l k owner err))"

lemma taken_eq: "taken = (\<lambda>out2. case out2 of Inl terr \<Rightarrow> Done (Inl terr) | Inr et \<Rightarrow> Done (Inr (ToString et)))"
  by (auto simp: fun_eq_iff split: sum.splits)

lemma inspected_eq: "inspected l k owner err = (\<lambda>hr. case hr of
    Inl herr \<Rightarrow> if isNotFound herr then Done (Inl err) else Done (Inl herr)
  | Inr h \<Rightarrow> Now (takeover_at l k owner err h))"
  by (auto simp: fun_eq_iff split: sum.splits)

lemma tryAcquire_code [code]: "tryAcquire l k owner = andThen (putLock l k owner (Some ''*'') None) (created l k owner)"
  unfolding tryAcquire_def taken_eq [symmetric] takeover_at_def [symmetric] inspected_eq [symmetric]
  by (rule arg_cong [where f = "andThen _"]) (auto simp: fun_eq_iff split: sum.splits)

fun released :: "goerr option \<Rightarrow> goerr option proc" where
  "released None = Done None"
| "released (Some err) = (if \<not> isNotFound err then Done (Some err) else Done None)"

fun release_seen :: "S3Locker \<Rightarrow> string \<Rightarrow> string \<Rightarrow> goerr + HeadObjectOutput \<Rightarrow> goerr option proc" where
  "release_seen l k own (Inl err) = (if isNotFound err then Done None else Done (Some err))"
| "release_seen l k own (Inr h) =
     (if ToString (metaValue (Metadata h) lockOwnerMetaKey) \<noteq> own then Done None else Del (lk_bucket l) k released)"

lemma releaseLock_code [code]: "releaseLock l k own = Head (lk_bucket l) k (release_seen l k own)"
proof -
  have r: "released = (\<lambda>derr. case derr of Some err \<Rightarrow> if \<not> isNotFound err then Done (Some err) else Done None | None \<Rightarrow> Done None)"
    by (auto simp: fun_eq_iff split: option.splits)
  show ?thesis unfolding releaseLock_def r [symmetric] by (auto simp: fun_eq_iff split: sum.splits)
qed

section \<open>The executable store and a race\<close>

text \<open>The objects of the executable store, with the tag it answers and compares.\<close>

definition cas_objs :: "fake \<Rightarrow> objects" where
  "cas_objs w k = map_option (\<lambda>o1. o1\<lparr>oetag := tag_of (odata o1)\<rparr>) (fake_objs w k)"

lemma cas_objs_put: "cas_objs (fake_put k o1 w) = (cas_objs w)(k \<mapsto> o1\<lparr>oetag := tag_of (odata o1)\<rparr>)"
  by (auto simp: cas_objs_def fake_put_def update_conv')

lemma fake_put_allowed:
  "put_allowed (cas_objs w) i \<longleftrightarrow>
     \<not> (put_IfNoneMatch i \<noteq> None \<and> fake_objs w (put_Key i) \<noteq> None) \<and>
     \<not> (put_IfMatch i \<noteq> None \<and> map_option (\<lambda>c. tag_of (odata c)) (fake_objs w (put_Key i)) \<noteq> put_IfMatch i)"
  by (cases "fake_objs w (put_Key i)"; cases "put_IfMatch i") (auto simp: put_allowed_def cas_objs_def)

lemma fake_put_cases:
  "fake_PutObject i w =
     (if put_allowed (cas_objs w) i
      then (Inr (Some (tag_of (put_Body i))),
            fake_put (put_Key i) \<lparr>odata = put_Body i, ometa = put_Metadata i, oetag = tag_of (put_Body i)\<rparr> w)
      else (Inl precondition_failed, w))"
  by (simp add: fake_PutObject_def fake_put_allowed Let_def)

interpretation fake_cas: s3_cas fake_client cas_objs tag_content
proof (unfold_locales, goal_cases)
  case (1 b k w r w')
  then show ?case by (auto simp: fake_client_def cas_objs_def head_of_def split: option.splits)
next
  case (2 i w rp w')
  show ?case
  proof (cases "put_allowed (cas_objs w) i")
    case True
    let ?o = "\<lparr>odata = put_Body i, ometa = put_Metadata i, oetag = tag_of (put_Body i)\<rparr>"
    have r: "rp = Inr (Some (oetag ?o))" and w: "w' = fake_put (put_Key i) ?o w"
      using 2 True by (simp_all add: fake_client_def fake_put_cases)
    have "put_done (cas_objs w) i ?o (cas_objs w')" using True by (simp add: put_done_def cas_objs_put w)
    moreover have "time_Now fake_client w \<le> time_Now fake_client w'" by (simp add: w fake_client_def fake_put_def)
    ultimately show ?thesis unfolding r sum.case by blast
  qed (use 2 in \<open>auto simp: fake_client_def fake_put_cases\<close>)
next
  case (3 b k w rd w')
  then show ?case by (auto simp: fake_client_def cas_objs_def delete_conv')
next
  case (4 w k ob)
  then show ?case by (auto simp: cas_objs_def)
qed

lemma lock_acts_reach: "lock_acts cl as s = Some s' \<Longrightarrow> (lock_step cl objs)\<^sup>*\<^sup>* s s'"
proof (induction as arbitrary: s)
  case (Cons a as)
  then obtain s1 where "lock_act cl a s = Some s1" "lock_acts cl as s1 = Some s'" by (auto split: option.splits)
  then show ?case using Cons.IH lock_step.act by (metis converse_rtranclp_into_rtranclp)
qed simp

text \<open>Three processes with a locker each on an empty bucket, at midnight of 1 January 1970.\<close>

definition race0 :: "fake lsys" where
  "race0 = \<lparr>ls_world = \<lparr>bucket_objs = [], fake_clock = 62135596800000000000\<rparr>, ls_locker = (\<lambda>_. NewS3Locker ''b'' []),
            ls_held = (\<lambda>_. \<lparr>hl_owner = '''', hl_stop = False, hl_done = False\<rparr>), ls_next = 0,
            ls_beat = (\<lambda>_. NoBeat), ls_thread = (\<lambda>_. Idle)\<rparr>"

lemma race0_start: "lock_start race0" "all_leases (cas_objs (ls_world race0)) k"
proof -
  show "lock_start race0" by (simp add: lock_start_def race0_def NewS3Locker_def)
  show "all_leases (cas_objs (ls_world race0)) k" by (simp add: all_leases_def cas_objs_def race0_def)
qed

definition race_key :: string where "race_key = ''.s3fs-lock/x''"

definition owner_at :: "fake lsys \<Rightarrow> (string \<times> string) option" where
  "owner_at s = (case cas_objs (ls_world s) race_key of None \<Rightarrow> None
     | Some ob \<Rightarrow> Some (ToString (metaValue (ometa ob) lockOwnerMetaKey), ToString (metaValue (ometa ob) lockExpiryMetaKey)))"

definition holds_lock :: "fake lsys \<Rightarrow> nat \<Rightarrow> string option" where
  "holds_lock s lid = (case lk_held (ls_locker s lid) ''x'' of None \<Rightarrow> None | Some h \<Rightarrow> Some (hl_owner (ls_held s h)))"

definition now_is :: "int \<Rightarrow> fake lsys \<Rightarrow> fake lsys" where
  "now_is t s = s\<lparr>ls_world := (ls_world s)\<lparr>fake_clock := 62135596800000000000 + t * 1000000000\<rparr>\<rparr>"

lemma now_is_pass:
  "fake_clock (ls_world s) \<le> 62135596800000000000 + t * 1000000000 \<Longrightarrow> lock_step fake_client cas_objs s (now_is t s)"
  unfolding now_is_def by (rule lock_step.pass) (auto simp: cas_objs_def fun_eq_iff fake_client_def)

text \<open>
  The first process gets the lock and unlocks: it stops its heartbeat, finds the lock its own and
  is about to delete it. A minute passes and the second process takes the expired lock over;
  then the delete arrives, and the third process creates the lock.
\<close>

definition race_acts1 :: "laction list" where
  "race_acts1 = [CallLock 0 0 ''x'' (Some [1]), Advance 0, Advance 0, Advance 0,
     CallUnlock 0 0 ''x'', Beat False 0, Advance 0, Advance 0]"

definition race_acts2 :: "laction list" where
  "race_acts2 = [CallLock 1 1 ''x'' (Some [2]), Advance 1, Advance 1, Advance 1, Advance 1, Advance 1, Advance 1, Advance 1]"

definition race_acts3 :: "laction list" where
  "race_acts3 = [CallLock 2 2 ''x'' (Some [3]), Advance 2, Advance 2, Advance 2]"

fun then_do :: "('a \<Rightarrow> bool) \<Rightarrow> 'a option \<Rightarrow> bool" where
  "then_do P None = False"
| "then_do P (Some x) = P x"

lemma then_doE: "then_do P x \<Longrightarrow> (\<And>y. x = Some y \<Longrightarrow> P y \<Longrightarrow> thesis) \<Longrightarrow> thesis"
  by (cases x) auto

definition race_end :: "fake lsys \<Rightarrow> bool" where
  "race_end s \<longleftrightarrow> owner_at s = Some (''03'', ''121'') \<and> fake_clock (ls_world s) = 62135596861000000000 \<and>
     holds_lock s 1 = Some ''02'' \<and> holds_lock s 2 = Some ''03''"

definition race_deleted :: "fake lsys \<Rightarrow> bool" where
  "race_deleted s \<longleftrightarrow> owner_at s = None \<and> then_do race_end (lock_acts fake_client race_acts3 s)"

definition race_taken :: "fake lsys \<Rightarrow> bool" where
  "race_taken s \<longleftrightarrow> owner_at s = Some (''02'', ''121'') \<and> then_do race_deleted (lock_act fake_client (Advance 0) s)"

definition race_waits :: "fake lsys \<Rightarrow> bool" where
  "race_waits s \<longleftrightarrow> fake_clock (ls_world s) \<le> 62135596861000000000 \<and>
     then_do race_taken (lock_acts fake_client race_acts2 (now_is 61 s))"

lemma race_runs: "then_do race_waits (lock_acts fake_client race_acts1 race0)"
  by code_simp

text \<open>
  C36: the release does not respect leases. \<^verbatim>\<open>Unlock\<close> looks at the lock and then deletes it without a
  condition. When its lease runs out in between and another process takes the lock over, the
  delete removes the valid lock of that process, a third one gets the lock, and two processes
  hold it at the same time although the lease of each is valid.
\<close>

theorem unlock_deletes_foreign_lock:
  "\<exists>s5 s6 s7. (lock_step fake_client cas_objs)\<^sup>*\<^sup>* race0 s5 \<and> lock_step fake_client cas_objs s5 s6 \<and>
     (lock_step fake_client cas_objs)\<^sup>*\<^sup>* s6 s7 \<and>
     owner_at s5 = Some (''02'', ''121'') \<and> owner_at s6 = None \<and> owner_at s7 = Some (''03'', ''121'') \<and>
     unexpired ''121'' (time_Now fake_client (ls_world s7)) \<and>
     holds_lock s7 1 = Some ''02'' \<and> holds_lock s7 2 = Some ''03''"
proof -
  obtain s3 where s3: "lock_acts fake_client race_acts1 race0 = Some s3" and r3: "race_waits s3"
    using race_runs by (rule then_doE)
  obtain s5 where s5: "lock_acts fake_client race_acts2 (now_is 61 s3) = Some s5" and r5: "race_taken s5"
    using r3 unfolding race_waits_def by (blast elim: then_doE)
  obtain s6 where s6: "lock_act fake_client (Advance 0) s5 = Some s6" and r6: "race_deleted s6"
    using r5 unfolding race_taken_def by (blast elim: then_doE)
  obtain s7 where s7: "lock_acts fake_client race_acts3 s6 = Some s7" and r7: "race_end s7"
    using r6 unfolding race_deleted_def by (blast elim: then_doE)
  have "lock_step fake_client cas_objs s3 (now_is 61 s3)" using r3 by (intro now_is_pass) (simp add: race_waits_def)
  then have "(lock_step fake_client cas_objs)\<^sup>*\<^sup>* race0 s5"
    using lock_acts_reach [OF s3] lock_acts_reach [OF s5] by (meson rtranclp.rtrancl_into_rtrancl rtranclp_trans)
  moreover have "unexpired ''121'' 62135596861000000000" by code_simp
  then have "unexpired ''121'' (time_Now fake_client (ls_world s7))" using r7 by (simp add: race_end_def fake_client_def)
  ultimately show ?thesis
    using lock_step.act [OF s6] lock_acts_reach [OF s7] r5 r6 r7
    unfolding race_taken_def race_deleted_def race_end_def by blast
qed

text \<open>A process that holds the lock, and another whose attempt to create it is refused.\<close>

definition held_acts :: "laction list" where
  "held_acts = [CallLock 0 0 ''x'' (Some [1]), Advance 0, Advance 0, Advance 0, CallLock 1 1 ''x'' (Some [2]), Advance 1]"

definition held_lease :: obj where
  "held_lease = \<lparr>odata = lease_body ''01'' ''60'', ometa = [(lockOwnerMetaKey, ''01''), (lockExpiryMetaKey, ''60'')],
                 oetag = tag_of (lease_body ''01'' ''60'')\<rparr>"

definition held_next :: "fake lsys \<Rightarrow> bool" where
  "held_next s \<longleftrightarrow> fake_clock (ls_world s) = 62135596800000000000"

fun releasing :: "lthread \<Rightarrow> bool" where
  "releasing (Releasing lid n own p) = True"
| "releasing _ = False"

definition held_state :: "fake lsys \<Rightarrow> bool" where
  "held_state s \<longleftrightarrow> cas_objs (ls_world s) race_key = Some held_lease \<and> \<not> releasing (ls_thread s 0) \<and>
     \<not> releasing (ls_thread s 1) \<and> then_do held_next (lock_act fake_client (Advance 1) s)"

lemma held_runs: "then_do held_state (lock_acts fake_client held_acts race0)"
  by code_simp

text \<open>An action changes no thread but its own.\<close>

fun acts_on :: "laction \<Rightarrow> nat option" where
  "acts_on (CallLock i lid n rnd) = Some i"
| "acts_on (CallUnlock i lid n) = Some i"
| "acts_on (Advance i) = Some i"
| "acts_on (Cancel i) = Some i"
| "acts_on (Beat tick h) = None"

lemma lock_act_frame: "lock_act cl a s = Some s' \<Longrightarrow> acts_on a \<noteq> Some i \<Longrightarrow> ls_thread s' i = ls_thread s i"
  by (cases a)
    (auto simp: callLock_def callUnlock_def advance_def heartbeat_def end_beat_def startHeartbeat_def Let_def
      split: if_splits sum.splits option.splits lthread.splits proc.splits beat.splits prod.splits)

lemma lock_acts_frame:
  "lock_acts cl as s = Some s' \<Longrightarrow> Some i \<notin> acts_on ` set as \<Longrightarrow> ls_thread s' i = ls_thread s i"
proof (induction as arbitrary: s)
  case (Cons a as)
  then show ?case using lock_act_frame [of cl a s] by (auto split: option.splits)
qed simp


section \<open>One attempt, alone\<close>

text \<open>A store that answers: a write fails only when its conditions do, and a head only when nothing is there.\<close>

locale s3_cas_answers = s3_cas cl objs content
  for cl :: "'w Client" and objs content +
  assumes put_refused: "PutObject cl i w = (Inl e, w') \<Longrightarrow>
        isPreconditionFailed e \<and> objs w' = objs w \<and> \<not> put_allowed (objs w) i"
    and head_answers: "HeadObject cl b k w = (Inl eh, w') \<Longrightarrow> isNotFound eh \<and> objs w k = None"
    and del_answers: "DeleteObject cl b k w = (Some ed, w') \<Longrightarrow> isNotFound ed \<and> objs w' = (objs w)(k := None)"
begin

text \<open>A lease that \<^verbatim>\<open>putLock\<close> writes between two instants.\<close>

abbreviation (input) fresh_lease where
  "fresh_lease l own w w' ob \<equiv>
     (\<exists>t. time_Now cl w \<le> t \<and> t \<le> time_Now cl w' \<and> is_lease ob own (FormatInt (Unix (t + lk_ttl l))))"

lemma run_putLock:
  assumes "run cl (andThen (putLock l k own inm im) g) w = (r, w')" "newline \<notin> set own"
  obtains et ob w1 where "objs w1 = (objs w)(k \<mapsto> ob)" "fresh_lease l own w w1 ob" "et = Some (oetag ob)"
      "(inm \<noteq> None \<longrightarrow> objs w k = None)" "(\<forall>t. im = Some t \<longrightarrow> (\<exists>ob. objs w k = Some ob \<and> oetag ob = t))"
      "run cl (g (Inr et)) w1 = (r, w')"
  | e w1 where "objs w1 = objs w" "time_Now cl w \<le> time_Now cl w1" "isPreconditionFailed e"
      "inm \<noteq> None \<and> objs w k \<noteq> None \<or> (\<exists>t. im = Some t \<and> \<not> (\<exists>ob. objs w k = Some ob \<and> oetag ob = t))"
      "run cl (g (Inl e)) w1 = (r, w')"
proof -
  let ?x = "FormatInt (Unix (time_Now cl w + lk_ttl l))"
  let ?i = "\<lparr>put_Bucket = lk_bucket l, put_Key = k, put_Body = lease_body own ?x, put_ContentLength = None,
             put_Metadata = [(lockOwnerMetaKey, own), (lockExpiryMetaKey, ?x)], put_IfNoneMatch = inm, put_IfMatch = im\<rparr>"
  obtain rp w1 where p: "PutObject cl ?i w = (rp, w1)" by fastforce
  then have r: "run cl (g rp) w1 = (r, w')" using assms(1) by (simp add: putLock_def Let_def lease_body_def)
  note c = cas_put [OF p]
  show thesis
  proof (cases rp)
    case (Inr et)
    then obtain ob where o1: "put_done (objs w) ?i ob (objs w1)" "et = Some (oetag ob)" using c by auto
    have "is_lease ob own ?x"
      using o1(1) assms(2) meta_sim_lock [of "ometa ob" "put_Metadata ?i"] by (simp add: put_done_def is_lease_def)
    then show thesis using that(1) [of w1 ob et] o1 c r Inr by (auto simp: put_done_def put_allowed_def)
  next
    case (Inl e)
    then show thesis using that(2) [of w1 e] put_refused [of ?i w e w1] p c r by (auto simp: put_allowed_def)
  qed
qed

lemma tryAcquire_alone:
  assumes r: "run cl (tryAcquire l k own) w = (r, w')" and al: "all_leases (objs w) k" and nl: "newline \<notin> set own"
  shows "objs w k = None \<Longrightarrow> \<exists>ob. r = Inr (oetag ob) \<and> objs w' = (objs w)(k \<mapsto> ob) \<and> fresh_lease l own w w' ob"
    and "objs w k = Some ob0 \<Longrightarrow> is_lease ob0 u x \<Longrightarrow> unexpired x (time_Now cl w') \<Longrightarrow>
           (\<exists>e. r = Inl e \<and> isPreconditionFailed e) \<and> objs w' = objs w"
    and "objs w k = Some ob0 \<Longrightarrow> is_lease ob0 u x \<Longrightarrow> \<not> unexpired x (time_Now cl w) \<Longrightarrow>
           \<exists>ob. r = Inr (oetag ob) \<and> objs w' = (objs w)(k \<mapsto> ob) \<and> fresh_lease l own w w' ob"
proof -
  let ?won = "\<exists>ob. r = Inr (oetag ob) \<and> objs w' = (objs w)(k \<mapsto> ob) \<and> fresh_lease l own w w' ob"
  let ?lost = "(\<exists>e. r = Inl e \<and> isPreconditionFailed e) \<and> objs w' = objs w"
  have "(objs w k = None \<longrightarrow> ?won) \<and> (\<forall>ob0 u x. objs w k = Some ob0 \<longrightarrow> is_lease ob0 u x \<longrightarrow>
      (unexpired x (time_Now cl w') \<longrightarrow> ?lost) \<and> (\<not> unexpired x (time_Now cl w) \<longrightarrow> ?won))"
    using r [unfolded tryAcquire_code] nl
  proof (cases rule: run_putLock)
    case (1 et ob w1)
    then show ?thesis by auto
  next
    case (2 e w1)
    then obtain ob0 where ob0: "objs w k = Some ob0" by auto
    obtain u x where lu: "is_lease ob0 u x" using al ob0 by (auto simp: all_leases_def)
    obtain hr w2 where h: "HeadObject cl (lk_bucket l) k w1 = (hr, w2)" by fastforce
    have w2: "objs w2 = objs w" "time_Now cl w \<le> time_Now cl w2" using cas_head [OF h] 2 by auto
    obtain h1 where h1: "hr = Inr h1" "ETag h1 = Some (oetag ob0)" "meta_sim (Metadata h1) (ometa ob0)"
      using cas_head [OF h] head_answers [of _ k w1 _ w2] h 2(1) ob0 by (cases hr) auto
    have x: "metaValue (Metadata h1) lockExpiryMetaKey = Some x" using meta_sim_lock [OF h1(3)] lu by (simp add: is_lease_def)
    have rn: "run cl (takeover_at l k own e h1 (time_Now cl w2)) w2 = (r, w')" using 2(3,5) h h1(1) by simp
    have lu1: "u1 = u \<and> x1 = x" if "is_lease ob0 u1 x1" for u1 x1 using that lu by (simp add: is_lease_def)
    show ?thesis
    proof (cases "unexpired x (time_Now cl w2)")
      case True
      then have "r = Inl e" "w' = w2" using rn x by (simp_all add: takeover_at_def unexpired_def)
      then show ?thesis using 2(3) w2 ob0 lu1 unexpired_antimono [OF True w2(2)] by auto
    next
      case False
      then have "run cl (andThen (putLock l k own None (Some (oetag ob0))) taken) w2 = (r, w')"
        using rn x h1(2) by (simp add: takeover_at_def unexpired_def)
      from this nl show ?thesis
      proof (cases rule: run_putLock)
        case (1 et ob w3)
        then have e: "w3 = w'" "r = Inr (oetag ob)" by auto
        obtain t where t: "time_Now cl w2 \<le> t" "t \<le> time_Now cl w'" "is_lease ob own (FormatInt (Unix (t + lk_ttl l)))"
          using 1(2) e(1) by blast
        have "time_Now cl w \<le> t" using t(1) w2(2) by simp
        have won: ?won
          by (intro exI [of _ ob] conjI exI [of _ t]) (use 1(1) e w2(1) t \<open>time_Now cl w \<le> t\<close> in simp_all)
        have "\<not> unexpired x (time_Now cl w')"
          using False unexpired_antimono [of x "time_Now cl w'" "time_Now cl w2"] t(1,2) by auto
        then have "\<not> unexpired x1 (time_Now cl w')" if "is_lease ob0 u1 x1" for u1 x1 using lu1 [OF that] by simp
        then show ?thesis using ob0 won by (metis option.distinct(1) option.inject)
      next
        case (2 e w3)
        then show ?thesis using ob0 w2(1) by auto
      qed
    qed
  qed
  then show "objs w k = None \<Longrightarrow> ?won" "objs w k = Some ob0 \<Longrightarrow> is_lease ob0 u x \<Longrightarrow> unexpired x (time_Now cl w') \<Longrightarrow> ?lost"
    "objs w k = Some ob0 \<Longrightarrow> is_lease ob0 u x \<Longrightarrow> \<not> unexpired x (time_Now cl w) \<Longrightarrow> ?won" by blast+
qed

lemma release_alone:
  assumes r: "run cl (releaseLock l k own) w = (r, w')" and al: "all_leases (objs w) k"
  shows "r = None \<and> objs w' = (case objs w k of
    Some ob \<Rightarrow> if metaValue (ometa ob) lockOwnerMetaKey = Some own then (objs w)(k := None) else objs w | None \<Rightarrow> objs w)"
proof -
  obtain hr w1 where h: "HeadObject cl (lk_bucket l) k w = (hr, w1)" by fastforce
  have w1: "objs w1 = objs w" using cas_head [OF h] by blast
  have rn: "run cl (release_seen l k own hr) w1 = (r, w')" using r h unfolding releaseLock_code by simp
  show ?thesis
  proof (cases hr)
    case (Inl e)
    then show ?thesis using rn head_answers [of _ k w e w1] h w1 by simp
  next
    case (Inr h1)
    then obtain ob where ob: "objs w k = Some ob" "meta_sim (Metadata h1) (ometa ob)" using cas_head [OF h] by blast
    obtain u x where "is_lease ob u x" using al ob(1) by (auto simp: all_leases_def)
    then have u: "metaValue (Metadata h1) lockOwnerMetaKey = Some u" "metaValue (ometa ob) lockOwnerMetaKey = Some u"
      using meta_sim_lock [OF ob(2)] by (simp_all add: is_lease_def)
    show ?thesis
    proof (cases "u = own")
      case True
      obtain rd w2 where d: "DeleteObject cl (lk_bucket l) k w1 = (rd, w2)" by fastforce
      have "run cl (released rd) w2 = (r, w')" using rn Inr u(1) True d by simp
      then show ?thesis using cas_del [OF d] del_answers [of _ k w1 _ w2] d w1 u True ob(1) by (cases rd) auto
    next
      case False
      then show ?thesis using rn Inr u w1 ob(1) by simp
    qed
  qed
qed

end

interpretation fake_cas_answers: s3_cas_answers fake_client cas_objs tag_content
proof (unfold_locales, goal_cases)
  case (1 i w e w')
  moreover have "isPreconditionFailed precondition_failed" by (simp add: precondition_failed_def isPreconditionFailed_def)
  ultimately show ?case by (auto simp: fake_client_def fake_put_cases split: if_splits)
next
  case (2 b k w eh w')
  then show ?case by (auto simp: fake_client_def cas_objs_def split: option.splits)
next
  case (3 b k w ed w')
  then show ?case by (simp add: fake_client_def)
qed

lemma parse_dec_append:
  "parse_dec acc (s @ t) = (case parse_dec acc s of None \<Rightarrow> None | Some n \<Rightarrow> parse_dec n t)"
  by (induction s arbitrary: acc) (auto split: option.split)

lemma decdigit_char_of [simp]: "d < 10 \<Longrightarrow> decdigit (char_of (48 + d)) = Some d"
  by (simp add: decdigit_def)

lemma parse_dec_decimal: "parse_dec 0 (decimal n) = Some n"
proof (induction n rule: decimal.induct)
  case (1 n)
  then show ?case by (cases "n < 10") (simp_all add: decimal.simps [of n] parse_dec_append)
qed

lemma decimal_start: "\<exists>d s. d < (10 :: nat) \<and> decimal n = char_of (48 + d) # s"
proof (induction n rule: decimal.induct)
  case (1 n)
  show ?case
  proof (cases "n < 10")
    case False
    then obtain d s where "d < (10 :: nat)" "decimal (n div 10) = char_of (48 + d) # s" using 1 by blast
    then show ?thesis using False by (subst decimal.simps) auto
  qed (subst decimal.simps, auto)
qed

lemma ParseInt_FormatInt: "int64 z \<Longrightarrow> ParseInt (FormatInt z) = Some z"
proof -
  have sg: "cut_sign (decimal n) = (False, decimal n)" for n
  proof -
    obtain d s where d: "d < (10 :: nat)" "decimal n = char_of (48 + d) # s" using decimal_start by blast
    then have "code (char_of (48 + d)) = 48 + d" by simp
    then show ?thesis using d by (auto dest: arg_cong [of _ _ code])
  qed
  have ne: "decimal n \<noteq> ''''" for n using decimal_start [of n] by auto
  show "int64 z \<Longrightarrow> ParseInt (FormatInt z) = Some z"
    using ne by (simp add: ParseInt_def FormatInt_def sg parse_dec_decimal)
qed

text \<open>
  C33: one attempt and one release, with nobody in between, on a store that answers. An attempt
  succeeds if the lock is free or its lease has run out, and then the lock is a lease of the
  caller with a deadline one ttl after an instant during the call, which reads back as
  written; it is refused, and changes nothing, while the lease is valid; a release after a
  successful attempt leaves the lock free and never reports an error.
\<close>

theorem lock_attempt_and_release:
  assumes "s3_cas_answers cl objs content" "all_leases (objs w) k" "newline \<notin> set own"
    "run cl (tryAcquire l k own) w = (r, w')" "run cl (releaseLock l k own) w' = (r2, w2)"
    "\<And>t. time_Now cl w \<le> t \<Longrightarrow> t \<le> time_Now cl w' \<Longrightarrow> int64 (Unix (t + lk_ttl l))"
  shows "((case objs w k of None \<Rightarrow> True
        | Some ob0 \<Rightarrow> \<not> unexpired (ToString (metaValue (ometa ob0) lockExpiryMetaKey)) (time_Now cl w)) \<longrightarrow>
      (\<exists>ob x t. r = Inr (oetag ob) \<and> objs w' = (objs w)(k \<mapsto> ob) \<and> is_lease ob own x \<and>
         ParseInt x = Some (Unix (t + lk_ttl l)) \<and> time_Now cl w \<le> t \<and> t \<le> time_Now cl w' \<and>
         r2 = None \<and> objs w2 = (objs w)(k := None))) \<and>
     ((\<exists>ob0. objs w k = Some ob0 \<and>
            unexpired (ToString (metaValue (ometa ob0) lockExpiryMetaKey)) (time_Now cl w')) \<longrightarrow>
      (\<exists>e. r = Inl e \<and> isPreconditionFailed e) \<and> objs w' = objs w)"
proof (intro conjI)
  note ta = s3_cas_answers.tryAcquire_alone [OF assms(1,4,2,3)]
  have lease: "\<exists>u x. is_lease ob0 u x \<and> ToString (metaValue (ometa ob0) lockExpiryMetaKey) = x" if "objs w k = Some ob0" for ob0
    using assms(2) that by (fastforce simp: all_leases_def is_lease_def)
  show "(\<exists>ob0. objs w k = Some ob0 \<and>
            unexpired (ToString (metaValue (ometa ob0) lockExpiryMetaKey)) (time_Now cl w')) \<longrightarrow>
      (\<exists>e. r = Inl e \<and> isPreconditionFailed e) \<and> objs w' = objs w"
    using ta(2) lease by metis
  show "(case objs w k of None \<Rightarrow> True
        | Some ob0 \<Rightarrow> \<not> unexpired (ToString (metaValue (ometa ob0) lockExpiryMetaKey)) (time_Now cl w)) \<longrightarrow>
      (\<exists>ob x t. r = Inr (oetag ob) \<and> objs w' = (objs w)(k \<mapsto> ob) \<and> is_lease ob own x \<and>
         ParseInt x = Some (Unix (t + lk_ttl l)) \<and> time_Now cl w \<le> t \<and> t \<le> time_Now cl w' \<and>
         r2 = None \<and> objs w2 = (objs w)(k := None))"
  proof
    assume fr: "case objs w k of None \<Rightarrow> True
        | Some ob0 \<Rightarrow> \<not> unexpired (ToString (metaValue (ometa ob0) lockExpiryMetaKey)) (time_Now cl w)"
    obtain ob t where o1: "r = Inr (oetag ob)" "objs w' = (objs w)(k \<mapsto> ob)" "time_Now cl w \<le> t" "t \<le> time_Now cl w'"
        "is_lease ob own (FormatInt (Unix (t + lk_ttl l)))"
    proof (cases "objs w k")
      case None
      then show thesis using ta(1) that by blast
    next
      case (Some ob0)
      then show thesis using ta(3) [OF Some] lease [OF Some] fr that by auto
    qed
    have "all_leases (objs w') k" using o1(2,5) by (auto simp: all_leases_def)
    from s3_cas_answers.release_alone [OF assms(1,5) this] have "r2 = None" "objs w2 = (objs w)(k := None)"
      using o1(2,5) by (simp_all add: is_lease_def)
    moreover have "ParseInt (FormatInt (Unix (t + lk_ttl l))) = Some (Unix (t + lk_ttl l))"
      by (rule ParseInt_FormatInt [OF assms(6) [OF o1(3,4)]])
    ultimately show "\<exists>ob x t. r = Inr (oetag ob) \<and> objs w' = (objs w)(k \<mapsto> ob) \<and> is_lease ob own x \<and>
         ParseInt x = Some (Unix (t + lk_ttl l)) \<and> time_Now cl w \<le> t \<and> t \<le> time_Now cl w' \<and>
         r2 = None \<and> objs w2 = (objs w)(k := None)" using o1 by blast
  qed
qed

definition lock_demo :: fake where
  "lock_demo = \<lparr>bucket_objs = [], fake_clock = 62135596800000000000\<rparr>"

theorem lock_attempt_and_release_witness:
  "\<exists>ob x t. fst (run fake_client (tryAcquire (NewS3Locker ''b'' []) race_key ''01'') lock_demo) = Inr (oetag ob) \<and>
     is_lease ob ''01'' x \<and> ParseInt x = Some (Unix (t + lk_ttl (NewS3Locker ''b'' [])))"
proof -
  obtain r w' where r: "run fake_client (tryAcquire (NewS3Locker ''b'' []) race_key ''01'') lock_demo = (r, w')" by fastforce
  obtain r2 w2 where r2: "run fake_client (releaseLock (NewS3Locker ''b'' []) race_key ''01'') w' = (r2, w2)" by fastforce
  have e: "cas_objs lock_demo race_key = None" by (simp add: cas_objs_def lock_demo_def)
  then have al: "all_leases (cas_objs lock_demo) race_key" by (simp add: all_leases_def)
  have "fake_clock (snd (run fake_client (tryAcquire (NewS3Locker ''b'' []) race_key ''01'') lock_demo)) = 62135596800000000000"
    by code_simp
  then have c: "time_Now fake_client w' = 62135596800000000000" "time_Now fake_client lock_demo = 62135596800000000000"
    using r by (simp_all add: fake_client_def lock_demo_def)
  have "int64 (Unix (62135596800000000000 + lk_ttl (NewS3Locker ''b'' [])))"
    by (simp add: NewS3Locker_def defaultLockTTL_def Unix_def int64_def)
  then have i: "int64 (Unix (t + lk_ttl (NewS3Locker ''b'' [])))"
    if "time_Now fake_client lock_demo \<le> t" "t \<le> time_Now fake_client w'" for t using that c by (metis order_antisym)
  have n: "newline \<notin> set ''01''" by simp
  from lock_attempt_and_release [OF fake_cas_answers.s3_cas_answers_axioms al n r r2 i, THEN conjunct1] show ?thesis
    using e r by auto
qed

text \<open>
  \<^verbatim>\<open>WithLockTTL\<close> accepts every positive duration, but below three nanoseconds the interval of the
  heartbeat rounds to zero, and \<^verbatim>\<open>time.NewTicker\<close> panics: the first successful \<^verbatim>\<open>Lock\<close>
  brings the process down.
\<close>

lemma tiny_ttl_crashes:
  assumes "0 < ttl" "ttl < 3" "ls_locker s lid = NewS3Locker b [OptLockTTL ttl]"
  shows "ls_beat (startHeartbeat lid n k own et s) (ls_next s) = Crashed"
  using assms by (simp add: startHeartbeat_def NewS3Locker_def WithLockTTL_def Let_def)

end
