(* ===== verification/Presign.thy ===== *)
theory Presign
  imports S3fs
begin

text \<open>
  Presigned URLs, \<^verbatim>\<open>src/presign.go\<close>: the normalisation of content digests with the codecs it uses,
  the headers a signed request must carry, and the methods \<^verbatim>\<open>PresignGet\<close> and \<^verbatim>\<open>PresignPut\<close>.
  The presign client of the SDK is an interface onto code that is not part of the repository:
  a record of functions the methods take as an argument.
\<close>

section \<open>Digests\<close>

text \<open>\<^verbatim>\<open>base64.StdEncoding\<close>, whose decoder skips line breaks.\<close>

definition b64char :: "nat \<Rightarrow> char" where
  "b64char n = char_of
     (if n < 26 then 65 + n else if n < 52 then 71 + n else if n < 62 then n - 4 else if n = 62 then 43 else 47)"

definition b64val :: "char \<Rightarrow> nat option" where
  "b64val c =
     (let n = code c
      in if 65 \<le> n \<and> n \<le> 90 then Some (n - 65)
         else if 97 \<le> n \<and> n \<le> 122 then Some (n - 71)
         else if 48 \<le> n \<and> n \<le> 57 then Some (n + 4)
         else if n = 43 then Some 62 else if n = 47 then Some 63 else None)"

fun b64Encode :: "bytes \<Rightarrow> string" where
  "b64Encode [] = []"
| "b64Encode [a] = [b64char (unat a div 4), b64char (unat a mod 4 * 16), CHR ''='', CHR ''='']"
| "b64Encode [a, b] = [b64char (unat a div 4), b64char (unat a mod 4 * 16 + unat b div 16), b64char (unat b mod 16 * 4), CHR ''='']"
| "b64Encode (a # b # c # r) =
     b64char (unat a div 4) # b64char (unat a mod 4 * 16 + unat b div 16) #
     b64char (unat b mod 16 * 4 + unat c div 64) # b64char (unat c mod 64) # b64Encode r"

fun b64Quanta :: "string \<Rightarrow> bytes option" where
  "b64Quanta [] = Some []"
| "b64Quanta (a # b # c # d # r) =
     (if d = CHR ''='' then
        (if r \<noteq> [] then None
         else if c = CHR ''='' then
           (case (b64val a, b64val b) of (Some x, Some y) \<Rightarrow> Some [of_nat (x * 4 + y div 16)] | _ \<Rightarrow> None)
         else
           (case (b64val a, b64val b, b64val c) of
              (Some x, Some y, Some z) \<Rightarrow> Some [of_nat (x * 4 + y div 16), of_nat (y mod 16 * 16 + z div 4)] | _ \<Rightarrow> None))
      else
        (case (b64val a, b64val b, b64val c, b64val d) of
           (Some x, Some y, Some z, Some u) \<Rightarrow>
             map_option (\<lambda>t. of_nat (x * 4 + y div 16) # of_nat (y mod 16 * 16 + z div 4) # of_nat (z mod 4 * 64 + u) # t)
               (b64Quanta r)
         | _ \<Rightarrow> None))"
| "b64Quanta _ = None"

definition b64Decode :: "string \<Rightarrow> bytes option" where
  "b64Decode s = b64Quanta (filter (\<lambda>c. c \<noteq> CHR 0x0A \<and> c \<noteq> CHR 0x0D) s)"

definition normalizeSHA256 :: "string \<Rightarrow> goerr + string" where
  "normalizeSHA256 digest =
     (case (if length digest = 64 then hexDecode digest else None) of
        Some d \<Rightarrow> Inr (b64Encode d)
      | None \<Rightarrow>
          (case b64Decode digest of
             Some d \<Rightarrow> if length d = 32 then Inr digest else Inl (ErrContentSHA256 digest)
           | None \<Rightarrow> Inl (ErrContentSHA256 digest)))"

section \<open>Headers\<close>

text \<open>
  \<^verbatim>\<open>http.Header\<close> as an association list in the iteration order of the map; \<^verbatim>\<open>Add\<close> appends under the
  canonical form of the key, which is the key itself when it is not a valid header name.
\<close>

type_synonym header = "(string \<times> string list) list"

definition validHeaderFieldByte :: "char \<Rightarrow> bool" where
  "validHeaderFieldByte c \<longleftrightarrow> alnum c \<or> c \<in> set ''!#$%&*+-.^_|~'' \<or> c = CHR 0x27 \<or> c = CHR 0x60"

definition upper :: "char \<Rightarrow> char" where
  "upper c = (if 97 \<le> code c \<and> code c \<le> 122 then char_of (code c - 32) else c)"

fun canonical :: "bool \<Rightarrow> string \<Rightarrow> string" where
  "canonical up [] = []"
| "canonical up (c # s) = (if up then upper c else lower c) # canonical (c = CHR ''-'') s"

definition CanonicalMIMEHeaderKey :: "string \<Rightarrow> string" where
  "CanonicalMIMEHeaderKey s = (if list_all validHeaderFieldByte s then canonical True s else s)"

definition header_Add :: "string \<Rightarrow> string \<Rightarrow> header \<Rightarrow> header" where
  "header_Add k v h =
     (let ck = CanonicalMIMEHeaderKey k
      in AList.update ck ((case map_of h ck of None \<Rightarrow> [] | Some vs \<Rightarrow> vs) @ [v]) h)"

definition extraSignedHeader :: "header \<Rightarrow> header option" where
  "extraSignedHeader h =
     fold (\<lambda>(k, vs) extra.
             if EqualFold k ''host'' then extra
             else Some (fold (header_Add k) vs (case extra of None \<Rightarrow> [] | Some e \<Rightarrow> e))) h None"

section \<open>The presign client and its options\<close>

record PresignedHTTPRequest =
  ph_URL :: string
  ph_Method :: string
  ph_SignedHeader :: header

datatype ChecksumCalculation = WhenSupported | WhenRequired

record s3_Options =
  so_BaseEndpoint :: "string option"
  so_RequestChecksumCalculation :: ChecksumCalculation

record SignerOptions =
  sg_DisableURIPathEscaping :: bool
  sg_DisableHeaderHoisting :: bool

record PresignOptions =
  po_Expires :: int
  po_ClientOptions :: "(s3_Options \<Rightarrow> s3_Options) list"
  po_Presigner :: "SignerOptions option"

record presign_put =
  pp_Bucket :: string
  pp_Key :: string
  pp_ChecksumSHA256 :: "string option"

record 'w PresignClient =
  PresignGetObject :: "string \<Rightarrow> string \<Rightarrow> (PresignOptions \<Rightarrow> PresignOptions) list \<Rightarrow> 'w
     \<Rightarrow> (goerr + PresignedHTTPRequest) \<times> 'w"
  PresignPutObject :: "presign_put \<Rightarrow> (PresignOptions \<Rightarrow> PresignOptions) list \<Rightarrow> 'w
     \<Rightarrow> (goerr + PresignedHTTPRequest) \<times> 'w"

record PresignedRequest =
  pr_Method :: string
  pr_URL :: string
  pr_SignedHeader :: "header option"

record presignConfig =
  pc_expiry :: int
  pc_contentSHA256 :: string

datatype PresignGetOption = GetExpiry int

datatype PresignPutOption = PutExpiry int | PutContentSHA256 string

fun applyPresignGet :: "PresignGetOption \<Rightarrow> presignConfig \<Rightarrow> presignConfig" where
  "applyPresignGet (GetExpiry e) c = c\<lparr>pc_expiry := e\<rparr>"

fun applyPresignPut :: "PresignPutOption \<Rightarrow> presignConfig \<Rightarrow> presignConfig" where
  "applyPresignPut (PutExpiry e) c = c\<lparr>pc_expiry := e\<rparr>"
| "applyPresignPut (PutContentSHA256 x) c = c\<lparr>pc_contentSHA256 := x\<rparr>"

definition WithPresignEndpoint :: "string \<Rightarrow> PresignOptions \<Rightarrow> PresignOptions" where
  "WithPresignEndpoint endpoint po =
     po\<lparr>po_ClientOptions := po_ClientOptions po @ [\<lambda>co. co\<lparr>so_BaseEndpoint := Some endpoint\<rparr>]\<rparr>"

definition presignOpts :: "int \<Rightarrow> PresignOptions \<Rightarrow> PresignOptions" where
  "presignOpts expiry po =
     (let po1 = (if expiry > 0 then po\<lparr>po_Expires := expiry\<rparr> else po)
      in po1\<lparr>po_ClientOptions := po_ClientOptions po1 @ [\<lambda>co. co\<lparr>so_RequestChecksumCalculation := WhenRequired\<rparr>]\<rparr>)"

definition withSignedChecksumHeader :: "PresignOptions \<Rightarrow> PresignOptions" where
  "withSignedChecksumHeader po =
     po\<lparr>po_Presigner := Some \<lparr>sg_DisableURIPathEscaping = True, sg_DisableHeaderHoisting = True\<rparr>\<rparr>"

definition signedRequest :: "PresignedHTTPRequest \<Rightarrow> PresignedRequest" where
  "signedRequest out = \<lparr>pr_Method = ph_Method out, pr_URL = ph_URL out, pr_SignedHeader = extraSignedHeader (ph_SignedHeader out)\<rparr>"

section \<open>The methods\<close>

definition S3FS_PresignGet ::
    "('w, 'c, 'd) env \<Rightarrow> 'w PresignClient option \<Rightarrow> string \<Rightarrow> PresignGetOption list \<Rightarrow> ('w, 'c, 'd, 'z) S3FS_scheme
       \<Rightarrow> (goerr + PresignedRequest) \<times> ('w, 'c, 'd, 'z) S3FS_scheme" where
  "S3FS_PresignGet E presignClient filename opts s =
     (case presignClient of
        None \<Rightarrow> (Inl ErrNoPresignClient, s)
      | Some pc \<Rightarrow>
          let cfg = fold applyPresignGet opts \<lparr>pc_expiry = 0, pc_contentSHA256 = ''''\<rparr>
          in case resolve E ''presignget'' filename s of
               ((p, h, _, Some err), s1) \<Rightarrow> (Inl err, s1)
             | ((p, h, _, None), s1) \<Rightarrow>
                 if p = ''/'' then (Inl (PathError ''presignget'' filename ErrIsDirectory), s1)
                 else if h = None then
                   (case dirExists E p s1 of
                      (Inl err, s2) \<Rightarrow> (Inl err, s2)
                    | (Inr True, s2) \<Rightarrow> (Inl (PathError ''presignget'' filename ErrIsDirectory), s2)
                    | (Inr False, s2) \<Rightarrow> (Inl (PathError ''presignget'' filename ErrNotExist), s2))
                 else
                   (case request (PresignGetObject pc (fs_bucket s1) (key (fs_prefix s1) p) [presignOpts (pc_expiry cfg)]) s1 of
                      (Inl err, s2) \<Rightarrow> (Inl err, s2)
                    | (Inr out, s2) \<Rightarrow> (Inr (signedRequest out), s2)))"

text \<open>The options and the input of a signed upload: the digest goes in as a signed header.\<close>

definition presignPutInput ::
    "string \<Rightarrow> string \<Rightarrow> string \<Rightarrow> presignConfig \<Rightarrow> goerr + presign_put \<times> (PresignOptions \<Rightarrow> PresignOptions) list" where
  "presignPutInput filename bucket k cfg =
     (if pc_contentSHA256 cfg = ''''
      then Inr (\<lparr>pp_Bucket = bucket, pp_Key = k, pp_ChecksumSHA256 = None\<rparr>, [presignOpts (pc_expiry cfg)])
      else case normalizeSHA256 (pc_contentSHA256 cfg) of
             Inl err \<Rightarrow> Inl (PathError ''presignput'' filename err)
           | Inr digest \<Rightarrow> Inr (\<lparr>pp_Bucket = bucket, pp_Key = k, pp_ChecksumSHA256 = Some digest\<rparr>,
                             [presignOpts (pc_expiry cfg), withSignedChecksumHeader]))"

definition presignPutKey ::
    "('w, 'c, 'd) env \<Rightarrow> 'w PresignClient \<Rightarrow> string \<Rightarrow> string \<Rightarrow> presignConfig \<Rightarrow> ('w, 'c, 'd, 'z) S3FS_scheme
       \<Rightarrow> (goerr + PresignedRequest) \<times> ('w, 'c, 'd, 'z) S3FS_scheme" where
  "presignPutKey E pc filename k cfg s =
     (case presignPutInput filename (fs_bucket s) k cfg of
        Inl err \<Rightarrow> (Inl err, s)
      | Inr (inp, popts) \<Rightarrow>
          (case request (PresignPutObject pc inp popts) s of
             (Inl err, s1) \<Rightarrow> (Inl err, s1)
           | (Inr out, s1) \<Rightarrow>
               (Inr (signedRequest out),
                with_disk (disk_dropDeleted (disk_lru E) k) (with_mem (mem_dropDeleted (mem_lru E) k) s1))))"

definition S3FS_PresignPut ::
    "('w, 'c, 'd) env \<Rightarrow> 'w PresignClient option \<Rightarrow> string \<Rightarrow> PresignPutOption list \<Rightarrow> ('w, 'c, 'd, 'z) S3FS_scheme
       \<Rightarrow> (goerr + PresignedRequest) \<times> ('w, 'c, 'd, 'z) S3FS_scheme" where
  "S3FS_PresignPut E presignClient filename opts s =
     (case presignClient of
        None \<Rightarrow> (Inl ErrNoPresignClient, s)
      | Some pc \<Rightarrow>
          let cfg = fold applyPresignPut opts \<lparr>pc_expiry = 0, pc_contentSHA256 = ''''\<rparr>
          in case resolve E ''presignput'' filename s of
               ((p, h, _, Some err), s1) \<Rightarrow> (Inl err, s1)
             | ((p, h, _, None), s1) \<Rightarrow>
                 if p = ''/'' then (Inl (PathError ''presignput'' filename ErrIsDirectory), s1)
                 else if h = None then
                   (case dirExists E p s1 of
                      (Inl err, s2) \<Rightarrow> (Inl err, s2)
                    | (Inr True, s2) \<Rightarrow> (Inl (PathError ''presignput'' filename ErrIsDirectory), s2)
                    | (Inr False, s2) \<Rightarrow> presignPutKey E pc filename (key (fs_prefix s2) p) cfg s2)
                 else presignPutKey E pc filename (key (fs_prefix s1) p) cfg s1)"

section \<open>Normalising digests\<close>

lemma b64val_char [simp]: "n < 64 \<Longrightarrow> b64val (b64char n) = Some n"
  by (auto simp: b64val_def b64char_def Let_def)

lemma b64char_plain: "n < 64 \<Longrightarrow> b64char n \<noteq> CHR ''='' \<and> b64char n \<noteq> CHR 0x0A \<and> b64char n \<noteq> CHR 0x0D"
proof -
  have v: "b64val (CHR ''='') = None" "b64val (CHR 0x0A) = None" "b64val (CHR 0x0D) = None" by (simp_all add: b64val_def)
  show "n < 64 \<Longrightarrow> b64char n \<noteq> CHR ''='' \<and> b64char n \<noteq> CHR 0x0A \<and> b64char n \<noteq> CHR 0x0D"
    using v by (auto dest: arg_cong [of _ _ b64val])
qed

lemma byte_bound: "unat (b :: byte) < 256"
  using unsigned_less [of b, where ?'a = nat] by simp

lemma byte_splits:
  fixes a b c :: byte
  shows "unat a div 4 < 64" "unat a mod 4 * 16 < 64" "unat a mod 4 * 16 + unat b div 16 < 64" "unat b mod 16 * 4 < 64"
    "unat b mod 16 * 4 + unat c div 64 < 64" "unat c mod 64 < 64"
  using byte_bound [of a] byte_bound [of b] byte_bound [of c] by linarith+

lemma byte_small:
  fixes b :: byte
  shows "unat b div 16 div 16 = 0" "unat b div 16 mod 16 = unat b div 16" "unat b div 64 div 4 = 0"
    "unat b div 64 mod 4 = unat b div 64"
proof -
  have "unat b div 16 < 16" "unat b div 64 < 4" using byte_bound [of b] by linarith+
  then show "unat b div 16 div 16 = 0" "unat b div 16 mod 16 = unat b div 16" "unat b div 64 div 4 = 0"
    "unat b div 64 mod 4 = unat b div 64" by simp_all
qed

lemma b64Quanta_Encode: "b64Quanta (b64Encode d) = Some d"
  by (induction d rule: b64Encode.induct)
    (simp_all add: byte_splits b64char_plain byte_small del: of_nat_add of_nat_mult div_less)

lemma b64Encode_plain: "filter (\<lambda>c. c \<noteq> CHR 0x0A \<and> c \<noteq> CHR 0x0D) (b64Encode d) = b64Encode d"
  by (induction d rule: b64Encode.induct) (simp_all add: byte_splits b64char_plain)

lemma b64Decode_Encode: "b64Decode (b64Encode d) = Some d"
  by (simp add: b64Decode_def b64Encode_plain b64Quanta_Encode)

lemma hexDecode_length: "hexDecode s = Some d \<Longrightarrow> length s = 2 * length d"
  by (induction s arbitrary: d rule: hexDecode.induct) (auto split: option.splits)

lemma hexEncode_length [simp]: "length (hexEncode d) = 2 * length d"
  unfolding hexEncode_def by (induction d) simp_all

lemma b64Encode_length: "length (b64Encode d) = 4 * ((length d + 2) div 3)"
  by (induction d rule: b64Encode.induct) (auto, presburger)



text \<open>
  The base64 decoder of the library skips line breaks, so a digest with line breaks inside is
  accepted and returned as it is, although it cannot be the value of a header; and a string
  of 64 characters can be the base64 form of 32 bytes.
\<close>

lemma normalizeSHA256_accepts_newlines:
  "normalizeSHA256 (b64Encode (replicate 32 0) @ replicate 20 (CHR 0x0A)) = Inr (b64Encode (replicate 32 0) @ replicate 20 (CHR 0x0A))"
  "length (b64Encode (replicate 32 0) @ replicate 20 (CHR 0x0A)) = 64"
  by code_simp+

section \<open>Headers a signed request carries\<close>

definition values_of :: "header \<Rightarrow> string \<Rightarrow> string list" where
  "values_of h c = (case map_of h c of None \<Rightarrow> [] | Some vs \<Rightarrow> vs)"

lemma header_Add_values: "values_of (header_Add k v h) c = values_of h c @ (if c = CanonicalMIMEHeaderKey k then [v] else [])"
  by (simp add: values_of_def header_Add_def Let_def update_conv')

lemma header_Adds_values:
  "values_of (fold (header_Add k) vs h) c = values_of h c @ (if c = CanonicalMIMEHeaderKey k then vs else [])"
  by (induction vs arbitrary: h) (simp_all add: header_Add_values)

definition beyond_host :: "header \<Rightarrow> header" where
  "beyond_host h = filter (\<lambda>p. \<not> EqualFold (fst p) ''host'') h"

lemma extra_fold:
  "fold (\<lambda>(k, vs) extra. if EqualFold k ''host'' then extra
           else Some (fold (header_Add k) vs (case extra of None \<Rightarrow> [] | Some e \<Rightarrow> e))) h ex =
     (if beyond_host h = [] then ex
      else Some (fold (\<lambda>(k, vs). fold (header_Add k) vs) (beyond_host h) (case ex of None \<Rightarrow> [] | Some e \<Rightarrow> e)))"
  by (induction h arbitrary: ex) (auto simp: beyond_host_def simp del: EqualFold.simps)

lemma add_all_values:
  "values_of (fold (\<lambda>(k, vs). fold (header_Add k) vs) hs e) c =
     values_of e c @ concat (map snd (filter (\<lambda>p. CanonicalMIMEHeaderKey (fst p) = c) hs))"
  by (induction hs arbitrary: e) (auto simp: header_Adds_values)

text \<open>
  The headers handed out with a signed request are exactly those it must send besides the host:
  none at all if only the host is signed; otherwise every header under its canonical name with
  all its values in order, and nothing else.
\<close>

lemma extraSignedHeader_exact:
  "case extraSignedHeader h of
     None \<Rightarrow> beyond_host h = []
   | Some e \<Rightarrow> beyond_host h \<noteq> [] \<and>
       (\<forall>c. values_of e c = concat (map snd (filter (\<lambda>p. CanonicalMIMEHeaderKey (fst p) = c) (beyond_host h))))"
  using add_all_values [of "beyond_host h" "[]"]
  unfolding extraSignedHeader_def extra_fold by (auto simp: values_of_def)

section \<open>Signing\<close>

text \<open>Signing is local: it does not change the bucket.\<close>

locale presigner = s3fs E objs content rest pages mview dview
  for E :: "('w, 'c, 'd) env" and objs content rest pages mview dview +
  fixes pc :: "'w PresignClient"
  assumes sign_get: "PresignGetObject pc b k os w = (r, w') \<Longrightarrow> objs w' = objs w"
    and sign_put: "PresignPutObject pc i os w = (r, w') \<Longrightarrow> objs w' = objs w"

lemma world_with [simp]:
  "(with_mem f s)\<lparr>fs_world := w\<rparr> = with_mem f (s\<lparr>fs_world := w\<rparr>)"
  "(with_disk g s)\<lparr>fs_world := w\<rparr> = with_disk g (s\<lparr>fs_world := w\<rparr>)"
  by (auto simp: with_mem_def with_disk_def set_os_def split: option.splits prod.splits)

context presigner
begin

lemma probe_cases:
  assumes ok: "ok s" and an: "answering (client E)" and rs: "resolve E opn f s = ((p, h, n, err), s1)"
  shows "err = Some e \<Longrightarrow> follow (store s) (fs_prefix s) maxSymlinkDepth (cleanPath f) = None \<and> (\<exists>q. e = PathError opn q ErrTooManySymlinks)"
    and "err = None \<Longrightarrow> \<exists>ob. follow (store s) (fs_prefix s) maxSymlinkDepth (cleanPath f) = Some (p, ob, n) \<and> (h = None \<longleftrightarrow> ob = None)"
proof -
  have rl: "resolveLoop E opn (cleanPath f) 0 s = ((p, h, n, err), s1)" using rs by (simp add: resolve_def)
  have "heads_answer (client E)" using an by (simp add: answering_def)
  from resolveLoop_total [OF ok this rl]
  show "err = Some e \<Longrightarrow> follow (store s) (fs_prefix s) maxSymlinkDepth (cleanPath f) = None \<and> (\<exists>q. e = PathError opn q ErrTooManySymlinks)"
    by auto
  from resolveLoop_spec [OF ok rl]
  show "err = None \<Longrightarrow> \<exists>ob. follow (store s) (fs_prefix s) maxSymlinkDepth (cleanPath f) = Some (p, ob, n) \<and> (h = None \<longleftrightarrow> ob = None)"
    by (auto simp: heads_agree_def split: option.splits)
qed

lemma forget_ok:
  assumes ok: "ok s" and s': "s' = with_disk (disk_dropDeleted (disk_lru E) k) (with_mem (mem_dropDeleted (mem_lru E) k) s)"
    and w: "objs w = store s \<or> (\<exists>ob. objs w = (store s)(k \<mapsto> ob))"
  shows "ok (s'\<lparr>fs_world := w\<rparr>)" and "same_conf s (s'\<lparr>fs_world := w\<rparr>)" and "kept s (s'\<lparr>fs_world := w\<rparr>)"
proof -
  have s2: "s'\<lparr>fs_world := w\<rparr> =
      with_disk (disk_dropDeleted (disk_lru E) k) (with_mem (mem_dropDeleted (mem_lru E) k) (s\<lparr>fs_world := w\<rparr>))"
    by (simp add: s')
  have u: "objs w = (store s)(k := None) \<or> (\<exists>ob. objs w = (store s)(k \<mapsto> ob))"
  proof (cases "store s k")
    case None
    then have "(store s)(k := None) = store s" by (simp add: fun_upd_idem)
    then show ?thesis using w by metis
  next
    case (Some ob)
    then have "(store s)(k \<mapsto> ob) = store s" by (simp add: fun_upd_idem)
    then show ?thesis using w by metis
  qed
  have "ok (with_mem (mem_dropDeleted (mem_lru E) k) (s\<lparr>fs_world := w\<rparr>))"
  proof (rule with_mem_ok [OF ok0_world [OF ok_ok0 [OF ok]], simplified])
    fix c assume "fs_mem s = Some c"
    then have "mem_ok mview content (store s) c" by (rule mem_fact [OF ok])
    then show "mem_ok mview content (objs w) (mem_dropDeleted (mem_lru E) k c)"
      using u mem.dropDeleted_ok mem.dropDeleted_foreign_ok by auto
  qed
  then show "ok (s'\<lparr>fs_world := w\<rparr>)" unfolding s2 by (rule drop_disk_ok)
  show "same_conf s (s'\<lparr>fs_world := w\<rparr>)" unfolding s2
    by (blast intro: same_conf_trans same_conf_world with_mem_frame(4) with_disk_frame(3))
  have "disk_ok (with_mem (mem_dropDeleted (mem_lru E) k) (s\<lparr>fs_world := w\<rparr>))" using ok_disk [OF ok] by simp
  then show "kept s (s'\<lparr>fs_world := w\<rparr>)" unfolding s2
    by (intro keeps_trans [OF world_keeps keeps_trans [OF with_mem_keeps drop_keeps]])
qed

end

context presigner
begin

lemma PresignGet_spec:
  assumes ok: "ok s" and an: "answering (client E)" and op: "S3FS_PresignGet E (Some pc) f opts s = (r, s')"
  shows "still s s' \<and>
    (case follow (store s) (fs_prefix s) maxSymlinkDepth (cleanPath f) of
       None \<Rightarrow> \<exists>q. r = Inl (PathError ''presignget'' q ErrTooManySymlinks)
     | Some (p, Some ob, n) \<Rightarrow>
         \<exists>w x. objs w = store s \<and>
           fst (PresignGetObject pc (fs_bucket s) (key (fs_prefix s) p)
                  [presignOpts (pc_expiry (fold applyPresignGet opts \<lparr>pc_expiry = 0, pc_contentSHA256 = ''''\<rparr>))] w) = x \<and>
           r = map_sum id signedRequest x
     | Some (p, None, n) \<Rightarrow>
         r = Inl (PathError ''presignget'' f (if dir_in (store s) (fs_prefix s) p then ErrIsDirectory else ErrNotExist)))"
proof -
  define cfg where "cfg = fold applyPresignGet opts \<lparr>pc_expiry = 0, pc_contentSHA256 = ''''\<rparr>"
  obtain p h n err s1 where rs: "resolve E ''presignget'' f s = ((p, h, n, err), s1)" by (metis prod.exhaust)
  note c1 = resolve_calm [OF ok rs]
  show ?thesis
  proof (cases err)
    case (Some e)
    then have "r = Inl e" "s' = s1" using op rs by (simp_all add: S3FS_PresignGet_def)
    then show ?thesis using probe_cases(1) [OF ok an rs Some] c1 by auto
  next
    case None
    obtain ob where fo: "follow (store s) (fs_prefix s) maxSymlinkDepth (cleanPath f) = Some (p, ob, n)"
        and ho: "h = None \<longleftrightarrow> ob = None"
      using probe_cases(2) [OF ok an rs None] by blast
    have st: "(if p = ''/'' then (Inl (PathError ''presignget'' f ErrIsDirectory), s1)
        else if h = None then
          (case dirExists E p s1 of
             (Inl err, s2) \<Rightarrow> (Inl err, s2)
           | (Inr True, s2) \<Rightarrow> (Inl (PathError ''presignget'' f ErrIsDirectory), s2)
           | (Inr False, s2) \<Rightarrow> (Inl (PathError ''presignget'' f ErrNotExist), s2))
        else
          (case request (PresignGetObject pc (fs_bucket s1) (key (fs_prefix s1) p) [presignOpts (pc_expiry cfg)]) s1 of
             (Inl err, s2) \<Rightarrow> (Inl err, s2) | (Inr out, s2) \<Rightarrow> (Inr (signedRequest out), s2))) = (r, s')"
      using op by (simp only: S3FS_PresignGet_def rs None cfg_def Let_def option.case prod.case)
    consider (root) "p = ''/''" | (missing) "p \<noteq> ''/''" "ob = None" | (there) o1 where "p \<noteq> ''/''" "ob = Some o1"
      by (cases ob) blast+
    then show ?thesis
    proof cases
      case root
      then have "ob = None" using follow_end [OF fo] by simp
      moreover have "dir_in (store s) (fs_prefix s) p" using root by (simp add: dir_in_def cleanPath_root_iff)
      ultimately show ?thesis using st root c1 fo by auto
    next
      case missing
      obtain b s2 where de: "dirExists E p s1 = (b, s2)" by fastforce
      then obtain d where d: "b = Inr d"
        using an by (cases b) (auto simp: dirExists_answers answering_def)
      note c2 = calm_trans [OF c1 dirExists_calm [OF calmD(1) [OF c1] de]]
      have "d = dir_in (store s) (fs_prefix s) p"
        using dirExists_spec(5) [OF calmD(1) [OF c1] de [unfolded d] refl] calmD(2,5) [OF c1] by simp
      then show ?thesis using st missing ho de d c2 fo by (cases d) auto
    next
      case there
      obtain x w where x: "PresignGetObject pc (fs_bucket s1) (key (fs_prefix s1) p) [presignOpts (pc_expiry cfg)] (fs_world s1) = (x, w)"
        by fastforce
      have c2: "still s (s1\<lparr>fs_world := w\<rparr>)"
        by (rule calm_trans [OF c1 world_calm [OF calmD(1) [OF c1] sign_get [OF x]]])
      have "r = map_sum id signedRequest x" "s' = s1\<lparr>fs_world := w\<rparr>"
        using st there ho x by (cases x; auto simp: request_def)+
      then show ?thesis
        using c2 fo there(2) x [THEN arg_cong [where f = fst]] calmD(2,5,6) [OF c1] unfolding cfg_def by auto
    qed
  qed
qed

end

definition put_config :: "PresignPutOption list \<Rightarrow> presignConfig" where
  "put_config opts = fold applyPresignPut opts \<lparr>pc_expiry = 0, pc_contentSHA256 = ''''\<rparr>"

context presigner
begin

lemma presignPutKey_spec:
  assumes ok: "ok s" and op: "presignPutKey E pc f k cfg s = (Inr out, s')"
  shows "store s' = store s"
    and "\<exists>w inp popts x. presignPutInput f (fs_bucket s) k cfg = Inr (inp, popts) \<and> objs w = store s \<and>
           fst (PresignPutObject pc inp popts w) = Inr x \<and> out = signedRequest x"
    and "objs w = store s \<or> (\<exists>ob. objs w = (store s)(k \<mapsto> ob)) \<Longrightarrow>
           ok (s'\<lparr>fs_world := w\<rparr>) \<and> same_conf s (s'\<lparr>fs_world := w\<rparr>) \<and> kept s (s'\<lparr>fs_world := w\<rparr>)"
proof -
  obtain inp popts where i: "presignPutInput f (fs_bucket s) k cfg = Inr (inp, popts)"
    using op by (auto simp: presignPutKey_def split: sum.splits)
  obtain x w1 where x: "PresignPutObject pc inp popts (fs_world s) = (Inr x, w1)" and out: "out = signedRequest x"
      and s': "s' = with_disk (disk_dropDeleted (disk_lru E) k) (with_mem (mem_dropDeleted (mem_lru E) k) (s\<lparr>fs_world := w1\<rparr>))"
    using op i by (auto simp: presignPutKey_def request_def split: prod.splits sum.splits)
  have w1: "objs w1 = store s" by (rule sign_put [OF x])
  note c = world_calm [OF ok w1]
  show "store s' = store s" using w1 by (simp add: s')
  show "\<exists>w inp popts x. presignPutInput f (fs_bucket s) k cfg = Inr (inp, popts) \<and> objs w = store s \<and>
           fst (PresignPutObject pc inp popts w) = Inr x \<and> out = signedRequest x"
    using i x out by (metis fst_conv)
  assume w: "objs w = store s \<or> (\<exists>ob. objs w = (store s)(k \<mapsto> ob))"
  from forget_ok [OF calmD(1) [OF c] s', of w] w w1
  show "ok (s'\<lparr>fs_world := w\<rparr>) \<and> same_conf s (s'\<lparr>fs_world := w\<rparr>) \<and> kept s (s'\<lparr>fs_world := w\<rparr>)"
    using same_conf_trans [OF calmD(3) [OF c]] keeps_trans [OF calmD(4) [OF c]] by simp
qed

lemma PresignPut_spec:
  assumes ok: "ok s" and an: "answering (client E)" and op: "S3FS_PresignPut E (Some pc) f opts s = (Inr out, s')"
  shows "\<exists>p ob n. follow (store s) (fs_prefix s) maxSymlinkDepth (cleanPath f) = Some (p, ob, n) \<and>
    (ob = None \<longrightarrow> \<not> dir_in (store s) (fs_prefix s) p) \<and> store s' = store s \<and>
    (\<exists>w inp popts x. presignPutInput f (fs_bucket s) (key (fs_prefix s) p) (put_config opts) = Inr (inp, popts) \<and>
       objs w = store s \<and> fst (PresignPutObject pc inp popts w) = Inr x \<and> out = signedRequest x) \<and>
    (\<forall>w. objs w = store s \<or> (\<exists>ob. objs w = (store s)(key (fs_prefix s) p \<mapsto> ob)) \<longrightarrow>
       ok (s'\<lparr>fs_world := w\<rparr>) \<and> same_conf s (s'\<lparr>fs_world := w\<rparr>) \<and> kept s (s'\<lparr>fs_world := w\<rparr>))"
proof -
  obtain p h n err s1 where rs: "resolve E ''presignput'' f s = ((p, h, n, err), s1)" by (metis prod.exhaust)
  note c1 = resolve_calm [OF ok rs]
  have None: "err = None" using op rs by (cases err) (simp_all add: S3FS_PresignPut_def)
  obtain ob where fo: "follow (store s) (fs_prefix s) maxSymlinkDepth (cleanPath f) = Some (p, ob, n)"
      and ho: "h = None \<longleftrightarrow> ob = None"
    using probe_cases(2) [OF ok an rs None] by blast
  have st: "(if p = ''/'' then (Inl (PathError ''presignput'' f ErrIsDirectory), s1)
      else if h = None then
        (case dirExists E p s1 of
           (Inl err, s2) \<Rightarrow> (Inl err, s2)
         | (Inr True, s2) \<Rightarrow> (Inl (PathError ''presignput'' f ErrIsDirectory), s2)
         | (Inr False, s2) \<Rightarrow> presignPutKey E pc f (key (fs_prefix s2) p) (put_config opts) s2)
      else presignPutKey E pc f (key (fs_prefix s1) p) (put_config opts) s1) = (Inr out, s')"
    using op by (simp only: S3FS_PresignPut_def rs None put_config_def Let_def option.case prod.case)
  obtain s2 where c2: "still s s2" and pk: "presignPutKey E pc f (key (fs_prefix s) p) (put_config opts) s2 = (Inr out, s')"
      and nd: "ob = None \<longrightarrow> \<not> dir_in (store s) (fs_prefix s) p"
  proof (cases "h = None")
    case True
    obtain s2 where de: "dirExists E p s1 = (Inr False, s2)" and pk: "presignPutKey E pc f (key (fs_prefix s2) p) (put_config opts) s2 = (Inr out, s')"
      using st True by (auto split: if_splits prod.splits sum.splits bool.splits)
    note c2 = calm_trans [OF c1 dirExists_calm [OF calmD(1) [OF c1] de]]
    have "\<not> dir_in (store s) (fs_prefix s) p"
      using dirExists_spec(5) [OF calmD(1) [OF c1] de refl] calmD(2,5) [OF c1] by simp
    then show thesis using that c2 pk calmD(5) [OF c2] by simp
  next
    case False
    then show thesis using that c1 st ho calmD(5) [OF c1] by (auto split: if_splits)
  qed
  note sp = presignPutKey_spec [OF calmD(1) [OF c2] pk, unfolded calmD(2,6) [OF c2]]
  have "ok (s'\<lparr>fs_world := w\<rparr>) \<and> same_conf s (s'\<lparr>fs_world := w\<rparr>) \<and> kept s (s'\<lparr>fs_world := w\<rparr>)"
    if "objs w = store s \<or> (\<exists>ob. objs w = (store s)(key (fs_prefix s) p \<mapsto> ob))" for w
    using sp(3) [OF that] same_conf_trans [OF calmD(3) [OF c2]] keeps_trans [OF calmD(4) [OF c2]] by blast
  then show ?thesis using fo nd sp(1,2) by blast
qed

end

text \<open>
  C16: \<^verbatim>\<open>PresignGet\<close> signs a download of the right object. With a store that answers it follows
  links and has the client sign a request for the key of the file reached, with the expiry
  asked for, or refuses a directory and a missing file; the bucket, the caches' agreement
  with it and the open writers stay as they are.
\<close>

theorem presign_get_targets_file:
  assumes "presigner E objs content rest pages mview dview pc" "sys_ok objs content mview dview s" "answering (client E)"
    "S3FS_PresignGet E (Some pc) f opts s = (r, s')"
  shows "sys_ok objs content mview dview s' \<and> objs (fs_world s') = objs (fs_world s) \<and> views s' = views s \<and>
    (case follow (objs (fs_world s)) (fs_prefix s) maxSymlinkDepth (cleanPath f) of
       None \<Rightarrow> \<exists>q. r = Inl (PathError ''presignget'' q ErrTooManySymlinks)
     | Some (p, Some ob, n) \<Rightarrow>
         \<exists>w x. objs w = objs (fs_world s) \<and>
           fst (PresignGetObject pc (fs_bucket s) (key (fs_prefix s) p)
                  [presignOpts (pc_expiry (fold applyPresignGet opts \<lparr>pc_expiry = 0, pc_contentSHA256 = ''''\<rparr>))] w) = x \<and>
           r = map_sum id signedRequest x
     | Some (p, None, n) \<Rightarrow>
         r = Inl (PathError ''presignget'' f
                   (if dir_in (objs (fs_world s)) (fs_prefix s) p then ErrIsDirectory else ErrNotExist)))"
proof -
  have w: "fs_ok objs content mview dview s" "writers_ok content dview s" using assms(2) by (auto simp: sys_ok_def)
  note g = presigner.PresignGet_spec [OF assms(1) w(1) assms(3,4)]
  note c = g [THEN conjunct1]
  show ?thesis
    by (intro conjI g [THEN conjunct2] calm_sys [OF assms(2) c] calmD(2) [OF c] calm_writers(2) [OF w(2) c])
qed

text \<open>
  C15: after \<^verbatim>\<open>PresignPut\<close> the upload may happen outside. If it hands out a request, the path leads to
  a file or to nothing, the request is for that key and carries the digest asked for, the bucket
  is unchanged, and whatever is then uploaded under that key, the filesystem is in order: no
  cache contradicts the new object, and the open writers are untouched.
\<close>

theorem presign_put_then_upload:
  assumes "presigner E objs content rest pages mview dview pc" "sys_ok objs content mview dview s" "answering (client E)"
    "S3FS_PresignPut E (Some pc) f opts s = (Inr out, s')"
  shows "\<exists>p ob n. follow (objs (fs_world s)) (fs_prefix s) maxSymlinkDepth (cleanPath f) = Some (p, ob, n) \<and>
    (ob = None \<longrightarrow> \<not> dir_in (objs (fs_world s)) (fs_prefix s) p) \<and> objs (fs_world s') = objs (fs_world s) \<and>
    (\<exists>w inp popts x. presignPutInput f (fs_bucket s) (key (fs_prefix s) p) (put_config opts) = Inr (inp, popts) \<and>
       objs w = objs (fs_world s) \<and> fst (PresignPutObject pc inp popts w) = Inr x \<and> out = signedRequest x) \<and>
    (\<forall>w ob. objs w = (objs (fs_world s))(key (fs_prefix s) p \<mapsto> ob) \<longrightarrow>
       sys_ok objs content mview dview (s'\<lparr>fs_world := w\<rparr>) \<and> views (s'\<lparr>fs_world := w\<rparr>) = views s)"
proof -
  have w: "fs_ok objs content mview dview s" "writers_ok content dview s" using assms(2) by (auto simp: sys_ok_def)
  obtain p ob n where sp: "follow (objs (fs_world s)) (fs_prefix s) maxSymlinkDepth (cleanPath f) = Some (p, ob, n)"
      "ob = None \<longrightarrow> \<not> dir_in (objs (fs_world s)) (fs_prefix s) p" "objs (fs_world s') = objs (fs_world s)"
      "\<exists>w inp popts x. presignPutInput f (fs_bucket s) (key (fs_prefix s) p) (put_config opts) = Inr (inp, popts) \<and>
         objs w = objs (fs_world s) \<and> fst (PresignPutObject pc inp popts w) = Inr x \<and> out = signedRequest x"
      and up: "\<And>w1 ob. objs w1 = (objs (fs_world s))(key (fs_prefix s) p \<mapsto> ob) \<Longrightarrow>
         fs_ok objs content mview dview (s'\<lparr>fs_world := w1\<rparr>) \<and> same_conf s (s'\<lparr>fs_world := w1\<rparr>) \<and>
         keeps dview s (s'\<lparr>fs_world := w1\<rparr>)"
    using presigner.PresignPut_spec [OF assms(1) w(1) assms(3,4)] by blast
  have "sys_ok objs content mview dview (s'\<lparr>fs_world := w1\<rparr>) \<and> views (s'\<lparr>fs_world := w1\<rparr>) = views s"
    if "objs w1 = (objs (fs_world s))(key (fs_prefix s) p \<mapsto> ob)" for w1 ob
    using up [OF that] kept_writers(1,2) [OF w(2), of "s'\<lparr>fs_world := w1\<rparr>"] unfolding sys_ok_def by blast
  then show ?thesis using sp by blast
qed

section \<open>An executable presign client\<close>

definition fake_presign :: "fake PresignClient" where
  "fake_presign = \<lparr>
     PresignGetObject = (\<lambda>b k os w. (Inr \<lparr>ph_URL = b @ ''/'' @ k, ph_Method = ''GET'', ph_SignedHeader = [(''host'', [b])]\<rparr>, w)),
     PresignPutObject = (\<lambda>i os w. (Inr \<lparr>ph_URL = pp_Bucket i @ ''/'' @ pp_Key i, ph_Method = ''PUT'',
        ph_SignedHeader = (''Host'', [pp_Bucket i]) #
          (case pp_ChecksumSHA256 i of None \<Rightarrow> [] | Some d \<Rightarrow> [(''x-amz-checksum-sha256'', [d])])\<rparr>, w))\<rparr>"

interpretation fake_presigner: presigner fake_env fake_objs tag_content fake_rest "\<lambda>m pre tok. 0" "\<lambda>c. c" "\<lambda>c. c" fake_presign
  by unfold_locales (simp_all add: fake_presign_def)

theorem presign_get_targets_file_witness:
  "\<exists>x s'. S3FS_PresignGet fake_env (Some fake_presign) ''l1'' [GetExpiry 5] demo_link_wfs = (Inr x, s') \<and>
     pr_Method x = ''GET'' \<and> pr_URL x = fs_bucket demo_link_wfs @ ''/d/f''"
proof -
  obtain r s' where r: "S3FS_PresignGet fake_env (Some fake_presign) ''l1'' [GetExpiry 5] demo_link_wfs = (r, s')"
    by (metis prod.exhaust)
  have "(case follow (fake_objs (fs_world demo_link_wfs)) (fs_prefix demo_link_wfs) maxSymlinkDepth (cleanPath ''l1'')
      of Some (p, Some ob, _) \<Rightarrow> key (fs_prefix demo_link_wfs) p = ''d/f'' | _ \<Rightarrow> False)"
    by code_simp
  then show ?thesis
    using presign_get_targets_file [OF fake_presigner.presigner_axioms demo_link_wfs_ok fake_answering r] r
    by (auto simp: signedRequest_def fake_presign_def split: option.splits)
qed

theorem presign_put_then_upload_witness:
  "\<exists>out s'. S3FS_PresignPut fake_env (Some fake_presign) ''n'' [] demo_link_wfs = (Inr out, s') \<and>
     fake_objs (fs_world s') = fake_objs (fs_world demo_link_wfs)"
proof -
  have "(case fst (S3FS_PresignPut fake_env (Some fake_presign) ''n'' [] demo_link_wfs) of Inl e \<Rightarrow> False | Inr x \<Rightarrow> True)"
    by code_simp
  then obtain out s' where r: "S3FS_PresignPut fake_env (Some fake_presign) ''n'' [] demo_link_wfs = (Inr out, s')"
    by (cases "S3FS_PresignPut fake_env (Some fake_presign) ''n'' [] demo_link_wfs") (auto split: sum.splits)
  then show ?thesis
    using presign_put_then_upload [OF fake_presigner.presigner_axioms demo_link_wfs_ok fake_answering r] by blast
qed

end
